(* ===== verification/Prelude.thy ===== *)
theory Prelude
  imports Complex_Main "HOL-Library.Word" "HOL-Library.AList"
begin

text \<open>
  Shared vocabulary of the development.

  Python exceptions are values of \<open>py_error\<close> (the class is kept, the message is not), a
  fallible operation returns \<open>py_error + 'a\<close> with \<open>Inl\<close> for the exception, and statements are
  sequenced with \<open>rbind\<close>; \<open>rfold\<close> and \<open>rmap\<close> are \<open>for\<close> loops that stop at the first
  exception.  A loop that may not end is a partial function into \<open>option\<close>, and \<open>obind\<close> and
  \<open>ofold\<close> sequence such computations.  A \<open>dict\<close> is an association list in insertion order with distinct keys
  (\<open>dict_get\<close>, \<open>dict_set\<close>, \<open>dict_pop\<close>), because the code iterates over dicts and serialises
  them in that order.  \<open>py_slice\<close>, \<open>py_index\<close> and \<open>py_set_slice\<close> are Python's slicing and
  indexing with negative and out-of-range positions; \<open>bisect_left\<close> and \<open>bisect_right\<close> are the
  binary searches of the standard library, proved against their specification.
\<close>

subsection \<open>Results\<close>

datatype py_error =
    ValueError
  | IndexError
  | KeyError
  | TypeError
  | AttributeError
  | AssertionError
  | RuntimeError
  | EOFError
  | StructError
  | OverflowError
  | UnicodeError
  | FileNotFoundError
  | ZeroDivisionError
  | UnsupportedDatatypeVersionError
  | MissingFullStateSnapshotError
  | PlainException

type_synonym 'a result = "py_error + 'a"

named_theorems result_simps "rewriting of sequenced fallible computations"

definition rbind :: "'a result \<Rightarrow> ('a \<Rightarrow> 'b result) \<Rightarrow> 'b result" where
  "rbind m f = (case m of Inl e \<Rightarrow> Inl e | Inr x \<Rightarrow> f x)"

lemma rbind_Inl [simp, result_simps]: "rbind (Inl e) f = Inl e"
  by (simp add: rbind_def)

lemma rbind_Inr [simp, result_simps]: "rbind (Inr x) f = f x"
  by (simp add: rbind_def)

lemma rbind_eq_Inr_iff [result_simps]:
  "rbind m f = Inr y \<longleftrightarrow> (\<exists>x. m = Inr x \<and> f x = Inr y)"
  by (cases m) auto

lemma rbind_eq_Inl_iff:
  "rbind m f = Inl e \<longleftrightarrow> m = Inl e \<or> (\<exists>x. m = Inr x \<and> f x = Inl e)"
  by (cases m) auto

lemma rbind_assoc: "rbind (rbind m f) g = rbind m (\<lambda>x. rbind (f x) g)"
  by (cases m) auto

lemma rbind_return [simp]: "rbind m Inr = m"
  by (cases m) auto

lemma rbind_cong [fundef_cong]:
  "m = m' \<Longrightarrow> (\<And>x. m' = Inr x \<Longrightarrow> f x = f' x) \<Longrightarrow> rbind m f = rbind m' f'"
  by (cases m') auto

fun rfold :: "('a \<Rightarrow> 's \<Rightarrow> 's result) \<Rightarrow> 'a list \<Rightarrow> 's \<Rightarrow> 's result" where
  "rfold f [] s = Inr s"
| "rfold f (x # xs) s = rbind (f x s) (rfold f xs)"

fun rmap :: "('a \<Rightarrow> 'b result) \<Rightarrow> 'a list \<Rightarrow> 'b list result" where
  "rmap f [] = Inr []"
| "rmap f (x # xs) = rbind (f x) (\<lambda>y. rbind (rmap f xs) (\<lambda>ys. Inr (y # ys)))"

lemma rfold_append: "rfold f (xs @ ys) s = rbind (rfold f xs s) (rfold f ys)"
proof (induction xs arbitrary: s)
  case (Cons x xs)
  show ?case by (cases "f x s") (simp_all add: Cons)
qed simp

lemma rfold_cong [fundef_cong]:
  "xs = ys \<Longrightarrow> s = t \<Longrightarrow> (\<And>x s. x \<in> set ys \<Longrightarrow> f x s = g x s) \<Longrightarrow> rfold f xs s = rfold g ys t"
proof (induction xs arbitrary: ys s t)
  case Nil
  then show ?case by simp
next
  case (Cons x xs)
  then have "f x s = g x s" and "rfold f xs = rfold g xs" by (auto simp: fun_eq_iff)
  then show ?case using Cons.prems by auto
qed

lemma rmap_cong [fundef_cong]:
  "xs = ys \<Longrightarrow> (\<And>x. x \<in> set ys \<Longrightarrow> f x = g x) \<Longrightarrow> rmap f xs = rmap g ys"
proof (induction xs arbitrary: ys)
  case (Cons x xs)
  then have "f x = g x" and "rmap f xs = rmap g xs" by auto
  then show ?case using Cons.prems by auto
qed simp

lemma rmap_Inr: "(\<And>x. x \<in> set xs \<Longrightarrow> f x = Inr (g x)) \<Longrightarrow> rmap f xs = Inr (map g xs)"
  by (induction xs) auto

lemma rmap_length: "rmap f xs = Inr ys \<Longrightarrow> length ys = length xs"
  by (induction xs arbitrary: ys) (auto simp: rbind_eq_Inr_iff)

text \<open>A loop whose body never raises on the states an invariant describes ends normally, and the
  invariant holds at the end.\<close>

lemma rfold_invariant:
  assumes "P s"
    and "\<And>x s. x \<in> set xs \<Longrightarrow> P s \<Longrightarrow> \<exists>s'. f x s = Inr s' \<and> P s'"
  shows "\<exists>s'. rfold f xs s = Inr s' \<and> P s'"
  using assms
proof (induction xs arbitrary: s)
  case (Cons x xs)
  then obtain s1 where s1: "f x s = Inr s1" "P s1" by (meson list.set_intros(1))
  with Cons have "\<exists>s'. rfold f xs s1 = Inr s' \<and> P s'" by simp
  with s1 show ?case by simp
qed simp

lemma rfold_preserves:
  assumes "rfold f xs s = Inr s'" and "P s"
    and "\<And>x s s'. x \<in> set xs \<Longrightarrow> P s \<Longrightarrow> f x s = Inr s' \<Longrightarrow> P s'"
  shows "P s'"
  using assms by (induction xs arbitrary: s) (auto simp: rbind_eq_Inr_iff)

text \<open>Fallible computations that may not end: \<open>None\<close> stands for not returning.\<close>

definition obind :: "'a result option \<Rightarrow> ('a \<Rightarrow> 'b result option) \<Rightarrow> 'b result option" where
  "obind m f = (case m of None \<Rightarrow> None | Some (Inl e) \<Rightarrow> Some (Inl e) | Some (Inr x) \<Rightarrow> f x)"

lemma obind_simps [simp]:
  "obind None f = None" "obind (Some (Inl e)) f = Some (Inl e)" "obind (Some (Inr x)) f = f x"
  by (simp_all add: obind_def)

fun ofold :: "('a \<Rightarrow> 's \<Rightarrow> 's result option) \<Rightarrow> 'a list \<Rightarrow> 's \<Rightarrow> 's result option" where
  "ofold f [] s = Some (Inr s)"
| "ofold f (x # xs) s = obind (f x s) (ofold f xs)"

definition py_assert :: "bool \<Rightarrow> unit result" where
  "py_assert b = (if b then Inr () else Inl AssertionError)"

lemma py_assert_simps [simp]:
  "py_assert True = Inr ()" "py_assert False = Inl AssertionError"
  "py_assert b = Inr u \<longleftrightarrow> b"
  by (auto simp: py_assert_def)

subsection \<open>Dictionaries in insertion order\<close>

type_synonym ('k, 'v) dict = "('k \<times> 'v) list"

abbreviation dict_get :: "('k, 'v) dict \<Rightarrow> 'k \<Rightarrow> 'v option" where
  "dict_get d k \<equiv> map_of d k"

abbreviation dict_set :: "('k, 'v) dict \<Rightarrow> 'k \<Rightarrow> 'v \<Rightarrow> ('k, 'v) dict" where
  "dict_set d k v \<equiv> AList.update k v d"

abbreviation dict_del :: "('k, 'v) dict \<Rightarrow> 'k \<Rightarrow> ('k, 'v) dict" where
  "dict_del d k \<equiv> AList.delete k d"

abbreviation dict_keys :: "('k, 'v) dict \<Rightarrow> 'k list" where
  "dict_keys d \<equiv> map fst d"

abbreviation dict_wf :: "('k, 'v) dict \<Rightarrow> bool" where
  "dict_wf d \<equiv> distinct (map fst d)"

definition dict_lookup :: "('k, 'v) dict \<Rightarrow> 'k \<Rightarrow> 'v result" where
  "dict_lookup d k = (case dict_get d k of None \<Rightarrow> Inl KeyError | Some v \<Rightarrow> Inr v)"

definition dict_pop :: "('k, 'v) dict \<Rightarrow> 'k \<Rightarrow> ('v \<times> ('k, 'v) dict) result" where
  "dict_pop d k = (case dict_get d k of None \<Rightarrow> Inl KeyError | Some v \<Rightarrow> Inr (v, dict_del d k))"

lemma dict_lookup_eq_Inr [simp]: "dict_lookup d k = Inr v \<longleftrightarrow> dict_get d k = Some v"
  by (auto simp: dict_lookup_def split: option.splits)

lemma dict_get_set [simp]: "dict_get (dict_set d k v) k' = (if k' = k then Some v else dict_get d k')"
  by (simp add: update_conv')

lemma dict_get_del [simp]: "dict_get (dict_del d k) k' = (if k' = k then None else dict_get d k')"
  by (simp add: delete_conv')

lemma dict_wf_set [simp]: "dict_wf d \<Longrightarrow> dict_wf (dict_set d k v)"
  by (simp add: distinct_update)

lemma dict_wf_del [simp]: "dict_wf d \<Longrightarrow> dict_wf (dict_del d k)"
  by (simp add: distinct_delete)

lemma dict_keys_set [simp]:
  "set (dict_keys (dict_set d k v)) = insert k (set (dict_keys d))"
  using dom_update [of k v d] by (simp add: dom_map_of_conv_image_fst)

lemma dict_keys_del [simp]: "set (dict_keys (dict_del d k)) = set (dict_keys d) - {k}"
  by (simp add: delete_keys)

lemma fst_set_dict_set [simp]: "fst ` set (dict_set d k v) = insert k (fst ` set d)"
  using dict_keys_set [of k v d] by (simp del: dict_keys_set)

lemma fst_set_dict_del [simp]: "fst ` set (dict_del d k) = fst ` set d - {k}"
  using dict_keys_del [of k d] by (simp del: dict_keys_del)

lemma dict_del_set_fresh: "k \<notin> fst ` set d \<Longrightarrow> dict_del (dict_set d k v) k = d"
  by (induction d) (auto simp: AList.delete_eq)

lemma dict_set_same: "dict_get d k = Some v \<Longrightarrow> dict_set d k v = d"
  by (induction d) (auto split: if_splits)

lemma dict_set_twice: "dict_set (dict_set d k v) k w = dict_set d k w"
  by (induction d) auto

lemma dict_set_fresh: "k \<notin> fst ` set d \<Longrightarrow> dict_set d k v = d @ [(k, v)]"
  by (induction d) auto

lemma dict_get_in_keys: "dict_get d k = Some v \<Longrightarrow> k \<in> fst ` set d"
  by (induction d) (auto split: if_splits)

lemma dict_get_not_None_iff: "dict_get d k \<noteq> None \<longleftrightarrow> k \<in> fst ` set d"
  by (metis map_of_eq_None_iff)

lemma length_dict_set:
  "length (dict_set d k v) = (if k \<in> fst ` set d then length d else Suc (length d))"
  by (induction d) auto

lemma length_dict_del:
  "dict_wf d \<Longrightarrow> length (dict_del d k) = (if k \<in> fst ` set d then length d - 1 else length d)"
proof (induction d)
  case (Cons p d)
  then have "k \<notin> fst ` set d \<Longrightarrow> dict_del d k = d" by (induction d) auto
  with Cons show ?case by (cases d) (auto simp: Suc_diff_Suc)
qed simp

subsection \<open>Indexing and slicing\<close>

definition py_index :: "'a list \<Rightarrow> int \<Rightarrow> 'a result" where
  "py_index xs i =
     (let n = int (length xs); j = (if i < 0 then i + n else i)
      in if 0 \<le> j \<and> j < n then Inr (xs ! nat j) else Inl IndexError)"

definition clip :: "nat \<Rightarrow> int \<Rightarrow> nat" where
  "clip n i = nat (if i < 0 then max 0 (i + int n) else min i (int n))"

definition py_slice :: "'a list \<Rightarrow> int \<Rightarrow> int \<Rightarrow> 'a list" where
  "py_slice xs i j =
     (let a = clip (length xs) i; b = clip (length xs) j in take (b - a) (drop a xs))"

definition py_set_slice :: "'a list \<Rightarrow> int \<Rightarrow> int \<Rightarrow> 'a list \<Rightarrow> 'a list" where
  "py_set_slice xs i j ys =
     (let a = clip (length xs) i; b = clip (length xs) j in take a xs @ ys @ drop (max a b) xs)"

lemma clip_nat [simp]: "clip n (int i) = min i n"
  by (simp add: clip_def min_def)

lemma clip_le [simp]: "clip n i \<le> n"
  by (auto simp: clip_def)

lemma py_index_nat [simp]:
  "py_index xs (int i) = (if i < length xs then Inr (xs ! i) else Inl IndexError)"
  by (simp add: py_index_def)

lemma py_slice_nat [simp]: "py_slice xs (int i) (int i + int n) = take n (drop i xs)"
proof -
  have "clip (length xs) (int i + int n) = min (i + n) (length xs)"
    by (metis clip_nat of_nat_add)
  then show ?thesis
    by (simp add: py_slice_def min_def)
qed

lemma py_slice_prefix [simp]: "py_slice (xs @ ys) 0 (int (length xs)) = xs"
  using py_slice_nat [of "xs @ ys" 0 "length xs"] by simp

lemma py_set_slice_nat:
  "i \<le> length xs \<Longrightarrow> py_set_slice xs (int i) (int i + int n) ys = take i xs @ ys @ drop (i + n) xs"
proof -
  assume "i \<le> length xs"
  moreover have "clip (length xs) (int i + int n) = min (i + n) (length xs)"
    by (metis clip_nat of_nat_add)
  ultimately show ?thesis
    by (auto simp: py_set_slice_def max_def min_def)
qed

subsection \<open>Binary search\<close>

text \<open>The standard library's loops: \<open>while lo < hi: mid = (lo + hi) // 2; ...\<close>.\<close>

function bisect_right_loop :: "'a::linorder list \<Rightarrow> 'a \<Rightarrow> nat \<Rightarrow> nat \<Rightarrow> nat" where
  "bisect_right_loop a x lo hi =
     (if lo < hi
      then let mid = (lo + hi) div 2 in
           if x < a ! mid then bisect_right_loop a x lo mid
           else bisect_right_loop a x (mid + 1) hi
      else lo)"
  by pat_completeness auto
termination
  by (relation "measure (\<lambda>(a, x, lo, hi). hi - lo)") auto

function bisect_left_loop :: "'a::linorder list \<Rightarrow> 'a \<Rightarrow> nat \<Rightarrow> nat \<Rightarrow> nat" where
  "bisect_left_loop a x lo hi =
     (if lo < hi
      then let mid = (lo + hi) div 2 in
           if a ! mid < x then bisect_left_loop a x (mid + 1) hi
           else bisect_left_loop a x lo mid
      else lo)"
  by pat_completeness auto
termination
  by (relation "measure (\<lambda>(a, x, lo, hi). hi - lo)") auto

declare bisect_right_loop.simps [simp del] bisect_left_loop.simps [simp del]

definition bisect_right :: "'a::linorder list \<Rightarrow> 'a \<Rightarrow> nat" where
  "bisect_right a x = bisect_right_loop a x 0 (length a)"

definition bisect_left :: "'a::linorder list \<Rightarrow> 'a \<Rightarrow> nat" where
  "bisect_left a x = bisect_left_loop a x 0 (length a)"

lemma bisect_right_loop_spec:
  assumes "sorted a" "lo \<le> hi" "hi \<le> length a"
    and "\<forall>i < lo. a ! i \<le> x" and "\<forall>i < length a. hi \<le> i \<longrightarrow> x < a ! i"
  shows "bisect_right_loop a x lo hi \<le> length a \<and>
         (\<forall>i < bisect_right_loop a x lo hi. a ! i \<le> x) \<and>
         (\<forall>i < length a. bisect_right_loop a x lo hi \<le> i \<longrightarrow> x < a ! i)"
  using assms
proof (induction a x lo hi rule: bisect_right_loop.induct)
  case (1 a x lo hi)
  show ?case
  proof (cases "lo < hi")
    case True
    let ?mid = "(lo + hi) div 2"
    have mid: "lo \<le> ?mid" "?mid + 1 \<le> hi" "?mid \<le> length a" "?mid < length a"
      using True 1(5) by auto
    show ?thesis
    proof (cases "x < a ! ?mid")
      case lt: True
      have "\<forall>i < length a. ?mid \<le> i \<longrightarrow> x < a ! i"
        using lt sorted_nth_mono [OF 1(3), of ?mid] by fastforce
      note ih = 1(1)[OF True refl lt 1(3) mid(1) mid(3) 1(6) this]
      have eq: "bisect_right_loop a x lo hi = bisect_right_loop a x lo ?mid"
        using lt True by (simp add: bisect_right_loop.simps [of a x lo hi] Let_def)
      show ?thesis unfolding eq by (rule ih)
    next
      case ge: False
      have "a ! i \<le> x" if "i < ?mid + 1" for i
        using sorted_nth_mono [OF 1(3), of i ?mid] that mid(4) ge by auto
      then have "\<forall>i < ?mid + 1. a ! i \<le> x" by blast
      note ih = 1(2)[OF True refl ge 1(3) mid(2) 1(5) this 1(7)]
      have eq: "bisect_right_loop a x lo hi = bisect_right_loop a x (?mid + 1) hi"
        using ge True by (simp add: bisect_right_loop.simps [of a x lo hi] Let_def)
      show ?thesis unfolding eq by (rule ih)
    qed
  next
    case False
    with 1(4) have "bisect_right_loop a x lo hi = lo" "lo = hi"
      by (simp_all add: bisect_right_loop.simps)
    with 1(5-7) show ?thesis by simp
  qed
qed

lemma bisect_left_loop_spec:
  assumes "sorted a" "lo \<le> hi" "hi \<le> length a"
    and "\<forall>i < lo. a ! i < x" and "\<forall>i < length a. hi \<le> i \<longrightarrow> x \<le> a ! i"
  shows "bisect_left_loop a x lo hi \<le> length a \<and>
         (\<forall>i < bisect_left_loop a x lo hi. a ! i < x) \<and>
         (\<forall>i < length a. bisect_left_loop a x lo hi \<le> i \<longrightarrow> x \<le> a ! i)"
  using assms
proof (induction a x lo hi rule: bisect_left_loop.induct)
  case (1 a x lo hi)
  show ?case
  proof (cases "lo < hi")
    case True
    let ?mid = "(lo + hi) div 2"
    have mid: "lo \<le> ?mid" "?mid + 1 \<le> hi" "?mid \<le> length a" "?mid < length a"
      using True 1(5) by auto
    show ?thesis
    proof (cases "a ! ?mid < x")
      case lt: True
      have "a ! i < x" if "i < ?mid + 1" for i
        using sorted_nth_mono [OF 1(3), of i ?mid] that mid(4) lt by auto
      then have "\<forall>i < ?mid + 1. a ! i < x" by blast
      note ih = 1(1)[OF True refl lt 1(3) mid(2) 1(5) this 1(7)]
      have eq: "bisect_left_loop a x lo hi = bisect_left_loop a x (?mid + 1) hi"
        using lt True by (simp add: bisect_left_loop.simps [of a x lo hi] Let_def)
      show ?thesis unfolding eq by (rule ih)
    next
      case ge: False
      have "\<forall>i < length a. ?mid \<le> i \<longrightarrow> x \<le> a ! i"
        using ge sorted_nth_mono [OF 1(3), of ?mid] by fastforce
      note ih = 1(2)[OF True refl ge 1(3) mid(1) mid(3) 1(6) this]
      have eq: "bisect_left_loop a x lo hi = bisect_left_loop a x lo ?mid"
        using ge True by (simp add: bisect_left_loop.simps [of a x lo hi] Let_def)
      show ?thesis unfolding eq by (rule ih)
    qed
  next
    case False
    with 1(4) have "bisect_left_loop a x lo hi = lo" "lo = hi"
      by (simp_all add: bisect_left_loop.simps)
    with 1(5-7) show ?thesis by simp
  qed
qed

lemma bisect_right_le: "sorted a \<Longrightarrow> bisect_right a x \<le> length a"
  and bisect_right_below: "sorted a \<Longrightarrow> i < bisect_right a x \<Longrightarrow> a ! i \<le> x"
  and bisect_right_above: "sorted a \<Longrightarrow> bisect_right a x \<le> i \<Longrightarrow> i < length a \<Longrightarrow> x < a ! i"
  using bisect_right_loop_spec [of a 0 "length a" x] by (auto simp: bisect_right_def)

lemma bisect_left_le: "sorted a \<Longrightarrow> bisect_left a x \<le> length a"
  and bisect_left_below: "sorted a \<Longrightarrow> i < bisect_left a x \<Longrightarrow> a ! i < x"
  and bisect_left_above: "sorted a \<Longrightarrow> bisect_left a x \<le> i \<Longrightarrow> i < length a \<Longrightarrow> x \<le> a ! i"
  using bisect_left_loop_spec [of a 0 "length a" x] by (auto simp: bisect_left_def)

end
