(* ===== verification/Binary.thy ===== *)
theory Binary
  imports Prelude
begin

text \<open>
  Byte-level input and output: \<open>utils/binary.py\<close> and the part of the standard library's
  \<open>struct\<close> module it rests on.

  A byte is an \<open>8 word\<close>.  The \<open>struct\<close> codes used by the program are little-endian without
  padding: unsigned and signed integers of 1, 2, 4 and 8 bytes (\<open>B b H h I i Q q\<close>), the one-byte
  \<open>?\<close> and the fixed-width byte string \<open>40s\<close>.  Packing a value outside the range of its code and
  unpacking from too short a buffer raise \<open>struct.error\<close>.  A double is kept as its 64-bit IEEE
  pattern; the four single-precision methods (\<open>read_float\<close>, \<open>write_float\<close> and their array
  forms), which round, are not modelled.  A Python \<open>str\<close> is a list of code points below 256,
  on which \<open>utf8_encode\<close> is UTF-8.

  \<open>BinaryReader\<close> keeps the data and a position that may run past either end, as the
  \<open>memoryview\<close> slices and \<open>unpack_from\<close> offsets of the source allow; \<open>BinaryWriter\<close> is a
  \<open>BytesIO\<close>: a write overwrites at the position and zero-fills a gap left by \<open>seek\<close>.
\<close>

type_synonym byte = "8 word"
type_synonym bytes = "byte list"

subsection \<open>Little-endian integers\<close>

primrec le_bytes :: "nat \<Rightarrow> int \<Rightarrow> bytes" where
  "le_bytes 0 v = []"
| "le_bytes (Suc n) v = word_of_int v # le_bytes n (v div 256)"

primrec le_uint :: "bytes \<Rightarrow> int" where
  "le_uint [] = 0"
| "le_uint (b # bs) = uint b + 256 * le_uint bs"

definition le_sint :: "bytes \<Rightarrow> int" where
  "le_sint bs =
     (let u = le_uint bs; n = 8 * length bs
      in if 0 < n \<and> 2 ^ (n - 1) \<le> u then u - 2 ^ n else u)"

lemma length_le_bytes [simp]: "length (le_bytes n v) = n"
  by (induction n arbitrary: v) auto

lemma le_uint_nonneg: "0 \<le> le_uint bs"
  by (induction bs) auto

lemma le_uint_bound: "le_uint bs < 256 ^ length bs"
proof (induction bs)
  case (Cons b bs)
  have "uint b < 256" using uint_bounded [of b] by simp
  moreover have "le_uint bs + 1 \<le> 256 ^ length bs" using Cons by simp
  ultimately have "uint b + 256 * le_uint bs < 256 * 256 ^ length bs" by linarith
  then show ?case by simp
qed simp

lemma le_uint_le_bytes: "le_uint (le_bytes n v) = v mod 256 ^ n"
proof (induction n arbitrary: v)
  case (Suc n)
  have "uint (word_of_int v :: byte) = v mod 256" by (simp add: uint_word_of_int)
  moreover have "v mod (256 * 256 ^ n) = v mod 256 + 256 * (v div 256 mod 256 ^ n)"
    using zmod_zmult2_eq [of "256 ^ n" v 256] by simp
  ultimately show ?case by (simp add: Suc)
qed simp

lemma le_bytes_le_uint: "le_bytes (length bs) (le_uint bs) = bs"
proof (induction bs)
  case (Cons b bs)
  have u: "0 \<le> uint b" "uint b < 256" using uint_bounded [of b] by simp_all
  then have "(uint b + 256 * le_uint bs) div 256 = le_uint bs" by simp
  moreover have "(word_of_int (uint b + 256 * le_uint bs) :: byte) = b"
  proof -
    have "(uint b + 256 * le_uint bs) mod 256 = uint b" using u by simp
    moreover have "uint (word_of_int v :: byte) = v mod 256" for v
      by (simp add: uint_word_of_int)
    ultimately show ?thesis by (simp only: word_uint_eq_iff)
  qed
  ultimately show ?case by (simp add: Cons)
qed simp

lemma pow_256: "(256::int) ^ n = 2 ^ (8 * n)"
  by (simp add: power_mult)

lemma le_uint_roundtrip: "0 \<le> v \<Longrightarrow> v < 2 ^ (8 * n) \<Longrightarrow> le_uint (le_bytes n v) = v"
  by (simp add: le_uint_le_bytes pow_256)

lemma le_sint_roundtrip:
  assumes "0 < n" "- (2 ^ (8 * n - 1)) \<le> v" "v < 2 ^ (8 * n - 1)"
  shows "le_sint (le_bytes n v) = v"
proof -
  have two: "(2::int) ^ (8 * n) = 2 * 2 ^ (8 * n - 1)"
    using assms(1) by (metis One_nat_def Suc_pred mult_pos_pos power_Suc zero_less_numeral)
  show ?thesis
  proof (cases "0 \<le> v")
    case True
    with assms two show ?thesis
      by (simp add: le_sint_def le_uint_roundtrip Let_def)
  next
    case False
    have "v mod 2 ^ (8 * n) = v + 2 ^ (8 * n)"
    proof -
      have "(v + 2 ^ (8 * n)) mod 2 ^ (8 * n) = v + 2 ^ (8 * n)"
        using False assms two by (intro mod_pos_pos_trivial) linarith+
      then show ?thesis by simp
    qed
    with assms two False show ?thesis
      by (simp add: le_sint_def le_uint_le_bytes pow_256 Let_def)
  qed
qed

subsection \<open>The struct module\<close>

datatype code = CU nat | CS nat | CBool | CBytes nat

datatype sval = SI int | SB bool | SY bytes

fun calcsize :: "code \<Rightarrow> nat" where
  "calcsize (CU n) = n"
| "calcsize (CS n) = n"
| "calcsize CBool = 1"
| "calcsize (CBytes n) = n"

definition calcsizes :: "code list \<Rightarrow> nat" where
  "calcsizes cs = sum_list (map calcsize cs)"

fun in_range :: "code \<Rightarrow> int \<Rightarrow> bool" where
  "in_range (CU n) v = (0 \<le> v \<and> v < 2 ^ (8 * n))"
| "in_range (CS n) v = (0 < n \<and> - (2 ^ (8 * n - 1)) \<le> v \<and> v < 2 ^ (8 * n - 1))"
| "in_range _ v = False"

definition pack_int :: "code \<Rightarrow> int \<Rightarrow> bytes result" where
  "pack_int c v = (if in_range c v then Inr (le_bytes (calcsize c) v) else Inl StructError)"

fun pack1 :: "code \<Rightarrow> sval \<Rightarrow> bytes result" where
  "pack1 CBool v = Inr [if (case v of SI i \<Rightarrow> i \<noteq> 0 | SB b \<Rightarrow> b | SY bs \<Rightarrow> bs \<noteq> []) then 1 else 0]"
| "pack1 (CBytes n) (SY bs) = Inr (take n bs @ replicate (n - length bs) 0)"
| "pack1 (CBytes n) _ = Inl StructError"
| "pack1 c (SI i) = pack_int c i"
| "pack1 c (SB b) = pack_int c (if b then 1 else 0)"
| "pack1 c (SY bs) = Inl StructError"

fun struct_pack :: "code list \<Rightarrow> sval list \<Rightarrow> bytes result" where
  "struct_pack [] [] = Inr []"
| "struct_pack (c # cs) (v # vs) =
     rbind (pack1 c v) (\<lambda>b. rbind (struct_pack cs vs) (\<lambda>bs. Inr (b @ bs)))"
| "struct_pack _ _ = Inl StructError"

fun decode_int :: "code \<Rightarrow> bytes \<Rightarrow> int" where
  "decode_int (CS n) bs = le_sint bs"
| "decode_int _ bs = le_uint bs"

fun unpack1 :: "code \<Rightarrow> bytes \<Rightarrow> sval" where
  "unpack1 (CU n) bs = SI (le_uint bs)"
| "unpack1 (CS n) bs = SI (le_sint bs)"
| "unpack1 CBool bs = SB (le_uint bs \<noteq> 0)"
| "unpack1 (CBytes n) bs = SY bs"

fun unpack_items :: "code list \<Rightarrow> bytes \<Rightarrow> sval list" where
  "unpack_items [] bs = []"
| "unpack_items (c # cs) bs = unpack1 c (take (calcsize c) bs) # unpack_items cs (drop (calcsize c) bs)"

text \<open>\<open>struct.unpack\<close> wants exactly the size of the format; \<open>struct.unpack_from\<close> wants at least
  that many bytes from the offset, and counts a negative offset from the end.\<close>

definition struct_unpack :: "code list \<Rightarrow> bytes \<Rightarrow> sval list result" where
  "struct_unpack cs bs =
     (if length bs = calcsizes cs then Inr (unpack_items cs bs) else Inl StructError)"

definition buffer_at :: "nat \<Rightarrow> bytes \<Rightarrow> int \<Rightarrow> bytes result" where
  "buffer_at sz data off =
     (let n = int (length data); o' = (if off < 0 then off + n else off)
      in if o' < 0 \<or> n - o' < int sz then Inl StructError
         else Inr (take sz (drop (nat o') data)))"

definition struct_unpack_from :: "code list \<Rightarrow> bytes \<Rightarrow> int \<Rightarrow> sval list result" where
  "struct_unpack_from cs data off =
     rbind (buffer_at (calcsizes cs) data off) (\<lambda>bs. Inr (unpack_items cs bs))"

definition unpack_int_from :: "code \<Rightarrow> bytes \<Rightarrow> int \<Rightarrow> int result" where
  "unpack_int_from c data off =
     rbind (buffer_at (calcsize c) data off) (\<lambda>bs. Inr (decode_int c bs))"

fun decode_ints :: "code \<Rightarrow> nat \<Rightarrow> bytes \<Rightarrow> int list" where
  "decode_ints c 0 bs = []"
| "decode_ints c (Suc k) bs =
     decode_int c (take (calcsize c) bs) # decode_ints c k (drop (calcsize c) bs)"

definition unpack_ints_from :: "code \<Rightarrow> int \<Rightarrow> bytes \<Rightarrow> int \<Rightarrow> int list result" where
  "unpack_ints_from c count data off =
     (if count < 0 then Inl StructError
      else rbind (buffer_at (nat count * calcsize c) data off)
             (\<lambda>bs. Inr (decode_ints c (nat count) bs)))"

definition pack_ints :: "code \<Rightarrow> int list \<Rightarrow> bytes result" where
  "pack_ints c vs = rbind (rmap (pack_int c) vs) (\<lambda>bss. Inr (concat bss))"

lemma calcsizes_simps [simp]: "calcsizes [] = 0" "calcsizes (c # cs) = calcsize c + calcsizes cs"
  by (simp_all add: calcsizes_def)

lemma decode_pack_int:
  "pack_int c v = Inr bs \<Longrightarrow> decode_int c bs = v \<and> length bs = calcsize c"
  by (cases c) (auto simp: pack_int_def le_uint_roundtrip le_sint_roundtrip split: if_splits)

lemma pack_int_eq_Inr_iff: "(\<exists>bs. pack_int c v = Inr bs) \<longleftrightarrow> in_range c v"
  by (auto simp: pack_int_def)

text \<open>A value is \<open>faithful\<close> for a code when packing loses nothing: integers for the integer
  codes, booleans for \<open>?\<close>, byte strings of exactly the width for \<open>40s\<close>.\<close>

fun faithful :: "code \<Rightarrow> sval \<Rightarrow> bool" where
  "faithful (CU n) (SI i) = in_range (CU n) i"
| "faithful (CS n) (SI i) = in_range (CS n) i"
| "faithful CBool (SB b) = True"
| "faithful (CBytes n) (SY bs) = (length bs = n)"
| "faithful _ _ = False"

lemma pack1_roundtrip:
  "faithful c v \<Longrightarrow> \<exists>bs. pack1 c v = Inr bs \<and> length bs = calcsize c \<and> unpack1 c bs = v"
  by (induction c v rule: faithful.induct)
    (auto simp: pack_int_def le_uint_roundtrip le_sint_roundtrip)

lemma struct_roundtrip:
  "list_all2 faithful cs vs \<Longrightarrow>
   \<exists>bs. struct_pack cs vs = Inr bs \<and> length bs = calcsizes cs \<and>
        (\<forall>rest. unpack_items cs (bs @ rest) = vs)"
proof (induction cs vs rule: list_all2_induct)
  case (Cons c cs v vs)
  then obtain b bs where "pack1 c v = Inr b" "length b = calcsize c" "unpack1 c b = v"
    and "struct_pack cs vs = Inr bs" "length bs = calcsizes cs"
    and "\<forall>rest. unpack_items cs (bs @ rest) = vs"
    using pack1_roundtrip by blast
  then show ?case by simp
qed simp

lemma struct_unpack_pack:
  assumes "list_all2 faithful cs vs" "struct_pack cs vs = Inr bs"
  shows "struct_unpack cs bs = Inr vs" "length bs = calcsizes cs"
proof -
  from struct_roundtrip [OF assms(1)] assms(2)
  have bs: "length bs = calcsizes cs" "\<forall>rest. unpack_items cs (bs @ rest) = vs" by auto
  from bs(2) have "unpack_items cs (bs @ []) = vs" by blast
  with bs(1) show "struct_unpack cs bs = Inr vs" "length bs = calcsizes cs"
    by (auto simp: struct_unpack_def)
qed

lemma buffer_at_append [simp]:
  "length bs = n \<Longrightarrow> buffer_at n (pre @ bs @ post) (int (length pre)) = Inr bs"
  by (simp add: buffer_at_def)

lemma buffer_at_short: "0 \<le> off \<Longrightarrow> int (length data) < off + int n \<Longrightarrow> buffer_at n data off = Inl StructError"
  by (simp add: buffer_at_def)

lemma decode_ints_pack:
  "rmap (pack_int c) vs = Inr bss \<Longrightarrow>
   decode_ints c (length vs) (concat bss @ rest) = vs \<and> length (concat bss) = length vs * calcsize c"
proof (induction vs arbitrary: bss)
  case (Cons v vs)
  then obtain b bss' where b: "pack_int c v = Inr b" and r: "rmap (pack_int c) vs = Inr bss'"
    and bss: "bss = b # bss'" by (auto simp: rbind_eq_Inr_iff)
  from decode_pack_int [OF b] Cons.IH [OF r] bss show ?case by simp
qed simp

subsection \<open>UTF-8 on the modelled code points\<close>

fun utf8_char :: "char \<Rightarrow> bytes" where
  "utf8_char c =
     (let n = of_char c :: nat in
      if n < 128 then [of_nat n] else [of_nat (192 + n div 64), of_nat (128 + n mod 64)])"

definition utf8_encode :: "string \<Rightarrow> bytes" where
  "utf8_encode s = concat (map utf8_char s)"

text \<open>A sequence that does not encode a code point below 256 is an error of the model: the
  program raises \<open>UnicodeDecodeError\<close> on a malformed one, a lone lead byte among them.\<close>

fun utf8_decode :: "bytes \<Rightarrow> string result" where
  "utf8_decode [] = Inr []"
| "utf8_decode (b # bs) =
     (if unat b < 128 then rbind (utf8_decode bs) (\<lambda>s. Inr (char_of (unat b) # s))
      else if unat b = 194 \<or> unat b = 195 then
        (case bs of
           [] \<Rightarrow> Inl UnicodeError
         | b' # bs' \<Rightarrow>
             if 128 \<le> unat b' \<and> unat b' < 192
             then rbind (utf8_decode bs')
                    (\<lambda>s. Inr (char_of ((unat b - 192) * 64 + (unat b' - 128)) # s))
             else Inl UnicodeError)
      else Inl UnicodeError)"

lemma of_char_less: "(of_char c :: nat) < 256"
  using nat_of_char_less_256 by simp

lemma utf8_decode_char: "utf8_decode (utf8_char c @ bs) = rbind (utf8_decode bs) (\<lambda>s. Inr (c # s))"
proof (cases "(of_char c :: nat) < 128")
  case True
  then have "unat (of_nat (of_char c :: nat) :: byte) = of_char c"
    by (simp add: unat_of_nat)
  with True show ?thesis by simp
next
  case False
  define n where "n = (of_char c :: nat)"
  have n: "128 \<le> n" "n < 256" using False of_char_less [of c] by (auto simp: n_def)
  then have d: "n div 64 = 2 \<or> n div 64 = 3" by auto
  define b1 :: byte where "b1 = of_nat (192 + n div 64)"
  define b2 :: byte where "b2 = of_nat (128 + n mod 64)"
  have a: "unat b1 = 192 + n div 64"
    using d unfolding b1_def unat_of_nat by auto
  have m: "n mod 64 < 64" by simp
  then have b: "unat b2 = 128 + n mod 64"
    unfolding b2_def unat_of_nat by simp
  have u: "utf8_char c = [b1, b2]"
    using n by (simp add: n_def Let_def b1_def b2_def)
  have "char_of (n div 64 * 64 + n mod 64) = c" by (simp add: n_def)
  then show ?thesis
    unfolding u using d m by (auto simp: a b)
qed

lemma utf8_roundtrip_append: "utf8_decode (utf8_encode s @ bs) = rbind (utf8_decode bs) (\<lambda>t. Inr (s @ t))"
proof (induction s)
  case (Cons c s)
  then show ?case
    by (cases "utf8_decode bs") (simp_all add: utf8_encode_def utf8_decode_char del: utf8_char.simps)
qed (simp add: utf8_encode_def)

lemma utf8_roundtrip [simp]: "utf8_decode (utf8_encode s) = Inr s"
  using utf8_roundtrip_append [of s "[]"] by simp

subsection \<open>BinaryReader\<close>

record binary_reader =
  rdata :: bytes
  rpos :: int

definition new_reader :: "bytes \<Rightarrow> int \<Rightarrow> binary_reader" where
  "new_reader data offset = \<lparr>rdata = data, rpos = offset\<rparr>"

definition rsize :: "binary_reader \<Rightarrow> int" where
  "rsize r = int (length (rdata r))"

definition advance :: "int \<Rightarrow> binary_reader \<Rightarrow> binary_reader" where
  "advance n r = r\<lparr>rpos := rpos r + n\<rparr>"

definition read_int :: "code \<Rightarrow> binary_reader \<Rightarrow> (int \<times> binary_reader) result" where
  "read_int c r =
     rbind (unpack_int_from c (rdata r) (rpos r)) (\<lambda>v. Inr (v, advance (int (calcsize c)) r))"

definition read_uint8 :: "binary_reader \<Rightarrow> (int \<times> binary_reader) result" where
  "read_uint8 r = rbind (py_index (rdata r) (rpos r)) (\<lambda>b. Inr (uint b, advance 1 r))"

definition read_int8 :: "binary_reader \<Rightarrow> (int \<times> binary_reader) result" where
  "read_int8 = read_int (CS 1)"

definition read_uint16 :: "binary_reader \<Rightarrow> (int \<times> binary_reader) result" where
  "read_uint16 = read_int (CU 2)"

definition read_int16 :: "binary_reader \<Rightarrow> (int \<times> binary_reader) result" where
  "read_int16 = read_int (CS 2)"

definition read_uint32 :: "binary_reader \<Rightarrow> (int \<times> binary_reader) result" where
  "read_uint32 = read_int (CU 4)"

definition read_int32 :: "binary_reader \<Rightarrow> (int \<times> binary_reader) result" where
  "read_int32 = read_int (CS 4)"

definition read_uint64 :: "binary_reader \<Rightarrow> (int \<times> binary_reader) result" where
  "read_uint64 = read_int (CU 8)"

definition read_int64 :: "binary_reader \<Rightarrow> (int \<times> binary_reader) result" where
  "read_int64 = read_int (CS 8)"

definition read_double :: "binary_reader \<Rightarrow> (64 word \<times> binary_reader) result" where
  "read_double r = rbind (read_int (CU 8) r) (\<lambda>(v, r'). Inr (word_of_int v, r'))"

definition read_ints :: "code \<Rightarrow> int \<Rightarrow> binary_reader \<Rightarrow> (int list \<times> binary_reader) result" where
  "read_ints c count r =
     rbind (unpack_ints_from c count (rdata r) (rpos r))
       (\<lambda>vs. Inr (vs, advance (count * int (calcsize c)) r))"

definition read_uint8_array :: "int \<Rightarrow> binary_reader \<Rightarrow> int list \<times> binary_reader" where
  "read_uint8_array count r =
     (map uint (py_slice (rdata r) (rpos r) (rpos r + count)), advance count r)"

definition read_int8_array :: "int \<Rightarrow> binary_reader \<Rightarrow> (int list \<times> binary_reader) result" where
  "read_int8_array = read_ints (CS 1)"

definition read_uint16_array :: "int \<Rightarrow> binary_reader \<Rightarrow> (int list \<times> binary_reader) result" where
  "read_uint16_array = read_ints (CU 2)"

definition read_int16_array :: "int \<Rightarrow> binary_reader \<Rightarrow> (int list \<times> binary_reader) result" where
  "read_int16_array = read_ints (CS 2)"

definition read_uint32_array :: "int \<Rightarrow> binary_reader \<Rightarrow> (int list \<times> binary_reader) result" where
  "read_uint32_array = read_ints (CU 4)"

definition read_int32_array :: "int \<Rightarrow> binary_reader \<Rightarrow> (int list \<times> binary_reader) result" where
  "read_int32_array = read_ints (CS 4)"

definition read_uint64_array :: "int \<Rightarrow> binary_reader \<Rightarrow> (int list \<times> binary_reader) result" where
  "read_uint64_array = read_ints (CU 8)"

definition read_int64_array :: "int \<Rightarrow> binary_reader \<Rightarrow> (int list \<times> binary_reader) result" where
  "read_int64_array = read_ints (CS 8)"

definition read_double_array :: "int \<Rightarrow> binary_reader \<Rightarrow> (64 word list \<times> binary_reader) result" where
  "read_double_array count r =
     rbind (read_ints (CU 8) count r) (\<lambda>(vs, r'). Inr (map word_of_int vs, r'))"

definition read_struct :: "code list \<Rightarrow> binary_reader \<Rightarrow> (sval list \<times> binary_reader) result" where
  "read_struct fmt r =
     rbind (struct_unpack_from fmt (rdata r) (rpos r))
       (\<lambda>vs. Inr (vs, advance (int (calcsizes fmt)) r))"

definition read_struct_into ::
    "code list \<Rightarrow> bytes \<Rightarrow> int \<Rightarrow> binary_reader \<Rightarrow> (bytes \<times> binary_reader) result" where
  "read_struct_into fmt buffer offset r =
     (let sz = int (calcsizes fmt) in
      rbind (struct_unpack_from fmt (rdata r) (rpos r))
        (\<lambda>_. Inr (py_set_slice buffer offset (offset + sz)
                    (py_slice (rdata r) (rpos r) (rpos r + sz)),
                  advance sz r)))"

definition read_bytes :: "int \<Rightarrow> binary_reader \<Rightarrow> bytes \<times> binary_reader" where
  "read_bytes sz r = (py_slice (rdata r) (rpos r) (rpos r + sz), advance sz r)"

definition read_bytes_view :: "int \<Rightarrow> binary_reader \<Rightarrow> bytes \<times> binary_reader" where
  "read_bytes_view sz r = (py_slice (rdata r) (rpos r) (rpos r + sz), advance sz r)"

definition read_string :: "int \<Rightarrow> binary_reader \<Rightarrow> (string \<times> binary_reader) result" where
  "read_string sz r =
     (let data = py_slice (rdata r) (rpos r) (rpos r + sz); r' = advance sz r
      in rbind (utf8_decode data) (\<lambda>s. Inr (s, r')))"

text \<open>The scan of \<open>read_cstring\<close> stops at the first zero byte or at the end of the data.\<close>

function cstring_end :: "bytes \<Rightarrow> int \<Rightarrow> int result" where
  "cstring_end data pos =
     (if pos < int (length data)
      then rbind (py_index data pos) (\<lambda>b. if b \<noteq> 0 then cstring_end data (pos + 1) else Inr pos)
      else Inr pos)"
  by pat_completeness auto
termination
  by (relation "measure (\<lambda>(data, pos). nat (int (length data) - pos))") auto

declare cstring_end.simps [simp del]

definition read_cstring :: "binary_reader \<Rightarrow> (string \<times> binary_reader) result" where
  "read_cstring r =
     (let start = rpos r in
      rbind (cstring_end (rdata r) start)
        (\<lambda>e. rbind (utf8_decode (py_slice (rdata r) start e))
           (\<lambda>s. Inr (s, r\<lparr>rpos := e + 1\<rparr>))))"

definition reader_skip :: "int \<Rightarrow> binary_reader \<Rightarrow> binary_reader" where
  "reader_skip n r = r\<lparr>rpos := rpos r + n\<rparr>"

definition reader_seek :: "int \<Rightarrow> binary_reader \<Rightarrow> binary_reader" where
  "reader_seek p r = r\<lparr>rpos := p\<rparr>"

definition reader_tell :: "binary_reader \<Rightarrow> int" where
  "reader_tell r = rpos r"

definition remaining :: "binary_reader \<Rightarrow> int" where
  "remaining r = rsize r - rpos r"

definition at_end :: "binary_reader \<Rightarrow> bool" where
  "at_end r \<longleftrightarrow> rsize r \<le> rpos r"

definition align :: "int \<Rightarrow> binary_reader \<Rightarrow> binary_reader result" where
  "align alignment r =
     (if alignment = 0 then Inl ZeroDivisionError
      else let remainder = rpos r mod alignment
           in Inr (if remainder \<noteq> 0 then advance (alignment - remainder) r else r))"

definition slice_from :: "int \<Rightarrow> int \<Rightarrow> binary_reader \<Rightarrow> bytes" where
  "slice_from start sz r = py_slice (rdata r) start (start + sz)"

definition fork :: "int option \<Rightarrow> binary_reader \<Rightarrow> binary_reader" where
  "fork offset r = new_reader (rdata r) (case offset of Some o' \<Rightarrow> o' | None \<Rightarrow> rpos r)"

text \<open>The loop of \<open>read_array_with_offsets\<close>: the end of an item is the next offset, the end of
  the last one is the total size.\<close>

fun offset_slices :: "bytes \<Rightarrow> int \<Rightarrow> int list \<Rightarrow> int \<Rightarrow> bytes list" where
  "offset_slices data start [] total_size = []"
| "offset_slices data start [a] total_size = [py_slice data (start + a) (start + total_size)]"
| "offset_slices data start (a # b # os) total_size =
     py_slice data (start + a) (start + b) # offset_slices data start (b # os) total_size"

definition read_array_with_offsets ::
    "int list \<Rightarrow> int \<Rightarrow> binary_reader \<Rightarrow> bytes list \<times> binary_reader" where
  "read_array_with_offsets offsets total_size r =
     (offset_slices (rdata r) (rpos r) offsets total_size, advance total_size r)"

subsection \<open>BinaryWriter\<close>

text \<open>\<open>io.BytesIO\<close>: writing nothing changes nothing; otherwise a gap between the end of the
  contents and the position is filled with zeros and the bytes from the position on are
  overwritten.\<close>

record binary_writer =
  wbuf :: bytes
  wpos :: nat

definition new_writer :: binary_writer where
  "new_writer = \<lparr>wbuf = [], wpos = 0\<rparr>"

definition bio_write :: "bytes \<Rightarrow> binary_writer \<Rightarrow> binary_writer" where
  "bio_write bs w =
     (if bs = [] then w
      else let b = wbuf w @ replicate (wpos w - length (wbuf w)) 0
           in \<lparr>wbuf = take (wpos w) b @ bs @ drop (wpos w + length bs) b,
               wpos = wpos w + length bs\<rparr>)"

definition write_int :: "code \<Rightarrow> int \<Rightarrow> binary_writer \<Rightarrow> binary_writer result" where
  "write_int c v w = rbind (pack_int c v) (\<lambda>bs. Inr (bio_write bs w))"

definition write_uint8 :: "int \<Rightarrow> binary_writer \<Rightarrow> binary_writer result" where
  "write_uint8 = write_int (CU 1)"

definition write_int8 :: "int \<Rightarrow> binary_writer \<Rightarrow> binary_writer result" where
  "write_int8 = write_int (CS 1)"

definition write_uint16 :: "int \<Rightarrow> binary_writer \<Rightarrow> binary_writer result" where
  "write_uint16 = write_int (CU 2)"

definition write_int16 :: "int \<Rightarrow> binary_writer \<Rightarrow> binary_writer result" where
  "write_int16 = write_int (CS 2)"

definition write_uint32 :: "int \<Rightarrow> binary_writer \<Rightarrow> binary_writer result" where
  "write_uint32 = write_int (CU 4)"

definition write_int32 :: "int \<Rightarrow> binary_writer \<Rightarrow> binary_writer result" where
  "write_int32 = write_int (CS 4)"

definition write_uint64 :: "int \<Rightarrow> binary_writer \<Rightarrow> binary_writer result" where
  "write_uint64 = write_int (CU 8)"

definition write_int64 :: "int \<Rightarrow> binary_writer \<Rightarrow> binary_writer result" where
  "write_int64 = write_int (CS 8)"

definition write_double :: "64 word \<Rightarrow> binary_writer \<Rightarrow> binary_writer result" where
  "write_double v = write_int (CU 8) (uint v)"

definition write_ints :: "code \<Rightarrow> int list \<Rightarrow> binary_writer \<Rightarrow> binary_writer result" where
  "write_ints c vs w = rbind (pack_ints c vs) (\<lambda>bs. Inr (bio_write bs w))"

definition write_uint8_array :: "bytes + int list \<Rightarrow> binary_writer \<Rightarrow> binary_writer result" where
  "write_uint8_array arr w =
     (case arr of Inl bs \<Rightarrow> Inr (bio_write bs w) | Inr vs \<Rightarrow> write_ints (CU 1) vs w)"

definition write_int8_array :: "int list \<Rightarrow> binary_writer \<Rightarrow> binary_writer result" where
  "write_int8_array = write_ints (CS 1)"

definition write_uint16_array :: "int list \<Rightarrow> binary_writer \<Rightarrow> binary_writer result" where
  "write_uint16_array = write_ints (CU 2)"

definition write_int16_array :: "int list \<Rightarrow> binary_writer \<Rightarrow> binary_writer result" where
  "write_int16_array = write_ints (CS 2)"

definition write_uint32_array :: "int list \<Rightarrow> binary_writer \<Rightarrow> binary_writer result" where
  "write_uint32_array = write_ints (CU 4)"

definition write_int32_array :: "int list \<Rightarrow> binary_writer \<Rightarrow> binary_writer result" where
  "write_int32_array = write_ints (CS 4)"

definition write_uint64_array :: "int list \<Rightarrow> binary_writer \<Rightarrow> binary_writer result" where
  "write_uint64_array = write_ints (CU 8)"

definition write_int64_array :: "int list \<Rightarrow> binary_writer \<Rightarrow> binary_writer result" where
  "write_int64_array = write_ints (CS 8)"

definition write_double_array :: "64 word list \<Rightarrow> binary_writer \<Rightarrow> binary_writer result" where
  "write_double_array vs = write_ints (CU 8) (map uint vs)"

definition write_struct :: "code list \<Rightarrow> sval list \<Rightarrow> binary_writer \<Rightarrow> binary_writer result" where
  "write_struct fmt vs w = rbind (struct_pack fmt vs) (\<lambda>bs. Inr (bio_write bs w))"

definition write_bytes :: "bytes \<Rightarrow> binary_writer \<Rightarrow> binary_writer" where
  "write_bytes = bio_write"

definition write_string :: "string \<Rightarrow> binary_writer \<Rightarrow> binary_writer" where
  "write_string s = bio_write (utf8_encode s)"

definition write_cstring :: "string \<Rightarrow> binary_writer \<Rightarrow> binary_writer" where
  "write_cstring s w = bio_write [0] (bio_write (utf8_encode s) w)"

definition write_zeros :: "int \<Rightarrow> binary_writer \<Rightarrow> binary_writer" where
  "write_zeros n = bio_write (replicate (nat n) 0)"

definition write_padding :: "int \<Rightarrow> binary_writer \<Rightarrow> binary_writer result" where
  "write_padding alignment w =
     (if alignment = 0 then Inl ZeroDivisionError
      else let remainder = int (wpos w) mod alignment
           in Inr (if remainder \<noteq> 0 then write_zeros (alignment - remainder) w else w))"

definition writer_tell :: "binary_writer \<Rightarrow> nat" where
  "writer_tell w = wpos w"

definition writer_seek :: "int \<Rightarrow> binary_writer \<Rightarrow> binary_writer result" where
  "writer_seek p w = (if p < 0 then Inl ValueError else Inr (w\<lparr>wpos := nat p\<rparr>))"

definition getvalue :: "binary_writer \<Rightarrow> bytes" where
  "getvalue w = wbuf w"

definition getbuffer :: "binary_writer \<Rightarrow> bytes" where
  "getbuffer w = wbuf w"

definition writer_len :: "binary_writer \<Rightarrow> nat" where
  "writer_len w = wpos w"

definition reserve_uint8 :: "binary_writer \<Rightarrow> nat \<times> binary_writer" where
  "reserve_uint8 w = (wpos w, bio_write (replicate 1 0) w)"

definition reserve_uint16 :: "binary_writer \<Rightarrow> nat \<times> binary_writer" where
  "reserve_uint16 w = (wpos w, bio_write (replicate 2 0) w)"

definition reserve_uint32 :: "binary_writer \<Rightarrow> nat \<times> binary_writer" where
  "reserve_uint32 w = (wpos w, bio_write (replicate 4 0) w)"

definition reserve_uint64 :: "binary_writer \<Rightarrow> nat \<times> binary_writer" where
  "reserve_uint64 w = (wpos w, bio_write (replicate 8 0) w)"

definition fill_int :: "code \<Rightarrow> nat \<Rightarrow> int \<Rightarrow> binary_writer \<Rightarrow> binary_writer result" where
  "fill_int c pos v w =
     (let current = wpos w in
      rbind (write_int c v (w\<lparr>wpos := pos\<rparr>)) (\<lambda>w'. Inr (w'\<lparr>wpos := current\<rparr>)))"

definition fill_uint8 :: "nat \<Rightarrow> int \<Rightarrow> binary_writer \<Rightarrow> binary_writer result" where
  "fill_uint8 = fill_int (CU 1)"

definition fill_uint16 :: "nat \<Rightarrow> int \<Rightarrow> binary_writer \<Rightarrow> binary_writer result" where
  "fill_uint16 = fill_int (CU 2)"

definition fill_uint32 :: "nat \<Rightarrow> int \<Rightarrow> binary_writer \<Rightarrow> binary_writer result" where
  "fill_uint32 = fill_int (CU 4)"

definition fill_uint64 :: "nat \<Rightarrow> int \<Rightarrow> binary_writer \<Rightarrow> binary_writer result" where
  "fill_uint64 = fill_int (CU 8)"

fun item_offsets :: "int \<Rightarrow> bytes list \<Rightarrow> int list \<times> int" where
  "item_offsets offset [] = ([], offset)"
| "item_offsets offset (item # items) =
     (let (os, total_size) = item_offsets (offset + int (length item)) items
      in (offset # os, total_size))"

definition write_with_offsets ::
    "bytes list \<Rightarrow> binary_writer \<Rightarrow> ((int list \<times> int) \<times> binary_writer) result" where
  "write_with_offsets items w =
     (let (offsets, total_size) = item_offsets 0 items in
      rbind (write_uint32_array offsets w)
        (\<lambda>w'. Inr ((offsets, total_size), fold bio_write items w')))"

subsection \<open>Appending and reading back\<close>

definition appending :: "binary_writer \<Rightarrow> bool" where
  "appending w \<longleftrightarrow> wpos w = length (wbuf w)"

definition reads_at :: "binary_reader \<Rightarrow> bytes \<Rightarrow> bool" where
  "reads_at r bs \<longleftrightarrow>
     (\<exists>pre post. rdata r = pre @ bs @ post \<and> rpos r = int (length pre))"

lemma appending_new [simp]: "appending new_writer"
  by (simp add: appending_def new_writer_def)

lemma bio_write_appending:
  "appending w \<Longrightarrow> bio_write bs w = \<lparr>wbuf = wbuf w @ bs, wpos = wpos w + length bs\<rparr>"
  by (auto simp: appending_def bio_write_def Let_def)

lemma appending_bio_write [simp]: "appending w \<Longrightarrow> appending (bio_write bs w)"
  by (simp add: bio_write_appending) (simp add: appending_def)

lemma bio_write_append:
  "appending w \<Longrightarrow> bio_write bs' (bio_write bs w) = bio_write (bs @ bs') w"
  by (simp add: bio_write_appending [of w]) (simp add: appending_def bio_write_appending)

lemma reads_at_Nil [simp]: "0 \<le> rpos r \<Longrightarrow> rpos r \<le> rsize r \<Longrightarrow> reads_at r []"
  unfolding reads_at_def rsize_def
  by (rule exI [of _ "take (nat (rpos r)) (rdata r)"], rule exI [of _ "drop (nat (rpos r)) (rdata r)"])
    (auto simp: min_def)

lemma reads_at_head: "reads_at r (bs @ bs') \<Longrightarrow> reads_at r bs"
  unfolding reads_at_def by (metis append.assoc)

lemma reads_at_tail: "reads_at r (bs @ bs') \<Longrightarrow> reads_at (advance (int (length bs)) r) bs'"
proof -
  assume "reads_at r (bs @ bs')"
  then obtain pre post where "rdata r = pre @ (bs @ bs') @ post" "rpos r = int (length pre)"
    by (auto simp: reads_at_def)
  then show ?thesis
    unfolding reads_at_def advance_def by (intro exI [of _ "pre @ bs"] exI [of _ post]) simp
qed

lemma reads_at_rest: "reads_at r bs \<Longrightarrow> int (length bs) \<le> rsize r - rpos r"
  by (auto simp: reads_at_def rsize_def)

lemma advance_simps [simp]:
  "advance 0 r = r" "advance a (advance b r) = advance (b + a) r"
  "rdata (advance a r) = rdata r" "rpos (advance a r) = rpos r + a"
  by (simp_all add: advance_def)

lemma read_int_reads:
  "reads_at r bs \<Longrightarrow> length bs = calcsize c \<Longrightarrow>
   read_int c r = Inr (decode_int c bs, advance (int (calcsize c)) r)"
  by (auto simp: reads_at_def read_int_def unpack_int_from_def)

lemma read_ints_reads:
  "reads_at r bs \<Longrightarrow> length bs = n * calcsize c \<Longrightarrow>
   read_ints c (int n) r = Inr (decode_ints c n bs, advance (int (length bs)) r)"
  by (auto simp: reads_at_def read_ints_def unpack_ints_from_def)

lemma read_bytes_reads:
  "reads_at r bs \<Longrightarrow> read_bytes (int (length bs)) r = (bs, advance (int (length bs)) r)"
  by (auto simp: reads_at_def read_bytes_def)

lemma read_bytes_view_eq [simp]: "read_bytes_view = read_bytes"
  by (simp add: fun_eq_iff read_bytes_def read_bytes_view_def)

lemma read_struct_reads:
  "list_all2 faithful cs vs \<Longrightarrow> struct_pack cs vs = Inr bs \<Longrightarrow> reads_at r bs \<Longrightarrow>
   read_struct cs r = Inr (vs, advance (int (calcsizes cs)) r)"
  using struct_unpack_pack [of cs vs bs]
  by (auto simp: reads_at_def read_struct_def struct_unpack_from_def struct_unpack_def)

lemma read_uint8_reads:
  "reads_at r [b] \<Longrightarrow> read_uint8 r = Inr (uint b, advance 1 r)"
  by (auto simp: reads_at_def read_uint8_def)

lemma in_range_pack: "in_range c v \<Longrightarrow> pack_int c v = Inr (le_bytes (calcsize c) v)"
  by (simp add: pack_int_def)

lemma decode_le_bytes: "in_range c v \<Longrightarrow> decode_int c (le_bytes (calcsize c) v) = v"
  using decode_pack_int in_range_pack by blast

subsection \<open>The contract of a write method and its read method\<close>

locale field_codec =
  fixes wr :: "'v \<Rightarrow> binary_writer \<Rightarrow> binary_writer result"
    and rd :: "binary_reader \<Rightarrow> ('v \<times> binary_reader) result"
    and enc :: "'v \<Rightarrow> bytes"
    and ok :: "'v \<Rightarrow> bool"
  assumes wr_ok: "ok v \<Longrightarrow> wr v w = Inr (bio_write (enc v) w)"
    and wr_bad: "\<not> ok v \<Longrightarrow> wr v w = Inl StructError"
    and rd_ok: "ok v \<Longrightarrow> reads_at r (enc v) \<Longrightarrow> rd r = Inr (v, advance (int (length (enc v))) r)"
begin

lemma wr_iff: "wr v w = Inr w' \<longleftrightarrow> ok v \<and> w' = bio_write (enc v) w"
  using wr_ok wr_bad by (cases "ok v") auto

lemma wr_all: "appending w \<Longrightarrow> list_all ok vs \<Longrightarrow> rfold wr vs w = Inr (bio_write (concat (map enc vs)) w)"
proof (induction vs arbitrary: w)
  case Nil
  then show ?case by (simp add: bio_write_def)
next
  case (Cons v vs)
  then show ?case by (simp add: wr_ok bio_write_append)
qed

end

text \<open>\<open>read_times\<close> repeats a read method, as the loops over a counted sequence do.\<close>

fun read_times :: "(binary_reader \<Rightarrow> ('v \<times> binary_reader) result) \<Rightarrow> nat \<Rightarrow> binary_reader
    \<Rightarrow> ('v list \<times> binary_reader) result" where
  "read_times rd 0 r = Inr ([], r)"
| "read_times rd (Suc n) r =
     rbind (rd r) (\<lambda>(v, r'). rbind (read_times rd n r') (\<lambda>(vs, r''). Inr (v # vs, r'')))"

context field_codec
begin

lemma rd_all:
  "list_all ok vs \<Longrightarrow> reads_at r (concat (map enc vs)) \<Longrightarrow>
   read_times rd (length vs) r = Inr (vs, advance (int (length (concat (map enc vs)))) r)"
proof (induction vs arbitrary: r)
  case (Cons v vs)
  then have ok: "ok v" "list_all ok vs" by auto
  from Cons.prems(2) have h: "reads_at r (enc v)"
    and t: "reads_at (advance (int (length (enc v))) r) (concat (map enc vs))"
    by (auto intro: reads_at_head reads_at_tail)
  show ?case using Cons.IH [OF ok(2) t] rd_ok [OF ok(1) h] by simp
qed simp

text \<open>What a sequence of writes appends, the same number of reads returns.\<close>

lemma seq_roundtrip:
  assumes "appending w" "list_all ok vs"
  shows "\<exists>w' r'. rfold wr vs w = Inr w' \<and>
    read_times rd (length vs) (new_reader (wbuf w') (int (wpos w))) = Inr (vs, r') \<and> at_end r'"
proof -
  let ?bs = "concat (map enc vs)"
  let ?r = "new_reader (wbuf w @ ?bs) (int (wpos w))"
  have "reads_at ?r ?bs"
    using assms(1) unfolding reads_at_def new_reader_def appending_def
    by (intro exI [of _ "wbuf w"] exI [of _ "[]"]) simp
  with rd_all [OF assms(2)] assms wr_all show ?thesis
    by (auto simp: bio_write_appending new_reader_def at_end_def rsize_def appending_def)
qed

end

lemma int_field_codec:
  "field_codec (write_int c) (read_int c) (le_bytes (calcsize c)) (in_range c)"
  by unfold_locales
    (auto simp: write_int_def pack_int_def read_int_reads decode_le_bytes)

lemma uint_byte: "in_range (CU 1) v \<Longrightarrow> uint (word_of_int v :: byte) = v"
  by (simp add: uint_word_of_int)

interpretation u8: field_codec write_uint8 read_uint8 "le_bytes 1" "in_range (CU 1)"
  by unfold_locales
    (auto simp: write_uint8_def write_int_def pack_int_def read_uint8_reads uint_word_of_int)

interpretation i8: field_codec write_int8 read_int8 "le_bytes 1" "in_range (CS 1)"
  using int_field_codec [of "CS 1"] by (simp add: write_int8_def read_int8_def)

interpretation u16: field_codec write_uint16 read_uint16 "le_bytes 2" "in_range (CU 2)"
  using int_field_codec [of "CU 2"] by (simp add: write_uint16_def read_uint16_def)

interpretation i16: field_codec write_int16 read_int16 "le_bytes 2" "in_range (CS 2)"
  using int_field_codec [of "CS 2"] by (simp add: write_int16_def read_int16_def)

interpretation u32: field_codec write_uint32 read_uint32 "le_bytes 4" "in_range (CU 4)"
  using int_field_codec [of "CU 4"] by (simp add: write_uint32_def read_uint32_def)

interpretation i32: field_codec write_int32 read_int32 "le_bytes 4" "in_range (CS 4)"
  using int_field_codec [of "CS 4"] by (simp add: write_int32_def read_int32_def)

interpretation u64: field_codec write_uint64 read_uint64 "le_bytes 8" "in_range (CU 8)"
  using int_field_codec [of "CU 8"] by (simp add: write_uint64_def read_uint64_def)

interpretation i64: field_codec write_int64 read_int64 "le_bytes 8" "in_range (CS 8)"
  using int_field_codec [of "CS 8"] by (simp add: write_int64_def read_int64_def)

lemma in_range_uint64: "in_range (CU 8) (uint (v :: 64 word))"
  using uint_bounded [of v] by simp

interpretation f64: field_codec write_double read_double "\<lambda>v. le_bytes 8 (uint v)" "\<lambda>_. True"
proof unfold_locales
  fix v :: "64 word" and w r
  show "write_double v w = Inr (bio_write (le_bytes 8 (uint v)) w)"
    using u64.wr_ok [OF in_range_uint64] by (simp add: write_double_def write_uint64_def)
  assume "reads_at r (le_bytes 8 (uint v))"
  then show "read_double r = Inr (v, advance (int (length (le_bytes 8 (uint v)))) r)"
    using u64.rd_ok [OF in_range_uint64, of r v] by (simp add: read_double_def read_uint64_def)
qed simp

lemma cstring_end_spec:
  "0 \<notin> set bs \<Longrightarrow> cstring_end (pre @ bs @ 0 # post) (int (length pre)) = Inr (int (length pre + length bs))"
proof (induction bs arbitrary: pre)
  case Nil
  show ?case by (simp add: cstring_end.simps)
next
  case (Cons b bs)
  then have "b \<noteq> 0" by auto
  then have "cstring_end (pre @ (b # bs) @ 0 # post) (int (length pre)) =
        cstring_end ((pre @ [b]) @ bs @ 0 # post) (int (length (pre @ [b])))"
    by (subst cstring_end.simps) (simp add: add.commute)
  also have "\<dots> = Inr (int (length (pre @ [b]) + length bs))"
    using Cons.prems by (intro Cons.IH) auto
  finally show ?case by simp
qed

lemma utf8_char_zero: "0 \<in> set (utf8_char c) \<longleftrightarrow> c = CHR 0x00"
proof (cases "(of_char c :: nat) < 128")
  case True
  define b :: byte where "b = of_nat (of_char c)"
  have "unat b = of_char c" unfolding b_def unat_of_nat using True by simp
  then have "b = 0 \<longleftrightarrow> of_char c = (0::nat)" by (metis unat_0 unat_eq_zero)
  also have "\<dots> \<longleftrightarrow> c = CHR 0x00"
    using of_char_eq_iff [where 'a = nat, of c "CHR 0x00"] by simp
  finally have "0 = b \<longleftrightarrow> c = CHR 0x00" by auto
  moreover have "utf8_char c = [b]" using True by (simp add: b_def Let_def)
  ultimately show ?thesis by (simp del: utf8_char.simps)
next
  case False
  define n where "n = (of_char c :: nat)"
  have n: "n div 64 < 4" using of_char_less [of c] by (simp add: n_def less_mult_imp_div_less)
  define b1 :: byte where "b1 = of_nat (192 + n div 64)"
  define b2 :: byte where "b2 = of_nat (128 + n mod 64)"
  have "unat b1 = 192 + n div 64" unfolding b1_def unat_of_nat using n by simp
  moreover have "n mod 64 < 64" by simp
  then have "unat b2 = 128 + n mod 64" unfolding b2_def unat_of_nat by simp
  ultimately have "b1 \<noteq> 0" "b2 \<noteq> 0" by (metis add_is_0 unat_0 zero_neq_numeral)+
  moreover have "utf8_char c = [b1, b2]" using False by (simp add: n_def Let_def b1_def b2_def)
  moreover have "c \<noteq> CHR 0x00" using False by auto
  ultimately show ?thesis by (simp del: utf8_char.simps)
qed

lemma utf8_encode_zero: "0 \<in> set (utf8_encode s) \<longleftrightarrow> CHR 0x00 \<in> set s"
  by (auto simp: utf8_encode_def utf8_char_zero simp del: utf8_char.simps)

text \<open>\<open>read_cstring\<close> and \<open>write_cstring\<close> agree on strings without a NUL; \<open>cstring_ok\<close> is the
  domain, and the writer itself never refuses a string, so the contract is stated on it.\<close>

definition cstring_ok :: "string \<Rightarrow> bool" where
  "cstring_ok s \<longleftrightarrow> CHR 0x00 \<notin> set s"

lemma read_cstring_reads:
  assumes "cstring_ok s" "reads_at r (utf8_encode s @ [0])"
  shows "read_cstring r = Inr (s, advance (int (length (utf8_encode s)) + 1) r)"
proof -
  from assms(2) obtain pre post where r: "rdata r = pre @ utf8_encode s @ 0 # post"
    "rpos r = int (length pre)" by (auto simp: reads_at_def)
  have "cstring_end (rdata r) (rpos r) = Inr (int (length pre + length (utf8_encode s)))"
    unfolding r using assms(1) by (intro cstring_end_spec) (simp add: utf8_encode_zero cstring_ok_def)
  moreover have "py_slice (rdata r) (rpos r) (int (length pre + length (utf8_encode s))) = utf8_encode s"
    by (simp add: r)
  ultimately show ?thesis by (simp add: read_cstring_def advance_def r)
qed

subsection \<open>Mixed sequences of fields\<close>

text \<open>A field is one call of a write method with its argument; its shape is the matching read.
  \<open>write_field\<close> and \<open>read_field\<close> dispatch to the methods.\<close>

datatype field =
    U8 int | I8 int | U16 int | I16 int | U32 int | I32 int | U64 int | I64 int
  | F64 "64 word" | Raw bytes | CStr string | U32s "int list"

datatype shape =
    SU8 | SI8 | SU16 | SI16 | SU32 | SI32 | SU64 | SI64 | SF64 | SRaw nat | SCStr | SU32s nat

fun shape_of :: "field \<Rightarrow> shape" where
  "shape_of (U8 _) = SU8" | "shape_of (I8 _) = SI8" | "shape_of (U16 _) = SU16"
| "shape_of (I16 _) = SI16" | "shape_of (U32 _) = SU32" | "shape_of (I32 _) = SI32"
| "shape_of (U64 _) = SU64" | "shape_of (I64 _) = SI64" | "shape_of (F64 _) = SF64"
| "shape_of (Raw bs) = SRaw (length bs)" | "shape_of (CStr _) = SCStr"
| "shape_of (U32s vs) = SU32s (length vs)"

fun write_field :: "field \<Rightarrow> binary_writer \<Rightarrow> binary_writer result" where
  "write_field (U8 v) w = write_uint8 v w" | "write_field (I8 v) w = write_int8 v w"
| "write_field (U16 v) w = write_uint16 v w" | "write_field (I16 v) w = write_int16 v w"
| "write_field (U32 v) w = write_uint32 v w" | "write_field (I32 v) w = write_int32 v w"
| "write_field (U64 v) w = write_uint64 v w" | "write_field (I64 v) w = write_int64 v w"
| "write_field (F64 v) w = write_double v w" | "write_field (Raw bs) w = Inr (write_bytes bs w)"
| "write_field (CStr s) w = Inr (write_cstring s w)"
| "write_field (U32s vs) w = write_uint32_array vs w"

definition read_as :: "('v \<Rightarrow> field) \<Rightarrow> ('v \<times> binary_reader) result \<Rightarrow> (field \<times> binary_reader) result" where
  "read_as f m = rbind m (\<lambda>(v, r). Inr (f v, r))"

fun read_field :: "shape \<Rightarrow> binary_reader \<Rightarrow> (field \<times> binary_reader) result" where
  "read_field SU8 r = read_as U8 (read_uint8 r)" | "read_field SI8 r = read_as I8 (read_int8 r)"
| "read_field SU16 r = read_as U16 (read_uint16 r)" | "read_field SI16 r = read_as I16 (read_int16 r)"
| "read_field SU32 r = read_as U32 (read_uint32 r)" | "read_field SI32 r = read_as I32 (read_int32 r)"
| "read_field SU64 r = read_as U64 (read_uint64 r)" | "read_field SI64 r = read_as I64 (read_int64 r)"
| "read_field SF64 r = read_as F64 (read_double r)"
| "read_field (SRaw n) r = read_as Raw (Inr (read_bytes (int n) r))"
| "read_field SCStr r = read_as CStr (read_cstring r)"
| "read_field (SU32s n) r = read_as U32s (read_uint32_array (int n) r)"

fun field_ok :: "field \<Rightarrow> bool" where
  "field_ok (U8 v) = in_range (CU 1) v" | "field_ok (I8 v) = in_range (CS 1) v"
| "field_ok (U16 v) = in_range (CU 2) v" | "field_ok (I16 v) = in_range (CS 2) v"
| "field_ok (U32 v) = in_range (CU 4) v" | "field_ok (I32 v) = in_range (CS 4) v"
| "field_ok (U64 v) = in_range (CU 8) v" | "field_ok (I64 v) = in_range (CS 8) v"
| "field_ok (F64 v) = True" | "field_ok (Raw bs) = True"
| "field_ok (CStr s) = cstring_ok s"
| "field_ok (U32s vs) = list_all (in_range (CU 4)) vs"

fun field_enc :: "field \<Rightarrow> bytes" where
  "field_enc (U8 v) = le_bytes 1 v" | "field_enc (I8 v) = le_bytes 1 v"
| "field_enc (U16 v) = le_bytes 2 v" | "field_enc (I16 v) = le_bytes 2 v"
| "field_enc (U32 v) = le_bytes 4 v" | "field_enc (I32 v) = le_bytes 4 v"
| "field_enc (U64 v) = le_bytes 8 v" | "field_enc (I64 v) = le_bytes 8 v"
| "field_enc (F64 v) = le_bytes 8 (uint v)" | "field_enc (Raw bs) = bs"
| "field_enc (CStr s) = utf8_encode s @ [0]"
| "field_enc (U32s vs) = concat (map (le_bytes 4) vs)"

lemma pack_ints_ok: "list_all (in_range c) vs \<Longrightarrow> pack_ints c vs = Inr (concat (map (le_bytes (calcsize c)) vs))"
  by (subst pack_ints_def, subst rmap_Inr [where g = "le_bytes (calcsize c)"])
    (auto simp: list_all_iff in_range_pack)

lemma decode_ints_le_bytes:
  "list_all (in_range c) vs \<Longrightarrow>
   decode_ints c (length vs) (concat (map (le_bytes (calcsize c)) vs) @ rest) = vs"
  by (induction vs) (simp_all add: decode_le_bytes)

lemma length_concat_le_bytes: "length (concat (map (le_bytes n) vs)) = length vs * n"
  by (induction vs) auto

lemma write_field_ok: "field_ok f \<Longrightarrow> appending w \<Longrightarrow> write_field f w = Inr (bio_write (field_enc f) w)"
  by (cases f)
    (simp_all add: u8.wr_ok i8.wr_ok u16.wr_ok i16.wr_ok u32.wr_ok i32.wr_ok u64.wr_ok i64.wr_ok
      f64.wr_ok write_bytes_def write_cstring_def bio_write_append write_uint32_array_def
      write_ints_def pack_ints_ok del: in_range.simps)

lemma read_uint32_array_reads:
  assumes "list_all (in_range (CU 4)) vs" "reads_at r (concat (map (le_bytes 4) vs))"
  shows "read_uint32_array (int (length vs)) r
           = Inr (vs, advance (int (length (concat (map (le_bytes 4) vs)))) r)"
  using read_ints_reads [OF assms(2), of "length vs" "CU 4"]
    decode_ints_le_bytes [OF assms(1), of "[]"]
  by (simp add: read_uint32_array_def length_concat_le_bytes)

lemma read_field_ok:
  "field_ok f \<Longrightarrow> reads_at r (field_enc f) \<Longrightarrow>
   read_field (shape_of f) r = Inr (f, advance (int (length (field_enc f))) r)"
  by (cases f)
    (simp_all add: read_as_def u8.rd_ok i8.rd_ok u16.rd_ok i16.rd_ok u32.rd_ok i32.rd_ok u64.rd_ok
      i64.rd_ok f64.rd_ok read_bytes_reads read_cstring_reads read_uint32_array_reads
      del: in_range.simps length_concat)

fun read_fields :: "shape list \<Rightarrow> binary_reader \<Rightarrow> (field list \<times> binary_reader) result" where
  "read_fields [] r = Inr ([], r)"
| "read_fields (s # ss) r =
     rbind (read_field s r) (\<lambda>(f, r'). rbind (read_fields ss r') (\<lambda>(fs, r''). Inr (f # fs, r'')))"

lemma write_fields_ok:
  "appending w \<Longrightarrow> list_all field_ok fs \<Longrightarrow>
   rfold write_field fs w = Inr (bio_write (concat (map field_enc fs)) w)"
proof (induction fs arbitrary: w)
  case (Cons f fs)
  then show ?case by (simp add: write_field_ok bio_write_append)
qed (simp add: bio_write_def)

lemma read_fields_ok:
  "list_all field_ok fs \<Longrightarrow> reads_at r (concat (map field_enc fs)) \<Longrightarrow>
   read_fields (map shape_of fs) r = Inr (fs, advance (int (length (concat (map field_enc fs)))) r)"
proof (induction fs arbitrary: r)
  case (Cons f fs)
  then have ok: "field_ok f" "list_all field_ok fs" by auto
  from Cons.prems(2) have h: "reads_at r (field_enc f)"
    and t: "reads_at (advance (int (length (field_enc f))) r) (concat (map field_enc fs))"
    by (auto intro: reads_at_head reads_at_tail)
  show ?case using Cons.IH [OF ok(2) t] read_field_ok [OF ok(1) h] by simp
qed simp

lemma item_offsets_length: "length (fst (item_offsets k items)) = length items"
  by (induction items arbitrary: k) (auto simp: split_beta Let_def)

lemma item_offsets_total: "snd (item_offsets k items) = k + int (length (concat items))"
  by (induction items arbitrary: k) (auto simp: split_beta Let_def)

lemma item_offsets_range:
  "0 \<le> k \<Longrightarrow> x \<in> set (fst (item_offsets k items)) \<Longrightarrow> 0 \<le> x \<and> x \<le> k + int (length (concat items))"
proof (induction items arbitrary: k)
  case (Cons item items)
  from Cons.prems(2) consider "x = k" | "x \<in> set (fst (item_offsets (k + int (length item)) items))"
    by (auto simp: split_beta Let_def)
  then show ?case
  proof cases
    case 2
    with Cons.IH [of "k + int (length item)"] Cons.prems(1) show ?thesis by simp
  qed (use Cons.prems(1) in simp)
qed simp

lemma offset_slices_item_offsets:
  "offset_slices (pre @ concat (done @ items) @ post) (int (length pre))
     (fst (item_offsets (int (length (concat done))) items))
     (int (length (concat (done @ items)))) = items"
proof (induction items arbitrary: "done")
  case (Cons item items)
  let ?k = "int (length (concat done))"
  have IH: "offset_slices (pre @ concat ((done @ [item]) @ items) @ post) (int (length pre))
     (fst (item_offsets (int (length (concat (done @ [item])))) items))
     (int (length (concat ((done @ [item]) @ items)))) = items"
    by (rule Cons.IH)
  have k: "int (length (concat (done @ [item]))) = ?k + int (length item)" by simp
  have sl: "py_slice (pre @ concat (done @ item # items) @ post) (int (length pre) + ?k)
      (int (length pre) + (?k + int (length item))) = item"
    using py_slice_nat [of "pre @ concat (done @ item # items) @ post"
        "length pre + length (concat done)" "length item"]
    by (simp add: add.assoc)
  show ?case
  proof (cases items)
    case Nil
    with sl show ?thesis by simp
  next
    case (Cons i' is')
    then obtain os where os: "fst (item_offsets (?k + int (length item)) items) =
        (?k + int (length item)) # os"
      by (simp add: split_beta Let_def)
    with IH k sl show ?thesis by (simp add: split_beta Let_def)
  qed
qed simp

lemma fold_bio_write: "appending w \<Longrightarrow> fold bio_write items w = bio_write (concat items) w"
  by (induction items arbitrary: w) (auto simp: bio_write_append bio_write_def [of "[]"])

subsection \<open>Properties\<close>

text \<open>C29: whatever mix of fields is appended with the write methods of \<open>BinaryWriter\<close> (integers
  of every width and sign, doubles, raw bytes, NUL-terminated strings, arrays), the matching
  sequence of read methods of \<open>BinaryReader\<close>, started where the writing started, returns the
  same fields in order and ends exactly at the end of the data.\<close>

theorem fields_roundtrip:
  assumes "appending w" and "list_all field_ok fs"
  shows "\<exists>w' r'. rfold write_field fs w = Inr w' \<and>
    read_fields (map shape_of fs) (new_reader (getvalue w') (int (writer_tell w))) = Inr (fs, r') \<and>
    at_end r' \<and> reader_tell r' = int (writer_tell w')"
proof -
  let ?bs = "concat (map field_enc fs)"
  have "reads_at (new_reader (wbuf w @ ?bs) (int (wpos w))) ?bs"
    using assms(1) unfolding reads_at_def new_reader_def appending_def
    by (intro exI [of _ "wbuf w"] exI [of _ "[]"]) simp
  with read_fields_ok [OF assms(2)] write_fields_ok [OF assms] assms(1) show ?thesis
    by (auto simp: bio_write_appending new_reader_def at_end_def rsize_def appending_def
        getvalue_def writer_tell_def reader_tell_def)
qed

theorem fields_roundtrip_witness:
  "\<exists>w' r'. rfold write_field [I64 (-5), U32s [7, 9], CStr ''ab'', Raw [1, 2, 3]] new_writer = Inr w' \<and>
    read_fields [SI64, SU32s 2, SCStr, SRaw 3] (new_reader (getvalue w') 0) =
      Inr ([I64 (-5), U32s [7, 9], CStr ''ab'', Raw [1, 2, 3]], r') \<and>
    at_end r' \<and> reader_tell r' = int (writer_tell w')"
proof -
  have ok: "list_all field_ok [I64 (-5), U32s [7, 9], CStr ''ab'', Raw [1, 2, 3]]"
    by (simp add: cstring_ok_def)
  show ?thesis
    using fields_roundtrip [OF appending_new ok] by (simp add: writer_tell_def new_writer_def)
qed

text \<open>An integer write method raises \<open>struct.error\<close> exactly when its argument does not fit
  the width (and then nothing is written), for the two methods the replay format uses most.\<close>

lemma write_int32_range:
  "(write_int32 v w = Inl StructError \<longleftrightarrow> v < - (2 ^ 31) \<or> 2 ^ 31 \<le> v) \<and>
   (write_uint32 v w = Inl StructError \<longleftrightarrow> v < 0 \<or> 2 ^ 32 \<le> v)"
  by (auto simp: write_int32_def write_uint32_def write_int_def pack_int_def)

text \<open>a table of variable-length items written with \<open>write_with_offsets\<close> is read back item
  by item from its offsets, as long as the offsets fit 32 bits.\<close>

lemma offsets_roundtrip:
  assumes "appending w" and "int (length (concat items)) < 2 ^ 32"
  shows "\<exists>offsets w' r' r''.
    write_with_offsets items w = Inr ((offsets, int (length (concat items))), w') \<and>
    read_uint32_array (int (length items)) (new_reader (getvalue w') (int (writer_tell w)))
      = Inr (offsets, r') \<and>
    read_array_with_offsets offsets (int (length (concat items))) r' = (items, r'') \<and> at_end r''"
proof -
  let ?n = "int (length (concat items))"
  obtain os where io: "item_offsets 0 items = (os, ?n)"
    using item_offsets_total [of 0 items] by (metis add_0 prod.collapse)
  have "x \<in> set os \<Longrightarrow> in_range (CU 4) x" for x
    using item_offsets_range [of 0 x items] assms(2) io by auto
  then have ok: "list_all (in_range (CU 4)) os" by (simp add: list_all_iff)
  let ?ob = "concat (map (le_bytes 4) os)"
  have wr: "write_with_offsets items w = Inr ((os, ?n), bio_write (?ob @ concat items) w)"
    using assms(1) ok pack_ints_ok [OF ok]
    by (simp add: write_with_offsets_def io write_uint32_array_def write_ints_def fold_bio_write
        bio_write_append del: in_range.simps)
  let ?r = "new_reader (wbuf w @ ?ob @ concat items) (int (wpos w))"
  have "reads_at ?r ?ob"
    using assms(1) unfolding reads_at_def new_reader_def appending_def
    by (intro exI [of _ "wbuf w"] exI [of _ "concat items"]) simp
  from read_uint32_array_reads [OF ok this]
  have rd: "read_uint32_array (int (length items)) ?r = Inr (os, advance (int (length ?ob)) ?r)"
    using item_offsets_length [of 0 items] io by simp
  have sl: "offset_slices ((wbuf w @ ?ob) @ concat ([] @ items) @ []) (int (length (wbuf w @ ?ob)))
      os (int (length (concat ([] @ items)))) = items"
    using offset_slices_item_offsets [of "wbuf w @ ?ob" "[]" items "[]"] io by simp
  show ?thesis
    using wr rd sl assms(1)
    by (auto simp: bio_write_appending getvalue_def writer_tell_def read_array_with_offsets_def
        at_end_def rsize_def appending_def new_reader_def advance_def add.commute)
qed

lemma offsets_roundtrip_witness:
  "\<exists>offsets w' r' r''.
    write_with_offsets [[1, 2], [], [3]] new_writer = Inr ((offsets, 3), w') \<and>
    read_uint32_array 3 (new_reader (getvalue w') 0) = Inr (offsets, r') \<and>
    read_array_with_offsets offsets 3 r' = ([[1, 2], [], [3]], r'') \<and> at_end r''"
  using offsets_roundtrip [OF appending_new, of "[[1, 2], [], [3]]"]
  by (simp add: writer_tell_def new_writer_def)

text \<open>Filling a reserved 32-bit slot writes the four bytes of the value there and nothing
  else: the bytes before and after and the write position are as they were.\<close>

lemma fill_uint32_frame:
  assumes "pos + 4 \<le> length (getvalue w)" and "0 \<le> v" and "v < 2 ^ 32"
  shows "\<exists>w'. fill_uint32 pos v w = Inr w' \<and> writer_tell w' = writer_tell w \<and>
    take pos (getvalue w') = take pos (getvalue w) \<and>
    drop (pos + 4) (getvalue w') = drop (pos + 4) (getvalue w) \<and>
    unpack_int_from (CU 4) (getvalue w') (int pos) = Inr v"
proof -
  let ?bs = "le_bytes 4 v"
  have "fill_uint32 pos v w =
      Inr (w\<lparr>wbuf := take pos (wbuf w) @ ?bs @ drop (pos + 4) (wbuf w)\<rparr>)"
    using assms by (simp add: fill_uint32_def fill_int_def write_int_def pack_int_def bio_write_def
        getvalue_def Let_def) (cases w, simp add: numeral_eq_Suc)
  moreover have "buffer_at 4 (take pos (wbuf w) @ ?bs @ drop (pos + 4) (wbuf w)) (int pos) = Inr ?bs"
    using buffer_at_append [of ?bs 4 "take pos (wbuf w)" "drop (pos + 4) (wbuf w)"] assms(1)
    by (simp add: getvalue_def)
  ultimately show ?thesis
    using assms by (simp add: getvalue_def writer_tell_def unpack_int_from_def le_uint_roundtrip)
qed

lemma fill_uint32_frame_witness:
  "\<exists>w'. fill_uint32 1 258 \<lparr>wbuf = [9, 0, 0, 0, 0, 8], wpos = 6\<rparr> = Inr w' \<and>
    writer_tell w' = 6 \<and> take 1 (getvalue w') = [9] \<and> drop 5 (getvalue w') = [8] \<and>
    unpack_int_from (CU 4) (getvalue w') 1 = Inr 258"
  using fill_uint32_frame [of 1 "\<lparr>wbuf = [9, 0, 0, 0, 0, 8], wpos = 6\<rparr>" 258]
  by (simp add: getvalue_def writer_tell_def)

end
