(* ===== verification/Metadata.thy ===== *)
theory Metadata
  imports Binary
begin

text \<open>
  The fixed-size headers of a replay: \<open>SegmentMetadata\<close> (\<open>replay/segment_metadata.py\<close>) at the
  start of every segment and \<open>TimelineMetadata\<close> (\<open>replay/timeline_metadata.py\<close>) at the start of
  the file.  Both are packed with one \<open>struct\<close> format; the segment header carries the map
  identifier as a 40-byte UTF-8 field padded with NULs.
\<close>

subsection \<open>SegmentMetadata\<close>

record segment_metadata =
  start_time :: int
  last_time :: int
  max_patches :: int
  current_patches :: int
  patch_index_start :: int
  is_fragmented :: bool
  map_id :: string

definition segment_format :: "code list" where
  "segment_format = [CS 4, CS 4, CS 4, CS 4, CS 4, CBool, CBytes 40]"

definition segment_metadata_size :: nat where
  "segment_metadata_size = calcsizes segment_format"

definition ljust :: "nat \<Rightarrow> bytes \<Rightarrow> bytes" where
  "ljust n bs = bs @ replicate (n - length bs) 0"

definition rstrip_zero :: "bytes \<Rightarrow> bytes" where
  "rstrip_zero bs = rev (dropWhile (\<lambda>b. b = 0) (rev bs))"

definition segment_metadata_serialize :: "segment_metadata \<Rightarrow> bytes result" where
  "segment_metadata_serialize m =
     (let map_id_bytes = ljust 40 (take 40 (utf8_encode (map_id m)))
      in struct_pack segment_format
           [SI (start_time m), SI (last_time m), SI (max_patches m), SI (current_patches m),
            SI (patch_index_start m), SB (is_fragmented m), SY map_id_bytes])"

definition segment_metadata_deserialize :: "bytes \<Rightarrow> segment_metadata result" where
  "segment_metadata_deserialize data =
     rbind (struct_unpack segment_format data)
       (\<lambda>vs. case vs of
          [SI start, SI lst, SI maxp, SI cur, SI pstart, SB frag, SY map_id_bytes] \<Rightarrow>
            rbind (utf8_decode (rstrip_zero map_id_bytes))
              (\<lambda>mid. Inr \<lparr>start_time = start, last_time = lst, max_patches = maxp,
                 current_patches = cur, patch_index_start = pstart, is_fragmented = frag,
                 map_id = mid\<rparr>)
        | _ \<Rightarrow> Inl StructError)"

definition int32_fields :: "segment_metadata \<Rightarrow> bool" where
  "int32_fields m \<longleftrightarrow> list_all (in_range (CS 4))
     [start_time m, last_time m, max_patches m, current_patches m, patch_index_start m]"

definition map_id_storable :: "string \<Rightarrow> bool" where
  "map_id_storable s \<longleftrightarrow>
     length (utf8_encode s) \<le> 40 \<and> (utf8_encode s = [] \<or> last (utf8_encode s) \<noteq> 0)"

lemma length_ljust [simp]: "length bs \<le> n \<Longrightarrow> length (ljust n bs) = n"
  by (simp add: ljust_def)

lemma dropWhile_replicate_zero: "dropWhile (\<lambda>b. b = 0) (replicate k (0::byte) @ bs) = dropWhile (\<lambda>b. b = 0) bs"
  by (induction k) auto

lemma rstrip_ljust:
  "bs = [] \<or> last bs \<noteq> 0 \<Longrightarrow> rstrip_zero (ljust n bs) = bs"
  by (cases bs rule: rev_cases)
    (auto simp: rstrip_zero_def ljust_def dropWhile_replicate_zero dropWhile_append3)

lemma segment_faithful:
  "int32_fields m \<Longrightarrow> length mb = 40 \<Longrightarrow>
   list_all2 faithful segment_format
     [SI (start_time m), SI (last_time m), SI (max_patches m), SI (current_patches m),
      SI (patch_index_start m), SB (is_fragmented m), SY mb]"
  by (simp add: segment_format_def int32_fields_def)

lemma segment_serialize_ok:
  assumes "int32_fields m"
  shows "\<exists>bs. segment_metadata_serialize m = Inr bs \<and> length bs = 61"
proof -
  let ?mb = "ljust 40 (take 40 (utf8_encode (map_id m)))"
  have "length ?mb = 40" by simp
  from struct_roundtrip [OF segment_faithful [OF assms this]] show ?thesis
    by (auto simp: segment_metadata_serialize_def Let_def)
      (simp add: segment_format_def)
qed

lemma segment_serialize_Inr:
  "segment_metadata_serialize m = Inr bs \<Longrightarrow> int32_fields m"
  by (auto simp: segment_metadata_serialize_def segment_format_def Let_def rbind_eq_Inr_iff
      pack_int_def int32_fields_def split: if_splits)

lemma segment_unpack_serialized:
  assumes "segment_metadata_serialize m = Inr bs"
  shows "struct_unpack segment_format bs =
    Inr [SI (start_time m), SI (last_time m), SI (max_patches m), SI (current_patches m),
         SI (patch_index_start m), SB (is_fragmented m),
         SY (ljust 40 (take 40 (utf8_encode (map_id m))))]"
proof -
  let ?mb = "ljust 40 (take 40 (utf8_encode (map_id m)))"
  have "length ?mb = 40" by simp
  from struct_unpack_pack(1) [OF segment_faithful [OF segment_serialize_Inr [OF assms] this]] assms
  show ?thesis by (simp add: segment_metadata_serialize_def Let_def)
qed

lemma segment_deserialize_serialized:
  assumes bs: "segment_metadata_serialize m = Inr bs" and "map_id_storable (map_id m)"
  shows "segment_metadata_deserialize bs = Inr m"
proof -
  have "rstrip_zero (ljust 40 (utf8_encode (map_id m))) = utf8_encode (map_id m)"
    using assms(2) by (intro rstrip_ljust) (auto simp: map_id_storable_def)
  moreover have "take 40 (utf8_encode (map_id m)) = utf8_encode (map_id m)"
    using assms(2) by (simp add: map_id_storable_def)
  ultimately show ?thesis
    by (simp add: segment_metadata_deserialize_def segment_unpack_serialized [OF bs])
qed

text \<open>the segment header is read back as it was written whenever its five integers fit 32
  bits and the UTF-8 form of the map identifier has at most 40 bytes and no trailing NUL.\<close>

lemma segment_metadata_roundtrip:
  assumes "int32_fields m" and "map_id_storable (map_id m)"
  shows "rbind (segment_metadata_serialize m) segment_metadata_deserialize = Inr m"
  using segment_serialize_ok [OF assms(1)] segment_deserialize_serialized [OF _ assms(2)] by auto

lemma segment_metadata_roundtrip_witness:
  "rbind (segment_metadata_serialize
      \<lparr>start_time = 1700000000, last_time = 1700000600, max_patches = 10000, current_patches = 4,
       patch_index_start = 321, is_fragmented = True, map_id = ''5652_1''\<rparr>)
     segment_metadata_deserialize =
   Inr \<lparr>start_time = 1700000000, last_time = 1700000600, max_patches = 10000, current_patches = 4,
        patch_index_start = 321, is_fragmented = True, map_id = ''5652_1''\<rparr>"
  by (rule segment_metadata_roundtrip)
    (simp_all add: int32_fields_def map_id_storable_def utf8_encode_def)

text \<open>Every header that serialises at all takes the same number of bytes, the size the
  in-place update of the header relies on; it serialises exactly when its integers fit 32 bits.\<close>

lemma segment_metadata_fixed_size:
  "(case segment_metadata_serialize m of
      Inr bs \<Rightarrow> length bs = segment_metadata_size \<and> int32_fields m
    | Inl e \<Rightarrow> \<not> int32_fields m)"
proof (cases "int32_fields m")
  case True
  from segment_serialize_ok [OF True] show ?thesis
    using True by (auto simp: segment_metadata_size_def segment_format_def)
next
  case False
  then show ?thesis using segment_serialize_Inr by (auto split: sum.splits)
qed

lemma utf8_encode_append: "utf8_encode (s @ t) = utf8_encode s @ utf8_encode t"
  by (simp add: utf8_encode_def)

lemma length_utf8_m: "length (utf8_encode (replicate n CHR ''m'')) = n"
  by (induction n) (simp_all add: utf8_encode_def)

lemma utf8_cut:
  "take 40 (utf8_encode (replicate 39 CHR ''m'' @ [CHR 0xE9])) = utf8_encode (replicate 39 CHR ''m'') @ [195]"
proof -
  have "utf8_encode [CHR 0xE9] = [195, 169]" by (simp add: utf8_encode_def)
  then show ?thesis using length_utf8_m [of 39] by (simp add: utf8_encode_append)
qed

text \<open>the 40-byte cut can split a two-byte character; such a header is written without an
  error and raises \<open>UnicodeDecodeError\<close> when it is read.\<close>

lemma map_id_cut_unreadable:
  "\<exists>bs. segment_metadata_serialize
      \<lparr>start_time = 0, last_time = 0, max_patches = 0, current_patches = 0,
       patch_index_start = 0, is_fragmented = False,
       map_id = replicate 39 CHR ''m'' @ [CHR 0xE9]\<rparr> = Inr bs \<and>
     segment_metadata_deserialize bs = Inl UnicodeError"
proof -
  let ?id = "replicate 39 CHR ''m'' @ [CHR 0xE9]"
  let ?m = "\<lparr>start_time = 0, last_time = 0, max_patches = 0, current_patches = 0,
       patch_index_start = 0, is_fragmented = False, map_id = ?id\<rparr>"
  have "int32_fields ?m" by (simp add: int32_fields_def)
  from segment_serialize_ok [OF this] obtain bs
    where bs: "segment_metadata_serialize ?m = Inr bs" by blast
  have "utf8_decode (rstrip_zero (ljust 40 (take 40 (utf8_encode ?id)))) = Inl UnicodeError"
  proof -
    have "rstrip_zero (ljust 40 (utf8_encode (replicate 39 CHR ''m'') @ [195])) =
        utf8_encode (replicate 39 CHR ''m'') @ [195]"
      by (rule rstrip_ljust) simp
    then show ?thesis by (simp add: utf8_cut utf8_roundtrip_append)
  qed
  with bs show ?thesis
    by (auto simp: segment_metadata_deserialize_def segment_unpack_serialized [OF bs])
qed

subsection \<open>TimelineMetadata\<close>

record timeline_metadata =
  game_ended :: bool
  start_of_game :: int
  end_of_game :: int
  tm_game_id :: int
  tm_player_id :: int
  scenario_id :: int
  day_of_game :: int
  speed :: int
  segment_count :: int

definition timeline_format :: "code list" where
  "timeline_format = CBool # replicate 8 (CS 4)"

definition timeline_metadata_size :: nat where
  "timeline_metadata_size = calcsizes timeline_format"

definition timeline_metadata_serialize :: "timeline_metadata \<Rightarrow> bytes result" where
  "timeline_metadata_serialize m =
     struct_pack timeline_format
       [SB (game_ended m), SI (start_of_game m), SI (end_of_game m), SI (tm_game_id m),
        SI (tm_player_id m), SI (scenario_id m), SI (day_of_game m), SI (speed m),
        SI (segment_count m)]"

definition timeline_metadata_deserialize :: "bytes \<Rightarrow> timeline_metadata result" where
  "timeline_metadata_deserialize data =
     rbind (struct_unpack timeline_format data)
       (\<lambda>vs. case vs of
          [SB ended, SI sog, SI eog, SI gid, SI pid, SI sid, SI day, SI spd, SI cnt] \<Rightarrow>
            Inr \<lparr>game_ended = ended, start_of_game = sog, end_of_game = eog, tm_game_id = gid,
                 tm_player_id = pid, scenario_id = sid, day_of_game = day, speed = spd,
                 segment_count = cnt\<rparr>
        | _ \<Rightarrow> Inl StructError)"

definition timeline_int32 :: "timeline_metadata \<Rightarrow> bool" where
  "timeline_int32 m \<longleftrightarrow> list_all (in_range (CS 4))
     [start_of_game m, end_of_game m, tm_game_id m, tm_player_id m, scenario_id m, day_of_game m,
      speed m, segment_count m]"

lemma timeline_faithful:
  "timeline_int32 m \<Longrightarrow>
   list_all2 faithful timeline_format
     [SB (game_ended m), SI (start_of_game m), SI (end_of_game m), SI (tm_game_id m),
      SI (tm_player_id m), SI (scenario_id m), SI (day_of_game m), SI (speed m),
      SI (segment_count m)]"
  by (simp add: timeline_format_def timeline_int32_def numeral_eq_Suc)

lemma timeline_serialize_ok:
  assumes "timeline_int32 m"
  shows "\<exists>bs. timeline_metadata_serialize m = Inr bs \<and> length bs = timeline_metadata_size \<and>
           timeline_metadata_deserialize bs = Inr m"
  using struct_roundtrip [OF timeline_faithful [OF assms]]
    struct_unpack_pack(1) [OF timeline_faithful [OF assms]]
  by (auto simp: timeline_metadata_serialize_def timeline_metadata_size_def
      timeline_metadata_deserialize_def)

end
