(* ===== verification/Values.thy ===== *)
theory Values
  imports Prelude
begin

text \<open>
  The objects a game state is made of, and the single-operation mutator of the replay
  (\<open>replay/apply_replay_helper.py\<close>).

  A \<open>val\<close> is \<open>None\<close>, a \<open>bool\<close>, \<open>int\<close>, \<open>float\<close> (a finite one, as a rational), \<open>str\<close>, enum
  member, date, time span, list, dict or \<open>GameObject\<close>.  Lists, dicts and dates carry the name of
  their class, because the program subclasses them (\<open>HashMap\<close>, \<open>UnitList\<close>, ...) and compares
  types; a \<open>GameObject\<close> carries its class and its attributes.  The attributes are the instance
  attributes; methods and class constants are not values and \<open>hasattr\<close> is about attributes only.

  \<open>py_eq\<close> is Python's \<open>==\<close> on these objects: numbers compare by value across types, lists by
  content whatever their class, dicts by content whatever their order, \<open>GameObject\<close>s by class and
  attributes.  \<open>canon\<close> is the canonical form under which \<open>py_eq\<close> is equality
  (\<open>py_eq_iff_canon\<close>); it is what the correctness statements of the replay are about.
\<close>

subsection \<open>Path elements, keys and values\<close>

datatype pathel = PInt int | PStr string

datatype key = KP pathel | KEnum string pathel | KOther string

datatype val =
    VNone
  | VBool bool
  | VInt int
  | VFloat rat
  | VStr string
  | VEnum string pathel
  | VDatetime string rat
  | VTimedelta string rat
  | VList string "val list"
  | VDict string "(key \<times> val) list"
  | VObj string "(string \<times> val) list"

type_synonym path = "pathel list"

datatype tag =
    TNone | TBool | TInt | TFloat | TStr | TEnum string | TDatetime string | TTimedelta string
  | TList string | TDict string | TObj string

fun type_of :: "val \<Rightarrow> tag" where
  "type_of VNone = TNone"
| "type_of (VBool _) = TBool"
| "type_of (VInt _) = TInt"
| "type_of (VFloat _) = TFloat"
| "type_of (VStr _) = TStr"
| "type_of (VEnum c _) = TEnum c"
| "type_of (VDatetime c _) = TDatetime c"
| "type_of (VTimedelta c _) = TTimedelta c"
| "type_of (VList c _) = TList c"
| "type_of (VDict c _) = TDict c"
| "type_of (VObj c _) = TObj c"

subsection \<open>Equality\<close>

fun num_of :: "val \<Rightarrow> rat option" where
  "num_of (VBool b) = Some (if b then 1 else 0)"
| "num_of (VInt i) = Some (of_int i)"
| "num_of (VFloat r) = Some r"
| "num_of _ = None"

fun py_eq :: "val \<Rightarrow> val \<Rightarrow> bool"
  and py_eq_list :: "val list \<Rightarrow> val list \<Rightarrow> bool"
  and py_eq_items :: "(key \<times> val) list \<Rightarrow> (key \<times> val) list \<Rightarrow> bool"
  and py_eq_attrs :: "(string \<times> val) list \<Rightarrow> (string \<times> val) list \<Rightarrow> bool" where
  "py_eq (VList c xs) b = (case b of VList d ys \<Rightarrow> py_eq_list xs ys | _ \<Rightarrow> False)"
| "py_eq (VDict c xs) b =
     (case b of VDict d ys \<Rightarrow> length xs = length ys \<and> py_eq_items xs ys | _ \<Rightarrow> False)"
| "py_eq (VObj c xs) b = (case b of VObj d ys \<Rightarrow> c = d \<and> py_eq_attrs xs ys | _ \<Rightarrow> False)"
| "py_eq VNone b = (b = VNone)"
| "py_eq (VStr s) b = (b = VStr s)"
| "py_eq (VEnum c p) b = (b = VEnum c p)"
| "py_eq (VDatetime c t) b = (case b of VDatetime d u \<Rightarrow> t = u | _ \<Rightarrow> False)"
| "py_eq (VTimedelta c t) b = (case b of VTimedelta d u \<Rightarrow> t = u | _ \<Rightarrow> False)"
| "py_eq a b = (num_of a = num_of b)"
| "py_eq_list [] ys = (ys = [])"
| "py_eq_list (x # xs) ys = (case ys of [] \<Rightarrow> False | y # ys' \<Rightarrow> py_eq x y \<and> py_eq_list xs ys')"
| "py_eq_items [] ys = True"
| "py_eq_items ((k, v) # xs) ys =
     ((case dict_get ys k of None \<Rightarrow> False | Some w \<Rightarrow> py_eq v w) \<and> py_eq_items xs ys)"
| "py_eq_attrs [] ys = (ys = [])"
| "py_eq_attrs ((k, v) # xs) ys =
     (case ys of [] \<Rightarrow> False | (l, w) # ys' \<Rightarrow> k = l \<and> py_eq v w \<and> py_eq_attrs xs ys')"

datatype cval =
    CNone | CNum rat | CStr string | CEnum string pathel | CDatetime rat | CTimedelta rat
  | CList "cval list" | CDict "key \<Rightarrow> cval option" | CObj string "(string \<times> cval) list"

primrec canon :: "val \<Rightarrow> cval" where
  "canon VNone = CNone"
| "canon (VBool b) = CNum (if b then 1 else 0)"
| "canon (VInt i) = CNum (of_int i)"
| "canon (VFloat r) = CNum r"
| "canon (VStr s) = CStr s"
| "canon (VEnum c p) = CEnum c p"
| "canon (VDatetime c t) = CDatetime t"
| "canon (VTimedelta c t) = CTimedelta t"
| "canon (VList c xs) = CList (map canon xs)"
| "canon (VDict c kvs) = CDict (map_of (map (map_prod id canon) kvs))"
| "canon (VObj c kvs) = CObj c (map (map_prod id canon) kvs)"

text \<open>Well-formed values: the keys of a dict and the attribute names of an object are distinct at
  every level.\<close>

fun wf_val :: "val \<Rightarrow> bool" where
  "wf_val (VList c xs) = list_all wf_val xs"
| "wf_val (VDict c kvs) = (dict_wf kvs \<and> list_all (\<lambda>(k, v). wf_val v) kvs)"
| "wf_val (VObj c kvs) = (dict_wf kvs \<and> list_all (\<lambda>(k, v). wf_val v) kvs)"
| "wf_val _ = True"

lemma map_of_map_prod: "map_of (map (map_prod id f) kvs) k = map_option f (map_of kvs k)"
  by (induction kvs) auto

lemma py_eq_list_iff: "py_eq_list xs ys \<longleftrightarrow> list_all2 py_eq xs ys"
  by (induction xs arbitrary: ys) (auto simp: list_all2_Cons1 split: list.splits)

lemma py_eq_items_iff:
  "py_eq_items xs ys \<longleftrightarrow> (\<forall>(k, v) \<in> set xs. \<exists>w. dict_get ys k = Some w \<and> py_eq v w)"
  by (induction xs) (auto split: option.splits)

lemma py_eq_attrs_iff:
  "py_eq_attrs xs ys \<longleftrightarrow> list_all2 (\<lambda>(k, v) (l, w). k = l \<and> py_eq v w) xs ys"
  by (induction xs arbitrary: ys) (auto simp: list_all2_Cons1 split: list.splits prod.splits)

lemma dict_dom_eq:
  assumes "dict_wf xs" "dict_wf ys" "length xs = length ys" "fst ` set xs \<subseteq> fst ` set ys"
  shows "fst ` set xs = fst ` set ys"
proof (rule card_seteq)
  have "card (fst ` set xs) = length xs" "card (fst ` set ys) = length ys"
    using assms(1,2) by (metis distinct_card length_map list.set_map)+
  then show "card (fst ` set ys) \<le> card (fst ` set xs)" using assms(3) by simp
qed (use assms in auto)

lemma canon_dict_eq_iff:
  assumes "dict_wf xs" "dict_wf ys"
  shows "map_of (map (map_prod id canon) xs) = map_of (map (map_prod id canon) ys) \<longleftrightarrow>
    length xs = length ys \<and> (\<forall>(k, v) \<in> set xs. \<exists>w. dict_get ys k = Some w \<and> canon v = canon w)"
    (is "?l \<longleftrightarrow> ?r")
proof
  assume l: ?l
  then have eq: "map_option canon (map_of xs k) = map_option canon (map_of ys k)" for k
    by (metis map_of_map_prod)
  then have "fst ` set xs = fst ` set ys"
    by (metis (no_types, lifting) map_of_eq_None_iff map_option_is_None set_eqI)
  then have "length xs = length ys"
    using assms by (metis distinct_card length_map list.set_map)
  moreover have "\<exists>w. dict_get ys k = Some w \<and> canon v = canon w" if "(k, v) \<in> set xs" for k v
    using eq [of k] that assms(1) by (cases "dict_get ys k") (auto simp: map_of_is_SomeI)
  ultimately show ?r by blast
next
  assume r: ?r
  then have sub: "fst ` set xs \<subseteq> fst ` set ys" by (force dest: map_of_SomeD)
  from r have dom: "fst ` set xs = fst ` set ys" by (intro dict_dom_eq [OF assms _ sub]) auto
  show ?l
  proof
    fix k
    show "map_of (map (map_prod id canon) xs) k = map_of (map (map_prod id canon) ys) k"
    proof (cases "map_of xs k")
      case None
      then have "map_of ys k = None" using dom by (metis map_of_eq_None_iff)
      with None show ?thesis by (simp add: map_of_map_prod)
    next
      case (Some v)
      then have "(k, v) \<in> set xs" by (rule map_of_SomeD)
      with r obtain w where "dict_get ys k = Some w" "canon v = canon w" by blast
      with Some show ?thesis by (simp add: map_of_map_prod)
    qed
  qed
qed

lemma py_eq_iff_canon: "wf_val a \<Longrightarrow> wf_val b \<Longrightarrow> py_eq a b \<longleftrightarrow> canon a = canon b"
proof (induction a arbitrary: b)
  case (VList c xs)
  have *: "list_all2 py_eq xs ys \<longleftrightarrow> map canon xs = map canon ys"
    if "list_all wf_val ys" for ys
    using VList.IH VList.prems(1) that
    by (induction xs arbitrary: ys) (auto simp: list_all2_Cons1 Cons_eq_map_conv)
  show ?case using * VList.prems(2) by (cases b) (auto simp: py_eq_list_iff)
next
  case (VDict c xs)
  have *: "py_eq_items xs ys \<longleftrightarrow>
      (\<forall>(k, v) \<in> set xs. \<exists>w. dict_get ys k = Some w \<and> canon v = canon w)"
    if "list_all (\<lambda>(k, v). wf_val v) ys" for ys
  proof -
    have "py_eq v w \<longleftrightarrow> canon v = canon w" if "(k, v) \<in> set xs" "dict_get ys k = Some w" for k v w
    proof -
      have "wf_val v" using VDict.prems(1) that(1) by (auto simp: list_all_iff)
      moreover have "wf_val w"
        using \<open>list_all (\<lambda>(k, v). wf_val v) ys\<close> that(2)
        by (auto simp: list_all_iff dest!: map_of_SomeD)
      ultimately show ?thesis using VDict.IH [of "(k, v)" v w] that(1) by simp
    qed
    then show ?thesis unfolding py_eq_items_iff by blast
  qed
  show ?case using * VDict.prems by (cases b) (auto simp: canon_dict_eq_iff)
next
  case (VObj c xs)
  have *: "list_all2 (\<lambda>(k, v) (l, w). k = l \<and> py_eq v w) xs ys \<longleftrightarrow>
      map (map_prod id canon) xs = map (map_prod id canon) ys"
    if "list_all (\<lambda>(k, v). wf_val v) ys" for ys
    using VObj.IH VObj.prems(1) that
    by (induction xs arbitrary: ys) (fastforce simp: list_all2_Cons1 Cons_eq_map_conv)+
  show ?case using * VObj.prems(2) by (cases b) (auto simp: py_eq_attrs_iff)
qed (case_tac b; auto)+

lemma py_eq_refl: "wf_val a \<Longrightarrow> py_eq a a"
  by (simp add: py_eq_iff_canon)

lemma wf_val_dict_get: "wf_val (VDict c kvs) \<Longrightarrow> dict_get kvs k = Some v \<Longrightarrow> wf_val v"
  and wf_val_attr: "wf_val (VObj c attrs) \<Longrightarrow> map_of attrs n = Some v \<Longrightarrow> wf_val v"
  by (auto simp: list_all_iff dest!: map_of_SomeD)

subsection \<open>Attributes and sizes\<close>

definition attr_lookup :: "(string \<times> val) list \<Rightarrow> string \<Rightarrow> val result" where
  "attr_lookup attrs n = (case map_of attrs n of None \<Rightarrow> Inl AttributeError | Some v \<Rightarrow> Inr v)"

lemma attr_lookup_Inr [simp]: "attr_lookup attrs n = Inr v \<longleftrightarrow> map_of attrs n = Some v"
  by (auto simp: attr_lookup_def split: option.splits)

lemma size_attr [termination_simp]: "map_of attrs n = Some v \<Longrightarrow> size v < size (VObj c attrs)"
  by (induction attrs) (auto split: if_splits)

lemma size_item [termination_simp]: "map_of kvs k = Some v \<Longrightarrow> size v < size (VDict c kvs)"
  by (induction kvs) (auto split: if_splits)

lemma size_elem [termination_simp]:
  assumes "(i, x, y) \<in> set (enumerate n (zip xs ys))"
  shows "size x < size (VList c xs)"
proof -
  have "(x, y) \<in> snd ` set (enumerate n (zip xs ys))"
    using assms by (rule image_eqI [rotated]) simp
  then have "(x, y) \<in> set (zip xs ys)" by (metis list.set_map map_snd_enumerate)
  then have "x \<in> set xs" by (auto dest: set_zip_leftD)
  then show ?thesis by (induction xs) auto
qed

end
