(* ===== verification/Apply.thy ===== *)
theory Apply
  imports Values
begin

text \<open>
  Applying recorded operations (\<open>replay/apply_replay_helper.py\<close>, \<open>replay/constants.py\<close>).

  The program mutates the container \<open>reference\<close> in place; \<open>apply_operation\<close> returns the
  container as it is afterwards.  \<open>child_ref\<close> is one step of \<open>get_reference_from_direct_parent\<close>
  and \<open>set_child\<close> puts a mutated child back, so that \<open>apply_op\<close> performs an operation at a path
  below a root object by walking down the path, as the references of the path tree do.
\<close>

subsection \<open>Operation codes\<close>

definition ADD_OPERATION :: int where "ADD_OPERATION = 1"
definition REPLACE_OPERATION :: int where "REPLACE_OPERATION = 2"
definition REMOVE_OPERATION :: int where "REMOVE_OPERATION = 3"

lemmas op_codes = ADD_OPERATION_def REPLACE_OPERATION_def REMOVE_OPERATION_def

subsection \<open>Assignment and deletion in the containers\<close>

text \<open>\<open>list[pos] = value\<close> and \<open>list.pop(pos)\<close> with Python's negative positions.\<close>

definition list_assign :: "'a list \<Rightarrow> pathel \<Rightarrow> 'a \<Rightarrow> 'a list result" where
  "list_assign xs pos v =
     (case pos of
        PStr _ \<Rightarrow> Inl TypeError
      | PInt i \<Rightarrow>
          let n = int (length xs); j = (if i < 0 then i + n else i)
          in if 0 \<le> j \<and> j < n then Inr (xs[nat j := v]) else Inl IndexError)"

definition list_pop :: "'a list \<Rightarrow> pathel \<Rightarrow> 'a list result" where
  "list_pop xs pos =
     (case pos of
        PStr _ \<Rightarrow> Inl TypeError
      | PInt i \<Rightarrow>
          let n = int (length xs); j = (if i < 0 then i + n else i)
          in if 0 \<le> j \<and> j < n then Inr (take (nat j) xs @ drop (Suc (nat j)) xs)
             else Inl IndexError)"

definition has_attr :: "(string \<times> 'a) list \<Rightarrow> string \<Rightarrow> bool" where
  "has_attr attrs n \<longleftrightarrow> n \<in> set (map fst attrs)"

definition apply_replace :: "val \<Rightarrow> val \<Rightarrow> pathel \<Rightarrow> val result" where
  "apply_replace value reference pos =
     (case reference of
        VObj c attrs \<Rightarrow>
          (case pos of
             PInt _ \<Rightarrow> Inl ValueError
           | PStr n \<Rightarrow> if has_attr attrs n then Inr (VObj c (dict_set attrs n value)) else Inl ValueError)
      | VList c xs \<Rightarrow> rbind (list_assign xs pos value) (\<lambda>xs'. Inr (VList c xs'))
      | VDict c kvs \<Rightarrow> Inr (VDict c (dict_set kvs (KP pos) value))
      | _ \<Rightarrow> Inl ValueError)"

definition apply_add :: "val \<Rightarrow> val \<Rightarrow> pathel \<Rightarrow> val result" where
  "apply_add value reference pos =
     (case reference of
        VList c xs \<Rightarrow> Inr (VList c (xs @ [value]))
      | VDict c kvs \<Rightarrow> Inr (VDict c (dict_set kvs (KP pos) value))
      | VObj c attrs \<Rightarrow>
          (case pos of
             PInt _ \<Rightarrow> Inl ValueError
           | PStr n \<Rightarrow>
               (case map_of attrs n of
                  None \<Rightarrow> Inl ValueError
                | Some old \<Rightarrow>
                    if old \<noteq> VNone then Inl ValueError else Inr (VObj c (dict_set attrs n value))))
      | _ \<Rightarrow> Inl ValueError)"

definition apply_remove :: "val \<Rightarrow> pathel \<Rightarrow> val result" where
  "apply_remove reference pos =
     (case reference of
        VObj c attrs \<Rightarrow>
          (case pos of
             PInt _ \<Rightarrow> Inl ValueError
           | PStr n \<Rightarrow> if has_attr attrs n then Inr (VObj c (dict_set attrs n VNone)) else Inl ValueError)
      | VList c xs \<Rightarrow>
          rbind (py_assert (pos = PInt (int (length xs) - 1)))
            (\<lambda>_. rbind (list_pop xs pos) (\<lambda>xs'. Inr (VList c xs')))
      | VDict c kvs \<Rightarrow> rbind (dict_pop kvs (KP pos)) (\<lambda>(_, kvs'). Inr (VDict c kvs'))
      | _ \<Rightarrow> Inl AttributeError)"

definition apply_operation :: "int \<Rightarrow> val \<Rightarrow> val \<Rightarrow> pathel \<Rightarrow> val result" where
  "apply_operation op_type value reference pos =
     (if op_type = REPLACE_OPERATION then apply_replace value reference pos
      else if op_type = ADD_OPERATION then apply_add value reference pos
      else if op_type = REMOVE_OPERATION then apply_remove reference pos
      else Inr reference)"

subsection \<open>Walking a path\<close>

definition child_ref :: "val \<Rightarrow> pathel \<Rightarrow> val result" where
  "child_ref parent p =
     (case parent of
        VNone \<Rightarrow> Inl ValueError
      | VObj c attrs \<Rightarrow>
          (case p of
             PInt _ \<Rightarrow> Inl TypeError
           | PStr n \<Rightarrow> (case map_of attrs n of Some v \<Rightarrow> Inr v | None \<Rightarrow> Inl ValueError))
      | VList c xs \<Rightarrow>
          (case p of
             PStr _ \<Rightarrow> Inl IndexError
           | PInt i \<Rightarrow> if i < 0 \<or> int (length xs) \<le> i then Inl IndexError else Inr (xs ! nat i))
      | VDict c kvs \<Rightarrow> dict_lookup kvs (KP p)
      | _ \<Rightarrow> Inr VNone)"

definition set_child :: "val \<Rightarrow> pathel \<Rightarrow> val \<Rightarrow> val" where
  "set_child parent p v =
     (case parent of
        VObj c attrs \<Rightarrow> (case p of PStr n \<Rightarrow> VObj c (dict_set attrs n v) | _ \<Rightarrow> parent)
      | VList c xs \<Rightarrow> (case p of PInt i \<Rightarrow> VList c (xs[nat i := v]) | _ \<Rightarrow> parent)
      | VDict c kvs \<Rightarrow> VDict c (dict_set kvs (KP p) v)
      | _ \<Rightarrow> parent)"

type_synonym operation = "int \<times> path \<times> val"

fun apply_op :: "operation \<Rightarrow> val \<Rightarrow> val result" where
  "apply_op (op_type, [], value) obj = apply_operation op_type value VNone (PStr ''root'')"
| "apply_op (op_type, [p], value) obj = apply_operation op_type value obj p"
| "apply_op (op_type, p # q # ps, value) obj =
     rbind (child_ref obj p)
       (\<lambda>child. rbind (apply_op (op_type, q # ps, value) child)
          (\<lambda>child'. Inr (set_child obj p child')))"

definition apply_ops :: "operation list \<Rightarrow> val \<Rightarrow> val result" where
  "apply_ops ops obj = rfold apply_op ops obj"

subsection \<open>Recorded entries\<close>

text \<open>
  What the recorders of the program write down is a sequence of entries, each with a forward and
  a backward operation.  An entry is \<open>ok\<close> at an object when the backward operation undoes the
  forward one there: an addition is at the end of a list, at a fresh key or at an attribute that
  is \<open>None\<close>; a replacement and a removal carry the value that is there.  \<open>run_entries\<close> performs
  entries one after the other and is \<open>Some\<close> only if each is \<open>ok\<close> when its turn comes.
\<close>

datatype kind = KAdd val | KReplace val val | KRemove val

type_synonym entry = "kind \<times> path"

fun forward_op :: "entry \<Rightarrow> operation" where
  "forward_op (KAdd new, p) = (ADD_OPERATION, p, new)"
| "forward_op (KReplace old new, p) = (REPLACE_OPERATION, p, new)"
| "forward_op (KRemove old, p) = (REMOVE_OPERATION, p, VNone)"

fun backward_op :: "entry \<Rightarrow> operation" where
  "backward_op (KAdd new, p) = (REMOVE_OPERATION, p, VNone)"
| "backward_op (KReplace old new, p) = (REPLACE_OPERATION, p, old)"
| "backward_op (KRemove old, p) = (ADD_OPERATION, p, old)"

definition is_container :: "val \<Rightarrow> bool" where
  "is_container x \<longleftrightarrow> (case x of VList _ _ \<Rightarrow> True | VDict _ _ \<Rightarrow> True | VObj _ _ \<Rightarrow> True | _ \<Rightarrow> False)"

definition kid :: "val \<Rightarrow> pathel \<Rightarrow> val \<Rightarrow> bool" where
  "kid x p c \<longleftrightarrow> is_container x \<and> child_ref x p = Inr c"

definition addable :: "val \<Rightarrow> pathel \<Rightarrow> bool" where
  "addable x p \<longleftrightarrow>
     (case x of
        VList c xs \<Rightarrow> p = PInt (int (length xs))
      | VDict c kvs \<Rightarrow> KP p \<notin> fst ` set kvs
      | VObj c attrs \<Rightarrow> (\<exists>n. p = PStr n \<and> map_of attrs n = Some VNone)
      | _ \<Rightarrow> False)"

definition removable :: "val \<Rightarrow> pathel \<Rightarrow> bool" where
  "removable x p \<longleftrightarrow> (case x of VList c xs \<Rightarrow> p = PInt (int (length xs) - 1) | _ \<Rightarrow> True)"

fun step_ok :: "kind \<Rightarrow> val \<Rightarrow> pathel \<Rightarrow> bool" where
  "step_ok (KAdd new) x p = addable x p"
| "step_ok (KReplace old new) x p = (\<exists>c. kid x p c \<and> canon c = canon old)"
| "step_ok (KRemove old) x p = (\<exists>c. kid x p c \<and> canon c = canon old \<and> removable x p)"

fun entry_ok :: "entry \<Rightarrow> val \<Rightarrow> bool" where
  "entry_ok (k, []) x = (\<exists>old new. k = KReplace old new \<and> canon x = canon old)"
| "entry_ok (k, [p]) x = step_ok k x p"
| "entry_ok (k, p # q # ps) x = (\<exists>c. kid x p c \<and> entry_ok (k, q # ps) c)"

text \<open>Relative to a sub-object, the empty path of a replacement stands for the sub-object itself.\<close>

definition rel_op :: "operation \<Rightarrow> val \<Rightarrow> val result" where
  "rel_op o' x = (case o' of (t, [], v) \<Rightarrow> if t = REPLACE_OPERATION then Inr v else Inl ValueError
                          | _ \<Rightarrow> apply_op o' x)"

fun run_entries :: "entry list \<Rightarrow> val \<Rightarrow> val option" where
  "run_entries [] x = Some x"
| "run_entries (e # es) x =
     (if entry_ok e x
      then (case rel_op (forward_op e) x of Inr x' \<Rightarrow> run_entries es x' | Inl _ \<Rightarrow> None)
      else None)"

definition under :: "path \<Rightarrow> entry \<Rightarrow> entry" where
  "under q e = (fst e, q @ snd e)"

lemma under_simps [simp]: "under [] e = e" "under q (under q' e) = under (q @ q') e"
  "under q (k, p) = (k, q @ p)"
  by (simp_all add: under_def)

lemma under_comp [simp]: "under q \<circ> under q' = under (q @ q')"
  by (rule ext) simp

lemma run_entries_append:
  "run_entries (es @ es') x = Option.bind (run_entries es x) (run_entries es')"
  by (induction es arbitrary: x) (auto split: sum.splits)

subsection \<open>Children\<close>

lemma kid_cases:
  assumes "kid x p c"
  obtains (list) cl xs i where "x = VList cl xs" "p = PInt (int i)" "i < length xs" "c = xs ! i"
  | (dict) cl kvs where "x = VDict cl kvs" "dict_get kvs (KP p) = Some c"
  | (obj) cl attrs n where "x = VObj cl attrs" "p = PStr n" "map_of attrs n = Some c"
proof (cases x)
  case (VList cl xs)
  then obtain j where "p = PInt j" "0 \<le> j" "j < int (length xs)" "c = xs ! nat j"
    using assms by (auto simp: kid_def child_ref_def split: pathel.splits if_splits)
  then show ?thesis using VList list [of cl xs "nat j"] by simp
next
  case (VDict cl kvs)
  then show ?thesis using assms dict by (auto simp: kid_def child_ref_def)
next
  case (VObj cl attrs)
  then show ?thesis
    using assms obj by (auto simp: kid_def child_ref_def split: pathel.splits option.splits)
qed (use assms in \<open>auto simp: kid_def is_container_def\<close>)

lemma kid_set_child: "kid x p c \<Longrightarrow> kid (set_child x p c') p c'"
  by (erule kid_cases) (auto simp: kid_def is_container_def child_ref_def set_child_def)

lemma set_child_same: "kid x p c \<Longrightarrow> set_child x p c = x"
  by (erule kid_cases) (auto simp: set_child_def dict_set_same)

lemma set_child_twice: "kid x p c \<Longrightarrow> set_child (set_child x p c') p c'' = set_child x p c''"
  by (erule kid_cases) (auto simp: set_child_def dict_set_twice)

lemma kid_unique: "kid x p c \<Longrightarrow> kid x p c' \<Longrightarrow> c = c'"
  by (auto simp: kid_def)

lemma apply_replace_kid: "kid x p c \<Longrightarrow> apply_replace v x p = Inr (set_child x p v)"
  by (erule kid_cases)
    (auto simp: apply_replace_def set_child_def list_assign_def has_attr_def dict_get_in_keys)

lemma rel_op_under:
  assumes "kid x p c" and "entry_ok (k, ps) c"
  shows "rel_op (forward_op (k, p # ps)) x =
    rbind (rel_op (forward_op (k, ps)) c) (\<lambda>c'. Inr (set_child x p c'))"
proof (cases ps)
  case Nil
  with assms(2) obtain old new where "k = KReplace old new" by auto
  with Nil assms(1) show ?thesis
    by (simp add: rel_op_def apply_operation_def apply_replace_kid)
next
  case (Cons q qs)
  with assms(1) show ?thesis by (cases k) (auto simp: rel_op_def kid_def)
qed

lemma entry_ok_under: "kid x p c \<Longrightarrow> entry_ok (k, ps) c \<Longrightarrow> entry_ok (k, p # ps) x"
  by (cases ps; cases k) auto

text \<open>Entries recorded below a child run on the child alone.\<close>

lemma run_entries_under:
  assumes "kid x p c" and "run_entries es c = Some c'"
  shows "run_entries (map (under [p]) es) x = Some (set_child x p c')"
  using assms
proof (induction es arbitrary: x c)
  case Nil
  then show ?case by (simp add: set_child_same)
next
  case (Cons e es)
  obtain k ps where e: "e = (k, ps)" by (cases e)
  from Cons.prems(2) e obtain d where ok: "entry_ok (k, ps) c"
    and d: "rel_op (forward_op (k, ps)) c = Inr d" and rest: "run_entries es d = Some c'"
    by (auto split: if_splits sum.splits)
  have "run_entries (map (under [p]) es) (set_child x p d) = Some (set_child (set_child x p d) p c')"
    using Cons.IH [OF kid_set_child [OF Cons.prems(1)] rest] .
  also have "set_child (set_child x p d) p c' = set_child x p c'"
    using set_child_twice [OF Cons.prems(1)] .
  finally show ?case
    using d by (simp add: e entry_ok_under [OF Cons.prems(1) ok] rel_op_under [OF Cons.prems(1) ok])
qed

subsection \<open>Canonical forms of updated containers\<close>

lemma canon_dict_set: "canon (VDict c (dict_set kvs k v)) =
    CDict ((map_of (map (map_prod id canon) kvs))(k \<mapsto> canon v))"
  by (simp add: fun_eq_iff map_of_map_prod)

lemma canon_dict_del: "canon (VDict c (dict_del kvs k)) =
    CDict ((map_of (map (map_prod id canon) kvs))(k := None))"
  by (simp add: fun_eq_iff map_of_map_prod)

lemma map_prod_dict_set: "map (map_prod id f) (dict_set kvs k v) = dict_set (map (map_prod id f) kvs) k (f v)"
  by (induction kvs) auto

lemma canon_obj_set: "canon (VObj c (dict_set attrs n v)) =
    CObj c (dict_set (map (map_prod id canon) attrs) n (canon v))"
  by (simp add: map_prod_dict_set)

lemma canon_eq_VNone [simp]: "canon v = CNone \<longleftrightarrow> v = VNone"
  by (cases v) auto

lemma canon_list_iff: "canon x = CList cs \<longleftrightarrow> (\<exists>c xs. x = VList c xs \<and> map canon xs = cs)"
  and canon_dict_iff: "canon x = CDict m \<longleftrightarrow> (\<exists>c kvs. x = VDict c kvs \<and> map_of (map (map_prod id canon) kvs) = m)"
  and canon_obj_iff: "canon x = CObj cl cas \<longleftrightarrow> (\<exists>attrs. x = VObj cl attrs \<and> map (map_prod id canon) attrs = cas)"
  by (cases x; auto)+

lemma canon_set_child:
  "kid x p c \<Longrightarrow> kid y p d \<Longrightarrow> canon x = canon y \<Longrightarrow> canon u = canon v \<Longrightarrow>
   canon (set_child x p u) = canon (set_child y p v)"
  by (erule kid_cases; erule kid_cases)
    (auto simp: set_child_def map_update canon_dict_set canon_obj_set simp del: canon.simps(10,11),
     auto simp: fun_eq_iff map_of_map_prod map_prod_dict_set)

lemma kid_canon:
  assumes "kid x p c" and "canon x = canon y"
  obtains d where "kid y p d" and "canon d = canon c"
  using assms(1)
proof (cases rule: kid_cases)
  case (list cl xs i)
  then obtain cl' ys where y: "y = VList cl' ys" "map canon xs = map canon ys"
    using assms(2) canon_list_iff [of y "map canon xs"] by auto
  then have "length ys = length xs" by (metis length_map)
  moreover from this list y have "canon (ys ! i) = canon c" by (metis nth_map)
  ultimately show ?thesis
    using that [of "ys ! i"] list y by (simp add: kid_def is_container_def child_ref_def)
next
  case (dict cl kvs)
  then obtain cl' kvs' where y: "y = VDict cl' kvs'"
    "map_of (map (map_prod id canon) kvs) = map_of (map (map_prod id canon) kvs')"
    using assms(2) canon_dict_iff [of y "map_of (map (map_prod id canon) kvs)"] by auto
  then have "map_option canon (map_of kvs' (KP p)) = Some (canon c)"
    using dict by (metis map_of_map_prod option.simps(9))
  then show ?thesis using that y by (auto simp: kid_def is_container_def child_ref_def)
next
  case (obj cl attrs n)
  then obtain attrs' where y: "y = VObj cl attrs'"
    "map (map_prod id canon) attrs = map (map_prod id canon) attrs'"
    using assms(2) canon_obj_iff [of y cl "map (map_prod id canon) attrs"] by auto
  then have "map_option canon (map_of attrs' n) = Some (canon c)"
    using obj by (metis map_of_map_prod option.simps(9))
  then show ?thesis using that y obj by (auto simp: kid_def is_container_def child_ref_def)
qed

subsection \<open>Undoing one operation\<close>

lemma map_of_canon_eq:
  "map (map_prod id canon) xs = map (map_prod id canon) ys \<Longrightarrow>
   map_option canon (map_of xs k) = map_option canon (map_of ys k)"
  by (metis map_of_map_prod)

lemma kid_addable_obj: "map_of attrs n = Some v \<Longrightarrow> has_attr attrs n"
  by (force simp: has_attr_def dest: map_of_SomeD)

lemma step_forward_backward:
  assumes "step_ok k x p"
  shows "\<exists>x' x''. apply_op (forward_op (k, [p])) x = Inr x' \<and>
    apply_op (backward_op (k, [p])) x' = Inr x'' \<and> canon x'' = canon x"
proof (cases k)
  case (KReplace old new)
  with assms obtain c where c: "kid x p c" "canon c = canon old" by auto
  have "canon (set_child x p old) = canon (set_child x p c)"
    using canon_set_child [OF c(1) c(1)] c(2) by metis
  with KReplace c show ?thesis
    by (simp add: apply_operation_def apply_replace_kid [OF c(1)]
        apply_replace_kid [OF kid_set_child [OF c(1)]] set_child_twice set_child_same)
next
  case (KAdd new)
  then show ?thesis using assms
    by (cases x)
      (auto simp: addable_def apply_operation_def op_codes apply_add_def apply_remove_def
        list_pop_def dict_pop_def has_attr_def kid_addable_obj dict_set_twice dict_set_same
        dict_del_set_fresh split: option.splits)
next
  case (KRemove old)
  with assms obtain c where c: "kid x p c" "canon c = canon old" "removable x p" by auto
  from c(1) show ?thesis
  proof (cases rule: kid_cases)
    case (list cl xs i)
    with c(3) have i: "i = length xs - 1" "xs \<noteq> []" by (auto simp: removable_def)
    then have "xs = butlast xs @ [c]"
      using list append_butlast_last_id [OF i(2)] by (simp add: last_conv_nth [OF i(2)])
    then obtain ys where xs: "xs = ys @ [c]" by blast
    from c(3) list(1) have "p = PInt (int (length xs) - 1)" by (simp add: removable_def)
    then have "x = VList cl (ys @ [c])" "p = PInt (int (length ys))"
      unfolding list(1) xs by simp_all
    with KRemove c(2) show ?thesis
      by (simp add: apply_operation_def op_codes apply_add_def apply_remove_def list_pop_def)
  next
    case (dict cl kvs)
    with KRemove c(2) show ?thesis
      by (auto simp: apply_operation_def op_codes apply_add_def apply_remove_def dict_pop_def
          fun_eq_iff map_of_map_prod)
  next
    case (obj cl attrs n)
    then have "canon (VObj cl (dict_set attrs n old)) = canon (VObj cl attrs)"
      using c(2) by (metis canon_obj_set dict_set_same)
    with KRemove obj show ?thesis
      by (auto simp: apply_operation_def op_codes apply_add_def apply_remove_def kid_addable_obj
          dict_set_twice)
  qed
qed

lemma rel_op_kid:
  "kid x p c \<Longrightarrow> ps \<noteq> [] \<or> t = REPLACE_OPERATION \<Longrightarrow>
   rel_op (t, p # ps, v) x = rbind (rel_op (t, ps, v) c) (\<lambda>c'. Inr (set_child x p c'))"
  by (cases ps) (auto simp: rel_op_def kid_def apply_operation_def apply_replace_kid [unfolded kid_def])

lemma entry_forward_backward:
  assumes "entry_ok (k, ps) x"
  shows "\<exists>x' x''. rel_op (forward_op (k, ps)) x = Inr x' \<and>
    rel_op (backward_op (k, ps)) x' = Inr x'' \<and> canon x'' = canon x"
  using assms
proof (induction "(k, ps)" x arbitrary: ps rule: entry_ok.induct)
  case (1 x)
  then show ?case by (auto simp: rel_op_def)
next
  case (2 p x)
  then show ?case using step_forward_backward [of k x p] by (cases k) (auto simp: rel_op_def)
next
  case (3 p q qs x)
  then obtain c where c: "kid x p c" "entry_ok (k, q # qs) c" by auto
  with 3(1) obtain c' c'' where
      f: "rel_op (forward_op (k, q # qs)) c = Inr c'"
    and b: "rel_op (backward_op (k, q # qs)) c' = Inr c''" and eq: "canon c'' = canon c"
    by blast
  let ?x' = "set_child x p c'"
  have "rel_op (forward_op (k, p # q # qs)) x = Inr ?x'"
    using f rel_op_kid [OF c(1)] by (cases k) auto
  moreover have "rel_op (backward_op (k, p # q # qs)) ?x' = Inr (set_child x p c'')"
    using b rel_op_kid [OF kid_set_child [OF c(1)]] set_child_twice [OF c(1)] by (cases k) auto
  moreover have "canon (set_child x p c'') = canon x"
    using canon_set_child [OF c(1) c(1) refl eq] set_child_same [OF c(1)] by simp
  ultimately show ?case by blast
qed

subsection \<open>Operations respect equality\<close>

definition op_code :: "int \<Rightarrow> bool" where
  "op_code t \<longleftrightarrow> t = ADD_OPERATION \<or> t = REPLACE_OPERATION \<or> t = REMOVE_OPERATION"

lemma op_code_simps [simp]:
  "op_code ADD_OPERATION" "op_code REPLACE_OPERATION" "op_code REMOVE_OPERATION"
  by (auto simp: op_code_def)

lemma apply_replace_canon:
  assumes "apply_replace v x p = Inr x'" "canon x = canon y"
  shows "\<exists>y'. apply_replace v y p = Inr y' \<and> canon x' = canon y'"
proof (cases x)
  case (VList c xs)
  then obtain d ys where y: "y = VList d ys" "map canon xs = map canon ys"
    using assms(2) canon_list_iff [of y "map canon xs"] by auto
  then have len: "length ys = length xs" by (metis length_map)
  from VList assms(1) y len show ?thesis
    by (auto simp: apply_replace_def list_assign_def Let_def rbind_eq_Inr_iff map_update
        split: pathel.splits if_splits)
next
  case (VDict c kvs)
  then obtain d kvs' where y: "y = VDict d kvs'"
    "map_of (map (map_prod id canon) kvs) = map_of (map (map_prod id canon) kvs')"
    using assms(2) canon_dict_iff [of y "map_of (map (map_prod id canon) kvs)"] by auto
  with VDict assms(1) show ?thesis
    by (auto simp: apply_replace_def canon_dict_set simp del: canon.simps(10))
next
  case (VObj c attrs)
  then obtain attrs' where y: "y = VObj c attrs'"
    "map (map_prod id canon) attrs = map (map_prod id canon) attrs'"
    using assms(2) canon_obj_iff [of y c "map (map_prod id canon) attrs"] by auto
  then have "fst ` set attrs = fst ` set attrs'"
    by (metis (no_types, lifting) fst_map_prod id_apply image_cong image_image list.set_map)
  with VObj y assms(1) show ?thesis
    by (auto simp: apply_replace_def has_attr_def canon_obj_set simp del: canon.simps(11)
        split: pathel.splits if_splits)
qed (use assms(1) in \<open>auto simp: apply_replace_def\<close>)

lemma apply_add_canon:
  assumes "apply_add v x p = Inr x'" "canon x = canon y"
  shows "\<exists>y'. apply_add v y p = Inr y' \<and> canon x' = canon y'"
proof (cases x)
  case (VList c xs)
  then obtain d ys where "y = VList d ys" "map canon xs = map canon ys"
    using assms(2) canon_list_iff [of y "map canon xs"] by auto
  with VList assms(1) show ?thesis by (auto simp: apply_add_def)
next
  case (VDict c kvs)
  then obtain d kvs' where "y = VDict d kvs'"
    "map_of (map (map_prod id canon) kvs) = map_of (map (map_prod id canon) kvs')"
    using assms(2) canon_dict_iff [of y "map_of (map (map_prod id canon) kvs)"] by auto
  with VDict assms(1) show ?thesis
    by (auto simp: apply_add_def canon_dict_set simp del: canon.simps(10))
next
  case (VObj c attrs)
  then obtain attrs' where y: "y = VObj c attrs'"
    "map (map_prod id canon) attrs = map (map_prod id canon) attrs'"
    using assms(2) canon_obj_iff [of y c "map (map_prod id canon) attrs"] by auto
  from VObj assms(1) obtain n where n: "p = PStr n" "map_of attrs n = Some VNone"
    "x' = VObj c (dict_set attrs n v)"
    by (auto simp: apply_add_def split: pathel.splits option.splits if_splits)
  then have "map_option canon (map_of attrs' n) = Some CNone"
    using map_of_canon_eq [OF y(2), of n] by simp
  then have "map_of attrs' n = Some VNone" by auto
  with n y show ?thesis
    by (auto simp: apply_add_def canon_obj_set simp del: canon.simps(11))
qed (use assms(1) in \<open>auto simp: apply_add_def\<close>)

lemma apply_remove_canon:
  assumes "apply_remove x p = Inr x'" "canon x = canon y"
  shows "\<exists>y'. apply_remove y p = Inr y' \<and> canon x' = canon y'"
proof (cases x)
  case (VList c xs)
  then obtain d ys where y: "y = VList d ys" "map canon xs = map canon ys"
    using assms(2) canon_list_iff [of y "map canon xs"] by auto
  then have len: "length ys = length xs" by (metis length_map)
  with VList y assms(1) show ?thesis
    by (auto simp: apply_remove_def list_pop_def Let_def rbind_eq_Inr_iff take_map [symmetric]
        drop_map [symmetric] split: pathel.splits if_splits)
next
  case (VDict c kvs)
  then obtain d kvs' where y: "y = VDict d kvs'"
    "map_of (map (map_prod id canon) kvs) = map_of (map (map_prod id canon) kvs')"
    using assms(2) canon_dict_iff [of y "map_of (map (map_prod id canon) kvs)"] by auto
  from VDict assms(1) obtain u where u: "map_of kvs (KP p) = Some u" "x' = VDict c (dict_del kvs (KP p))"
    by (auto simp: apply_remove_def dict_pop_def split: option.splits)
  then have "map_option canon (map_of kvs' (KP p)) = Some (canon u)"
    using y(2) by (metis map_of_map_prod option.simps(9))
  with u y show ?thesis
    by (auto simp: apply_remove_def dict_pop_def canon_dict_del simp del: canon.simps(10))
next
  case (VObj c attrs)
  then obtain attrs' where y: "y = VObj c attrs'"
    "map (map_prod id canon) attrs = map (map_prod id canon) attrs'"
    using assms(2) canon_obj_iff [of y c "map (map_prod id canon) attrs"] by auto
  then have "fst ` set attrs = fst ` set attrs'"
    by (metis (no_types, lifting) fst_map_prod id_apply image_cong image_image list.set_map)
  with VObj y assms(1) show ?thesis
    by (auto simp: apply_remove_def has_attr_def canon_obj_set simp del: canon.simps(11)
        split: pathel.splits if_splits)
qed (use assms(1) in \<open>auto simp: apply_remove_def\<close>)

lemma apply_operation_canon:
  "apply_operation t v x p = Inr x' \<Longrightarrow> canon x = canon y \<Longrightarrow>
   \<exists>y'. apply_operation t v y p = Inr y' \<and> canon x' = canon y'"
  by (auto simp: apply_operation_def split: if_splits
      dest: apply_replace_canon apply_add_canon apply_remove_canon)

lemma apply_operation_None: "op_code t \<Longrightarrow> apply_operation t v VNone p \<noteq> Inr x"
  by (auto simp: op_code_def apply_operation_def apply_replace_def apply_add_def apply_remove_def)

lemma apply_op_None: "op_code t \<Longrightarrow> apply_op (t, p # ps, v) VNone \<noteq> Inr x"
  by (cases ps) (auto simp: apply_operation_None child_ref_def)

lemma child_ref_kid:
  "op_code t \<Longrightarrow> child_ref x p = Inr c \<Longrightarrow> apply_op (t, q # qs, v) c = Inr c' \<Longrightarrow> kid x p c"
  by (cases x) (auto simp: kid_def is_container_def child_ref_def apply_op_None)

lemma rel_op_canon:
  "op_code t \<Longrightarrow> rel_op (t, ps, v) x = Inr x' \<Longrightarrow> canon x = canon y \<Longrightarrow>
   \<exists>y'. rel_op (t, ps, v) y = Inr y' \<and> canon x' = canon y'"
proof (induction ps arbitrary: x y x')
  case Nil
  then show ?case by (auto simp: rel_op_def split: if_splits)
next
  case (Cons p ps)
  show ?case
  proof (cases ps)
    case Nil
    with Cons.prems show ?thesis by (auto simp: rel_op_def dest: apply_operation_canon)
  next
    case (Cons q qs)
    with Cons.prems obtain c c' where c: "child_ref x p = Inr c"
      and c': "rel_op (t, ps, v) c = Inr c'" and x': "x' = set_child x p c'"
      by (auto simp: rel_op_def rbind_eq_Inr_iff)
    have k: "kid x p c"
      using child_ref_kid [OF Cons.prems(1) c] c' Cons by (simp add: rel_op_def)
    from kid_canon [OF k Cons.prems(3)] obtain d where d: "kid y p d" "canon d = canon c" .
    with Cons.IH [OF Cons.prems(1) c'] obtain d' where
      "rel_op (t, ps, v) d = Inr d'" "canon c' = canon d'" by metis
    with rel_op_kid [OF d(1), of ps t v] Cons canon_set_child [OF k d(1) Cons.prems(3)] x'
    show ?thesis by auto
  qed
qed

lemma op_code_backward: "op_code (fst (backward_op e))" "op_code (fst (forward_op e))"
  by (cases e rule: backward_op.cases; simp)+

text \<open>Entries that are \<open>ok\<close> in sequence are undone by their backward operations in reverse.\<close>

lemma run_entries_backward:
  assumes "run_entries es x = Some y"
  shows "\<exists>x'. rfold rel_op (rev (map backward_op es)) y = Inr x' \<and> canon x' = canon x"
  using assms
proof (induction es arbitrary: x)
  case (Cons e es)
  obtain k ps where e: "e = (k, ps)" by (cases e)
  from Cons.prems obtain x1 where ok: "entry_ok e x" and x1: "rel_op (forward_op e) x = Inr x1"
    and r: "run_entries es x1 = Some y" by (auto split: if_splits sum.splits)
  from Cons.IH [OF r] obtain z where z: "rfold rel_op (rev (map backward_op es)) y = Inr z"
    "canon z = canon x1" by blast
  from entry_forward_backward ok x1 e obtain x2
    where x2: "rel_op (backward_op e) x1 = Inr x2" "canon x2 = canon x" by fastforce
  obtain t q v where t: "backward_op e = (t, q, v)" by (cases "backward_op e")
  with op_code_backward(1) [of e] have "op_code t" by simp
  from rel_op_canon [OF this, of q v x1 x2 z] x2(1) t z(2)
  obtain z' where "rel_op (backward_op e) z = Inr z'" "canon x2 = canon z'" by auto
  with z x2 show ?case by (auto simp: rfold_append)
qed simp

lemma run_entries_forward:
  "run_entries es x = Some y \<Longrightarrow> rfold rel_op (map forward_op es) x = Inr y"
  by (induction es arbitrary: x) (auto split: if_splits sum.splits)

end
