(* ===== verification/Bipatch.thy ===== *)
theory Bipatch
  imports Apply "HOL-Library.Multiset"
begin

text \<open>
  Patches between game states: \<open>ReplayPatch\<close> and \<open>BidirectionalReplayPatch\<close>
  (\<open>replay/replay_patch.py\<close>) and the recursive comparison that fills one
  (\<open>replay/make_bipatch_between_gamestates.py\<close>).

  A patch is three parallel deques; the forward one grows at the right end and the backward one
  at the left.  The comparison takes the class table (\<open>GameObject.get_mapping\<close>: the mapped
  attribute names of a class) and the order in which a Python \<open>set\<close> of keys is iterated as
  parameters.  The main result is that the forward patch takes the original to the other object
  and the backward patch takes it back, up to Python equality.
\<close>

subsection \<open>Patches\<close>

record replay_patch =
  op_types :: "int list"
  paths :: "path list"
  patch_values :: "val list"

definition empty_patch :: replay_patch where
  "empty_patch = \<lparr>op_types = [], paths = [], patch_values = []\<rparr>"

definition is_empty :: "replay_patch \<Rightarrow> bool" where
  "is_empty p \<longleftrightarrow> length (op_types p) = 0"

record bireplay_patch =
  forward_patch :: replay_patch
  backward_patch :: replay_patch

definition new_bipatch :: bireplay_patch where
  "new_bipatch = \<lparr>forward_patch = empty_patch, backward_patch = empty_patch\<rparr>"

definition append_op :: "int \<Rightarrow> path \<Rightarrow> val \<Rightarrow> replay_patch \<Rightarrow> replay_patch" where
  "append_op t p v r =
     r\<lparr>op_types := op_types r @ [t], paths := paths r @ [p], patch_values := patch_values r @ [v]\<rparr>"

definition appendleft_op :: "int \<Rightarrow> path \<Rightarrow> val \<Rightarrow> replay_patch \<Rightarrow> replay_patch" where
  "appendleft_op t p v r =
     r\<lparr>op_types := t # op_types r, paths := p # paths r, patch_values := v # patch_values r\<rparr>"

definition rp_add :: "path \<Rightarrow> val \<Rightarrow> bireplay_patch \<Rightarrow> bireplay_patch" where
  "rp_add path new_value rp =
     \<lparr>forward_patch = append_op ADD_OPERATION path new_value (forward_patch rp),
      backward_patch = appendleft_op REMOVE_OPERATION path VNone (backward_patch rp)\<rparr>"

definition rp_replace :: "path \<Rightarrow> val \<Rightarrow> val \<Rightarrow> bireplay_patch \<Rightarrow> bireplay_patch" where
  "rp_replace path old_value new_value rp =
     \<lparr>forward_patch = append_op REPLACE_OPERATION path new_value (forward_patch rp),
      backward_patch = appendleft_op REPLACE_OPERATION path old_value (backward_patch rp)\<rparr>"

definition rp_remove :: "path \<Rightarrow> val \<Rightarrow> bireplay_patch \<Rightarrow> bireplay_patch" where
  "rp_remove path old_value rp =
     \<lparr>forward_patch = append_op REMOVE_OPERATION path VNone (forward_patch rp),
      backward_patch = appendleft_op ADD_OPERATION path old_value (backward_patch rp)\<rparr>"

definition patch_ops :: "replay_patch \<Rightarrow> operation list" where
  "patch_ops p = zip (op_types p) (zip (paths p) (patch_values p))"

subsection \<open>Comparing two objects\<close>

fun key_path :: "key \<Rightarrow> pathel result" where
  "key_path (KP p) = Inr p"
| "key_path (KEnum c p) = Inr p"
| "key_path (KOther _) = Inl TypeError"

definition make_replay_patch_simple ::
    "bireplay_patch \<Rightarrow> path \<Rightarrow> val \<Rightarrow> val \<Rightarrow> bireplay_patch result" where
  "make_replay_patch_simple rp path original other =
     Inr (if \<not> py_eq original other then rp_replace path original other rp else rp)"

function make_replay_patch_any ::
    "(string \<Rightarrow> string list) \<Rightarrow> (key list \<Rightarrow> key list) \<Rightarrow> bireplay_patch \<Rightarrow> path \<Rightarrow> val \<Rightarrow> val
     \<Rightarrow> bireplay_patch result"
  and make_replay_patch_gameobject ::
    "(string \<Rightarrow> string list) \<Rightarrow> (key list \<Rightarrow> key list) \<Rightarrow> bireplay_patch \<Rightarrow> path \<Rightarrow> val \<Rightarrow> val
     \<Rightarrow> bireplay_patch result"
  and make_replay_patch_list ::
    "(string \<Rightarrow> string list) \<Rightarrow> (key list \<Rightarrow> key list) \<Rightarrow> bireplay_patch \<Rightarrow> path \<Rightarrow> val \<Rightarrow> val
     \<Rightarrow> bireplay_patch result"
  and make_replay_patch_dict ::
    "(string \<Rightarrow> string list) \<Rightarrow> (key list \<Rightarrow> key list) \<Rightarrow> bireplay_patch \<Rightarrow> path \<Rightarrow> val \<Rightarrow> val
     \<Rightarrow> bireplay_patch result" where
  "make_replay_patch_any mapping order rp path original other =
     (if type_of original \<noteq> type_of other then Inr (rp_replace path original other rp)
      else case other of
        VObj _ _ \<Rightarrow> make_replay_patch_gameobject mapping order rp path original other
      | VList _ _ \<Rightarrow> make_replay_patch_list mapping order rp path original other
      | VDict _ _ \<Rightarrow> make_replay_patch_dict mapping order rp path original other
      | _ \<Rightarrow> if original = VNone \<and> other = VNone then Inr rp
             else make_replay_patch_simple rp path original other)"
| "make_replay_patch_gameobject mapping order rp path original other =
     (case (original, other) of
        (VObj c attrs, VObj _ attrs') \<Rightarrow>
          rfold (\<lambda>key rp.
              rbind (attr_lookup attrs key) (\<lambda>a.
              rbind (attr_lookup attrs' key) (\<lambda>b.
                make_replay_patch_any mapping order rp (path @ [PStr key]) a b)))
            (mapping c) rp
      | _ \<Rightarrow> Inl ValueError)"
| "make_replay_patch_list mapping order rp path original other =
     (case (original, other) of
        (VList _ xs, VList _ ys) \<Rightarrow>
          rbind
            (rfold (\<lambda>(i, x, y) rp.
                if \<not> py_eq x y
                then make_replay_patch_any mapping order rp (path @ [PInt (int i)]) x y
                else Inr rp)
              (enumerate 0 (zip xs ys)) rp)
            (\<lambda>rp.
               if length xs < length ys
               then Inr (fold (\<lambda>i. rp_add (path @ [PInt (int i)]) (ys ! i))
                      [length xs..<length ys] rp)
               else if length ys < length xs
               then Inr (fold (\<lambda>i. rp_remove (path @ [PInt (int i)]) (xs ! i))
                      (rev [length ys..<length xs]) rp)
               else Inr rp)
      | _ \<Rightarrow> Inl TypeError)"
| "make_replay_patch_dict mapping order rp path original other =
     (case (original, other) of
        (VDict _ xs, VDict _ ys) \<Rightarrow>
          rbind
            (rfold (\<lambda>(item_key, item_value) (rp, removed_keys).
                rbind (key_path item_key) (\<lambda>p.
                  let removed_keys' = removeAll item_key removed_keys in
                  case dict_get xs item_key of
                    None \<Rightarrow> Inr (rp_add (path @ [p]) item_value rp, removed_keys')
                  | Some old \<Rightarrow>
                      if \<not> py_eq old item_value
                      then rbind (make_replay_patch_any mapping order rp (path @ [p]) old item_value)
                             (\<lambda>rp. Inr (rp, removed_keys'))
                      else Inr (rp, removed_keys')))
              ys (rp, map fst xs))
            (\<lambda>(rp, removed_keys).
               rfold (\<lambda>removed_key rp.
                   rbind (key_path removed_key) (\<lambda>p.
                   rbind (dict_lookup xs removed_key) (\<lambda>old.
                     Inr (rp_remove (path @ [p]) old rp))))
                 (order removed_keys) rp)
      | _ \<Rightarrow> Inl TypeError)"
  by pat_completeness auto
termination
  apply (relation "measure (case_sum
      (case_sum (\<lambda>(m, o', rp, path, a, b). 2 * size a + 1) (\<lambda>(m, o', rp, path, a, b). 2 * size a))
      (case_sum (\<lambda>(m, o', rp, path, a, b). 2 * size a) (\<lambda>(m, o', rp, path, a, b). 2 * size a)))")
  apply (auto dest: size_attr size_item size_elem)
  done

definition make_bireplay_patch ::
    "(string \<Rightarrow> string list) \<Rightarrow> (key list \<Rightarrow> key list) \<Rightarrow> val \<Rightarrow> val \<Rightarrow> bireplay_patch result" where
  "make_bireplay_patch mapping order original other =
     make_replay_patch_any mapping order new_bipatch [] original other"

declare make_replay_patch_any.simps [simp del] make_replay_patch_gameobject.simps [simp del]
  make_replay_patch_list.simps [simp del] make_replay_patch_dict.simps [simp del]

subsection \<open>Patches as sequences of entries\<close>

fun rp_record :: "entry \<Rightarrow> bireplay_patch \<Rightarrow> bireplay_patch" where
  "rp_record (KAdd new, p) rp = rp_add p new rp"
| "rp_record (KReplace old new, p) rp = rp_replace p old new rp"
| "rp_record (KRemove old, p) rp = rp_remove p old rp"

definition rp_extend :: "entry list \<Rightarrow> bireplay_patch \<Rightarrow> bireplay_patch" where
  "rp_extend es rp = fold rp_record es rp"

definition patch_wf :: "replay_patch \<Rightarrow> bool" where
  "patch_wf p \<longleftrightarrow> length (paths p) = length (op_types p) \<and> length (patch_values p) = length (op_types p)"

definition bipatch_wf :: "bireplay_patch \<Rightarrow> bool" where
  "bipatch_wf rp \<longleftrightarrow> patch_wf (forward_patch rp) \<and> patch_wf (backward_patch rp)"

lemma rp_extend_simps [simp]:
  "rp_extend [] rp = rp" "rp_extend (e # es) rp = rp_extend es (rp_record e rp)"
  "rp_extend (es @ es') rp = rp_extend es' (rp_extend es rp)"
  by (simp_all add: rp_extend_def)

lemmas rp_defs = rp_add_def rp_replace_def rp_remove_def append_op_def appendleft_op_def

lemma rp_record_wf: "bipatch_wf rp \<Longrightarrow> bipatch_wf (rp_record e rp)"
  by (cases e rule: forward_op.cases) (auto simp: bipatch_wf_def patch_wf_def rp_defs)

lemma rp_extend_wf: "bipatch_wf rp \<Longrightarrow> bipatch_wf (rp_extend es rp)"
  by (induction es arbitrary: rp) (auto simp: rp_record_wf)

lemma bipatch_wf_new [simp]: "bipatch_wf new_bipatch"
  by (simp add: bipatch_wf_def patch_wf_def new_bipatch_def empty_patch_def)

lemma patch_ops_record:
  assumes "bipatch_wf rp"
  shows "patch_ops (forward_patch (rp_record e rp)) = patch_ops (forward_patch rp) @ [forward_op e]"
    and "patch_ops (backward_patch (rp_record e rp)) = backward_op e # patch_ops (backward_patch rp)"
  using assms
  by (cases e rule: forward_op.cases; simp add: bipatch_wf_def patch_wf_def rp_defs patch_ops_def)+

lemma patch_ops_extend:
  assumes "bipatch_wf rp"
  shows "patch_ops (forward_patch (rp_extend es rp)) = patch_ops (forward_patch rp) @ map forward_op es"
    and "patch_ops (backward_patch (rp_extend es rp)) =
      rev (map backward_op es) @ patch_ops (backward_patch rp)"
  using assms by (induction es arbitrary: rp) (simp_all add: patch_ops_record rp_record_wf)

lemma patch_ops_new:
  "patch_ops (forward_patch (rp_extend es new_bipatch)) = map forward_op es"
  "patch_ops (backward_patch (rp_extend es new_bipatch)) = rev (map backward_op es)"
  by (simp_all add: patch_ops_extend) (simp_all add: patch_ops_def new_bipatch_def empty_patch_def)

subsection \<open>The contract of a recorder\<close>

text \<open>
  A recorder compares an object with another and writes the differences down below a path.  What
  it owes: the entries it adds to the patch, relative to the path, run on the object it started
  from and end in an object equal to the other; between containers of one type every entry is
  about something inside the container.
\<close>

definition proper :: "entry list \<Rightarrow> bool" where
  "proper es \<longleftrightarrow> (\<forall>e \<in> set es. snd e \<noteq> [])"

lemma proper_simps [simp]:
  "proper []" "proper (e # es) \<longleftrightarrow> snd e \<noteq> [] \<and> proper es" "proper (es @ es') \<longleftrightarrow> proper es \<and> proper es'"
  "proper (map (under [p]) es)"
  by (auto simp: proper_def under_def)

definition recorded :: "path \<Rightarrow> bireplay_patch \<Rightarrow> bireplay_patch \<Rightarrow> val \<Rightarrow> val \<Rightarrow> bool" where
  "recorded path rp rp' a b \<longleftrightarrow>
     (\<exists>es r. rp' = rp_extend (map (under path) es) rp \<and> run_entries es a = Some r \<and> canon r = canon b \<and>
        (type_of a = type_of b \<and> is_container a \<longrightarrow> proper es))"

lemma under_nil: "map (under []) es = es"
  by (induction es) simp_all

lemma recorded_none: "canon a = canon b \<Longrightarrow> recorded path rp rp a b"
  unfolding recorded_def by (rule exI [of _ "[]"]) simp

lemma recorded_replace:
  "type_of a \<noteq> type_of b \<or> \<not> is_container a \<Longrightarrow> recorded path rp (rp_replace path a b rp) a b"
  unfolding recorded_def by (rule exI [of _ "[(KReplace a b, [])]"]) (auto simp: rel_op_def)

text \<open>At the root every recorded path is non-empty, and the walk from the root is meant.\<close>

lemma rel_op_proper: "p \<noteq> [] \<Longrightarrow> rel_op (t, p, v) = apply_op (t, p, v)"
  by (rule ext) (simp add: rel_op_def split: list.splits)

lemma rfold_rel_op_proper:
  "\<forall>(t, p, v) \<in> set ops. p \<noteq> [] \<Longrightarrow> rfold rel_op ops x = apply_ops ops x"
  unfolding apply_ops_def by (rule rfold_cong) (auto simp: rel_op_proper)

lemma run_entries_patch:
  assumes "run_entries es x = Some y" and "proper es"
  shows "apply_ops (map forward_op es) x = Inr y"
    and "\<exists>x'. apply_ops (rev (map backward_op es)) y = Inr x' \<and> canon x' = canon x"
proof -
  have f: "\<forall>(t, p, v) \<in> set (map forward_op es). p \<noteq> []"
    using assms(2) by (auto simp: proper_def forward_op.simps elim!: forward_op.elims)
  have b: "\<forall>(t, p, v) \<in> set (rev (map backward_op es)). p \<noteq> []"
    using assms(2) by (auto simp: proper_def backward_op.simps elim!: backward_op.elims)
  show "apply_ops (map forward_op es) x = Inr y"
    using run_entries_forward [OF assms(1)] rfold_rel_op_proper [OF f] by simp
  show "\<exists>x'. apply_ops (rev (map backward_op es)) y = Inr x' \<and> canon x' = canon x"
    using run_entries_backward [OF assms(1)] rfold_rel_op_proper [OF b] by simp
qed

subsection \<open>Loops over the children\<close>

lemma recorded_under:
  assumes "recorded (path @ [p]) rp rp' c d" and "kid x p c"
  obtains es c' where "rp' = rp_extend (map (under path) es) rp"
    and "run_entries es x = Some (set_child x p c')" and "canon c' = canon d" and "proper es"
proof -
  from assms(1) obtain es c' where "rp' = rp_extend (map (under (path @ [p])) es) rp"
    "run_entries es c = Some c'" "canon c' = canon d" by (auto simp: recorded_def)
  then show ?thesis
    using that [of "map (under [p]) es" c'] run_entries_under [OF assms(2)] by simp
qed

lemma kid_obj: "map_of attrs n = Some v \<Longrightarrow> kid (VObj c attrs) (PStr n) v"
  by (simp add: kid_def is_container_def child_ref_def)

lemma kid_dict: "dict_get kvs (KP p) = Some v \<Longrightarrow> kid (VDict c kvs) p v"
  by (simp add: kid_def is_container_def child_ref_def)

lemma kid_list: "i < length xs \<Longrightarrow> kid (VList c xs) (PInt (int i)) (xs ! i)"
  by (simp add: kid_def is_container_def child_ref_def)

lemma dict_keys_dict_set: "k \<in> fst ` set d \<Longrightarrow> map fst (dict_set d k v) = map fst d"
  by (induction d) auto

lemma obj_loop:
  assumes "distinct ks"
    and "\<And>n. n \<in> set ks \<Longrightarrow> map_of cur n = map_of attrs n"
    and "\<And>n rp. n \<in> set ks \<Longrightarrow> \<exists>a b rp'. map_of attrs n = Some a \<and> map_of attrs' n = Some b \<and>
           f n rp = Inr rp' \<and> recorded (path @ [PStr n]) rp rp' a b"
  shows "\<exists>es r. rfold f ks rp = Inr (rp_extend (map (under path) es) rp) \<and> proper es \<and>
    run_entries es (VObj c cur) = Some (VObj c r) \<and> map fst r = map fst cur \<and>
    (\<forall>n \<in> set ks. map_option canon (map_of r n) = map_option canon (map_of attrs' n)) \<and>
    (\<forall>n. n \<notin> set ks \<longrightarrow> map_of r n = map_of cur n)"
  using assms
proof (induction ks arbitrary: cur rp)
  case Nil
  then show ?case by (intro exI [of _ "[]"] exI [of _ cur]) auto
next
  case (Cons n ks)
  from Cons.prems(3) [of n rp] obtain a b rp1 where a: "map_of attrs n = Some a"
    and b: "map_of attrs' n = Some b" and rp1: "f n rp = Inr rp1"
    and rec: "recorded (path @ [PStr n]) rp rp1 a b" by auto
  have k: "kid (VObj c cur) (PStr n) a" using Cons.prems(2) a by (intro kid_obj) auto
  from recorded_under [OF rec k] obtain es a' where es: "rp1 = rp_extend (map (under path) es) rp"
    "run_entries es (VObj c cur) = Some (VObj c (dict_set cur n a'))" "canon a' = canon b" "proper es"
    by (auto simp: set_child_def)
  let ?cur = "dict_set cur n a'"
  have "distinct ks" and "\<And>m. m \<in> set ks \<Longrightarrow> map_of ?cur m = map_of attrs m"
    using Cons.prems(1,2) by auto
  from Cons.IH [OF this, of rp1] Cons.prems(3) obtain es' r where
    r: "rfold f ks rp1 = Inr (rp_extend (map (under path) es') rp1)"
    "run_entries es' (VObj c ?cur) = Some (VObj c r)" "map fst r = map fst ?cur" "proper es'"
    "\<forall>m \<in> set ks. map_option canon (map_of r m) = map_option canon (map_of attrs' m)"
    "\<forall>m. m \<notin> set ks \<longrightarrow> map_of r m = map_of ?cur m" by (auto simp del: dict_get_set)
  have "map fst ?cur = map fst cur"
    using Cons.prems(2) [of n] a by (intro dict_keys_dict_set) (auto dest: dict_get_in_keys)
  with r es rp1 b Cons.prems(1) show ?case
    by (intro exI [of _ "es @ es'"] exI [of _ r]) (auto simp: run_entries_append)
qed

lemma list_loop:
  assumes "\<And>i rp. i < length xs \<Longrightarrow> i < length ys \<Longrightarrow>
      \<exists>rp'. f (length pre + i, xs ! i, ys ! i) rp = Inr rp' \<and>
            recorded (path @ [PInt (int (length pre + i))]) rp rp' (xs ! i) (ys ! i)"
  shows "\<exists>es zs. rfold f (enumerate (length pre) (zip xs ys)) rp = Inr (rp_extend (map (under path) es) rp) \<and> proper es \<and>
    run_entries es (VList c (pre @ xs)) = Some (VList c (pre @ zs)) \<and> length zs = length xs \<and>
    map canon (take (length ys) zs) = map canon (take (length xs) ys) \<and>
    drop (length ys) zs = drop (length ys) xs"
  using assms
proof (induction xs arbitrary: ys pre rp)
  case Nil
  then show ?case by (intro exI [of _ "[]"]) simp
next
  case (Cons x xs)
  show ?case
  proof (cases ys)
    case Nil
    then show ?thesis by (intro exI [of _ "[]"] exI [of _ "x # xs"]) auto
  next
    case ys: (Cons y ys')
    from Cons.prems [of 0 rp] ys obtain rp1 where rp1: "f (length pre, x, y) rp = Inr rp1"
      and rec: "recorded (path @ [PInt (int (length pre))]) rp rp1 x y" by auto
    have k: "kid (VList c (pre @ x # xs)) (PInt (int (length pre))) x"
      using kid_list [of "length pre" "pre @ x # xs" c] by simp
    from recorded_under [OF rec k] obtain es z where es: "rp1 = rp_extend (map (under path) es) rp"
      "run_entries es (VList c (pre @ x # xs)) = Some (VList c ((pre @ [z]) @ xs))" "canon z = canon y"
      "proper es"
      by (auto simp: set_child_def)
    have "\<exists>es' zs. rfold f (enumerate (length (pre @ [z])) (zip xs ys')) rp1 =
        Inr (rp_extend (map (under path) es') rp1) \<and> proper es' \<and>
      run_entries es' (VList c ((pre @ [z]) @ xs)) = Some (VList c ((pre @ [z]) @ zs)) \<and>
      length zs = length xs \<and> map canon (take (length ys') zs) = map canon (take (length xs) ys') \<and>
      drop (length ys') zs = drop (length ys') xs"
    proof (rule Cons.IH)
      fix i rp
      assume "i < length xs" "i < length ys'"
      then show "\<exists>rp'. f (length (pre @ [z]) + i, xs ! i, ys' ! i) rp = Inr rp' \<and>
          recorded (path @ [PInt (int (length (pre @ [z]) + i))]) rp rp' (xs ! i) (ys' ! i)"
        using Cons.prems [of "Suc i" rp] ys by simp
    qed
    then obtain es' zs where
      zs: "rfold f (enumerate (length (pre @ [z])) (zip xs ys')) rp1 =
        Inr (rp_extend (map (under path) es') rp1)" "proper es'"
      "run_entries es' (VList c ((pre @ [z]) @ xs)) = Some (VList c ((pre @ [z]) @ zs))"
      "length zs = length xs" "map canon (take (length ys') zs) = map canon (take (length xs) ys')"
      "drop (length ys') zs = drop (length ys') xs" by (elim exE conjE)
    have 1: "rfold f (enumerate (length pre) (zip (x # xs) ys)) rp =
        Inr (rp_extend (map (under path) (es @ es')) rp)"
      using zs(1) rp1 ys es(1) by simp
    have 2: "run_entries (es @ es') (VList c (pre @ x # xs)) = Some (VList c (pre @ z # zs))"
      using zs(3) es(2) by (simp add: run_entries_append)
    show ?thesis
      using 1 2 zs(2,4-6) es(3,4) ys by (intro exI [of _ "es @ es'"] exI [of _ "z # zs"]) simp
  qed
qed

lemma list_add_loop:
  "fold (\<lambda>i. rp_add (path @ [PInt (int i)]) (ys ! i)) [length zs..<length ys] rp =
     rp_extend (map (under path) (map (\<lambda>i. (KAdd (ys ! i), [PInt (int i)])) [length zs..<length ys])) rp"
proof -
  have "rp_record (KAdd v, p) = rp_add p v" for v p by (rule ext) simp
  then show ?thesis by (simp add: rp_extend_def fold_map comp_def)
qed

lemma list_remove_loop:
  "fold (\<lambda>i. rp_remove (path @ [PInt (int i)]) (xs ! i)) is rp =
     rp_extend (map (under path) (map (\<lambda>i. (KRemove (xs ! i), [PInt (int i)])) is)) rp"
proof -
  have "rp_record (KRemove v, p) = rp_remove p v" for v p by (rule ext) simp
  then show ?thesis by (simp add: rp_extend_def fold_map comp_def)
qed

lemma run_adds:
  "length zs \<le> length ys \<Longrightarrow>
   run_entries (map (\<lambda>i. (KAdd (ys ! i), [PInt (int i)])) [length zs..<length ys]) (VList c zs) =
     Some (VList c (zs @ drop (length zs) ys))"
proof (induction "length ys - length zs" arbitrary: zs)
  case (Suc n)
  then have l: "length zs < length ys" by simp
  have "run_entries (map (\<lambda>i. (KAdd (ys ! i), [PInt (int i)])) [Suc (length zs)..<length ys])
      (VList c (zs @ [ys ! length zs])) = Some (VList c ((zs @ [ys ! length zs]) @ drop (Suc (length zs)) ys))"
    using Suc.hyps(1) [of "zs @ [ys ! length zs]"] Suc.hyps(2) l by simp
  then show ?case
    using l by (simp add: upt_conv_Cons addable_def rel_op_def apply_operation_def op_codes apply_add_def
        Cons_nth_drop_Suc)
qed simp

lemma run_removes:
  "n \<le> length zs \<Longrightarrow> drop n zs = drop n xs \<Longrightarrow> length zs = length xs \<Longrightarrow>
   run_entries (map (\<lambda>i. (KRemove (xs ! i), [PInt (int i)])) (rev [n..<length xs])) (VList c zs) =
     Some (VList c (take n zs))"
proof (induction "length zs - n" arbitrary: zs xs)
  case 0
  then show ?case by simp
next
  case (Suc m)
  then have l: "n < length zs" by simp
  define k where "k = length zs - 1"
  have k: "n \<le> k" "length xs = Suc k" "length zs = Suc k" using l Suc.prems by (auto simp: k_def)
  have same: "zs ! k = xs ! k"
    using arg_cong [OF Suc.prems(2), of "\<lambda>l. l ! (k - n)"] k by simp
  have u: "rev [n..<length xs] = k # rev [n..<k]" using k by (simp add: upt_Suc)
  have step: "rel_op (forward_op (KRemove (xs ! k), [PInt (int k)])) (VList c zs) = Inr (VList c (take k zs))"
    using k by (simp add: rel_op_def apply_operation_def op_codes apply_remove_def list_pop_def)
  have ok: "entry_ok (KRemove (xs ! k), [PInt (int k)]) (VList c zs)"
    using kid_list [of k zs c] same k by (auto simp: removable_def)
  have "run_entries (map (\<lambda>i. (KRemove (take k xs ! i), [PInt (int i)])) (rev [n..<length (take k xs)]))
      (VList c (take k zs)) = Some (VList c (take n (take k zs)))"
    using Suc k by (intro Suc.hyps(1)) (auto simp: drop_take)
  moreover have "map (\<lambda>i. (KRemove (take k xs ! i), [PInt (int i)])) (rev [n..<length (take k xs)]) =
      map (\<lambda>i. (KRemove (xs ! i), [PInt (int i)])) (rev [n..<k])"
    using k by (auto simp: min_def)
  ultimately have "run_entries (map (\<lambda>i. (KRemove (xs ! i), [PInt (int i)])) (rev [n..<k]))
      (VList c (take k zs)) = Some (VList c (take n zs))"
    using k by (metis min.absorb2 min.absorb4 lessI take_take min.orderE)
  then show ?case using step ok u by simp
qed

lemma dict_loop:
  assumes "dict_wf ys" and "\<And>k. k \<in> fst ` set ys \<Longrightarrow> map_of cur k = map_of xs k"
    and "\<And>k v rp rem. (k, v) \<in> set ys \<Longrightarrow> \<exists>p rp'. k = KP p \<and> f (k, v) (rp, rem) = Inr (rp', removeAll k rem) \<and>
      (case map_of xs k of None \<Rightarrow> rp' = rp_add (path @ [p]) v rp
       | Some old \<Rightarrow> recorded (path @ [p]) rp rp' old v)"
  shows "\<exists>es r. rfold f ys (rp, rem) =
      Inr (rp_extend (map (under path) es) rp, filter (\<lambda>k. k \<notin> fst ` set ys) rem) \<and> proper es \<and>
    run_entries es (VDict c cur) = Some (VDict c r) \<and>
    (\<forall>(k, v) \<in> set ys. map_option canon (map_of r k) = Some (canon v)) \<and>
    (\<forall>k. k \<notin> fst ` set ys \<longrightarrow> map_of r k = map_of cur k)"
  using assms
proof (induction ys arbitrary: cur rp rem)
  case Nil
  then show ?case by (intro exI [of _ "[]"] exI [of _ cur]) simp
next
  case (Cons kv ys)
  obtain k v where kv: "kv = (k, v)" by (cases kv)
  from Cons.prems(3) [of k v rp rem] kv obtain p rp1 where k: "k = KP p"
    and f: "f (k, v) (rp, rem) = Inr (rp1, removeAll k rem)"
    and body: "case map_of xs k of None \<Rightarrow> rp1 = rp_add (path @ [p]) v rp
       | Some old \<Rightarrow> recorded (path @ [p]) rp rp1 old v" by auto
  have cur: "map_of cur k = map_of xs k" using Cons.prems(2) kv by simp
  have "\<exists>es w. rp1 = rp_extend (map (under path) es) rp \<and> canon w = canon v \<and> proper es \<and>
      run_entries es (VDict c cur) = Some (VDict c (dict_set cur k w))"
  proof (cases "map_of xs k")
    case None
    with cur have "k \<notin> fst ` set cur" by (metis map_of_eq_None_iff)
    with None body k show ?thesis
      by (intro exI [of _ "[(KAdd v, [p])]"] exI [of _ v])
        (simp add: addable_def rel_op_def apply_operation_def op_codes apply_add_def)
  next
    case (Some old)
    with body have "recorded (path @ [p]) rp rp1 old v" by simp
    moreover have "kid (VDict c cur) p old" using Some cur k by (intro kid_dict) simp
    ultimately obtain es w where "rp1 = rp_extend (map (under path) es) rp"
      "run_entries es (VDict c cur) = Some (set_child (VDict c cur) p w)" "canon w = canon v" "proper es"
      by (rule recorded_under)
    with k show ?thesis by (auto simp: set_child_def)
  qed
  then obtain es w where es: "rp1 = rp_extend (map (under path) es) rp" "canon w = canon v" "proper es"
    "run_entries es (VDict c cur) = Some (VDict c (dict_set cur k w))" by blast
  have fresh: "k \<notin> fst ` set ys" and wf: "dict_wf ys" using Cons.prems(1) kv by auto
  have "\<exists>es' r. rfold f ys (rp1, removeAll k rem) =
      Inr (rp_extend (map (under path) es') rp1, filter (\<lambda>k. k \<notin> fst ` set ys) (removeAll k rem)) \<and> proper es' \<and>
    run_entries es' (VDict c (dict_set cur k w)) = Some (VDict c r) \<and>
    (\<forall>(k, v) \<in> set ys. map_option canon (map_of r k) = Some (canon v)) \<and>
    (\<forall>k'. k' \<notin> fst ` set ys \<longrightarrow> map_of r k' = map_of (dict_set cur k w) k')"
    by (rule Cons.IH [OF wf]) (use Cons.prems(2,3) kv fresh in auto)
  then obtain es' r where r: "rfold f ys (rp1, removeAll k rem) =
      Inr (rp_extend (map (under path) es') rp1, filter (\<lambda>k. k \<notin> fst ` set ys) (removeAll k rem))" "proper es'"
    "run_entries es' (VDict c (dict_set cur k w)) = Some (VDict c r)"
    "\<forall>(k, v) \<in> set ys. map_option canon (map_of r k) = Some (canon v)"
    "\<forall>k'. k' \<notin> fst ` set ys \<longrightarrow> map_of r k' = map_of (dict_set cur k w) k'"
    by (elim exE conjE)
  have "filter (\<lambda>k. k \<notin> fst ` set ys) (removeAll k rem) = filter (\<lambda>k. k \<notin> fst ` set (kv # ys)) rem"
    using kv by (auto simp: removeAll_filter_not_eq intro: filter_cong)
  then have 1: "rfold f (kv # ys) (rp, rem) =
      Inr (rp_extend (map (under path) (es @ es')) rp, filter (\<lambda>k. k \<notin> fst ` set (kv # ys)) rem)"
    using r(1) f es(1) kv by simp
  have 2: "run_entries (es @ es') (VDict c cur) = Some (VDict c r)"
    using r(3) es(4) by (simp add: run_entries_append)
  have 3: "\<forall>(k, v) \<in> set (kv # ys). map_option canon (map_of r k) = Some (canon v)"
    using r(4,5) kv fresh es(2) by auto
  have 4: "\<forall>k'. k' \<notin> fst ` set (kv # ys) \<longrightarrow> map_of r k' = map_of cur k'"
    using r(5) kv by auto
  show ?case using 1 2 3 4 es(3) r(2) by (intro exI [of _ "es @ es'"] exI [of _ r]) simp
qed

lemma dict_remove_loop:
  assumes "distinct ks"
    and "\<And>k. k \<in> set ks \<Longrightarrow> \<exists>p v. k = KP p \<and> map_of xs k = Some v \<and> map_of cur k = Some v"
    and "\<And>p v rp. KP p \<in> set ks \<Longrightarrow> map_of xs (KP p) = Some v \<Longrightarrow> f (KP p) rp = Inr (rp_remove (path @ [p]) v rp)"
  shows "\<exists>es r. rfold f ks rp = Inr (rp_extend (map (under path) es) rp) \<and> proper es \<and>
    run_entries es (VDict c cur) = Some (VDict c r) \<and>
    (\<forall>k. map_of r k = (if k \<in> set ks then None else map_of cur k))"
  using assms
proof (induction ks arbitrary: cur rp)
  case Nil
  then show ?case by (intro exI [of _ "[]"] exI [of _ cur]) simp
next
  case (Cons k ks)
  from Cons.prems(2) [of k] obtain p v where k: "k = KP p" "map_of xs k = Some v" "map_of cur k = Some v"
    by auto
  let ?e = "(KRemove v, [p])"
  have f: "f k rp = Inr (rp_record (under path ?e) rp)" using Cons.prems(3) k by simp
  have "\<exists>es r. rfold f ks (rp_record (under path ?e) rp) =
      Inr (rp_extend (map (under path) es) (rp_record (under path ?e) rp)) \<and> proper es \<and>
    run_entries es (VDict c (dict_del cur k)) = Some (VDict c r) \<and>
    (\<forall>k'. map_of r k' = (if k' \<in> set ks then None else map_of (dict_del cur k) k'))"
    by (rule Cons.IH) (use Cons.prems in auto)
  then obtain es r where r: "rfold f ks (rp_record (under path ?e) rp) =
      Inr (rp_extend (map (under path) es) (rp_record (under path ?e) rp))" "proper es"
    "run_entries es (VDict c (dict_del cur k)) = Some (VDict c r)"
    "\<forall>k'. map_of r k' = (if k' \<in> set ks then None else map_of (dict_del cur k) k')"
    by (elim exE conjE)
  have "run_entries (?e # es) (VDict c cur) = Some (VDict c r)"
    using kid_dict [of cur p v c] k r(3)
    by (auto simp: removable_def rel_op_def apply_operation_def op_codes apply_remove_def dict_pop_def)
  moreover have "rfold f (k # ks) rp = Inr (rp_extend (map (under path) (?e # es)) rp)"
    using r(1) f by simp
  ultimately show ?case using r(2,4) by (intro exI [of _ "?e # es"] exI [of _ r]) simp
qed

subsection \<open>The comparison is a recorder\<close>

text \<open>Objects the recorder is meant for: dict keys are plain strings and integers, and the
  attributes of a \<open>GameObject\<close> are those its class maps.\<close>

fun plain :: "(string \<Rightarrow> string list) \<Rightarrow> val \<Rightarrow> bool" where
  "plain m (VList c xs) = list_all (plain m) xs"
| "plain m (VDict c kvs) =
     (list_all (\<lambda>(k, v). case k of KP _ \<Rightarrow> True | _ \<Rightarrow> False) kvs \<and> list_all (\<lambda>(k, v). plain m v) kvs)"
| "plain m (VObj c attrs) = (map fst attrs = m c \<and> list_all (\<lambda>(k, v). plain m v) attrs)"
| "plain m _ = True"

definition state_ok :: "(string \<Rightarrow> string list) \<Rightarrow> val \<Rightarrow> bool" where
  "state_ok m v \<longleftrightarrow> wf_val v \<and> plain m v"

lemma state_ok_elem: "state_ok m (VList c xs) \<Longrightarrow> i < length xs \<Longrightarrow> state_ok m (xs ! i)"
  by (auto simp: state_ok_def list_all_length)

lemma state_ok_item: "state_ok m (VDict c kvs) \<Longrightarrow> dict_get kvs k = Some v \<Longrightarrow> state_ok m v"
  and state_ok_attr: "state_ok m (VObj c attrs) \<Longrightarrow> map_of attrs n = Some v \<Longrightarrow> state_ok m v"
  by (auto simp: state_ok_def list_all_iff dest!: map_of_SomeD)

lemma state_ok_key: "state_ok m (VDict c kvs) \<Longrightarrow> k \<in> fst ` set kvs \<Longrightarrow> \<exists>p. k = KP p"
  by (auto simp: state_ok_def list_all_iff split: key.splits)

lemma py_eq_state: "state_ok m a \<Longrightarrow> state_ok m b \<Longrightarrow> py_eq a b \<longleftrightarrow> canon a = canon b"
  by (simp add: state_ok_def py_eq_iff_canon)

lemma canon_attrs_eqI:
  assumes "map fst xs = map fst ys" and "distinct (map fst xs)"
    and "\<And>n. n \<in> fst ` set xs \<Longrightarrow> map_option canon (map_of xs n) = map_option canon (map_of ys n)"
  shows "map (map_prod id canon) xs = map (map_prod id canon) ys"
proof (rule nth_equalityI)
  show len: "length (map (map_prod id canon) xs) = length (map (map_prod id canon) ys)"
    using assms(1) by (metis length_map)
  fix i
  assume i: "i < length (map (map_prod id canon) xs)"
  then have k: "fst (xs ! i) = fst (ys ! i)" using assms(1) len by (metis length_map nth_map)
  have "map_of xs (fst (xs ! i)) = Some (snd (xs ! i))"
    using assms(2) i by (intro map_of_is_SomeI) auto
  moreover have "map_of ys (fst (xs ! i)) = Some (snd (ys ! i))"
    using assms(1,2) i len k by (intro map_of_is_SomeI) auto
  ultimately have "canon (snd (xs ! i)) = canon (snd (ys ! i))"
    using assms(3) [of "fst (xs ! i)"] i by simp
  then show "map (map_prod id canon) xs ! i = map (map_prod id canon) ys ! i"
    using i len k by (simp add: prod_eq_iff)
qed

definition records :: "(string \<Rightarrow> string list) \<Rightarrow> (key list \<Rightarrow> key list) \<Rightarrow> val \<Rightarrow> val \<Rightarrow> bool" where
  "records m order a b \<longleftrightarrow> (\<forall>rp path. \<exists>rp'.
     make_replay_patch_any m order rp path a b = Inr rp' \<and> recorded path rp rp' a b)"

lemma recordsE:
  assumes "records m order a b"
  obtains rp' where "make_replay_patch_any m order rp path a b = Inr rp'" "recorded path rp rp' a b"
  using assms by (auto simp: records_def)

lemma gameobject_records:
  assumes "state_ok m (VObj c xs)" "state_ok m (VObj c ys)"
    and IH: "\<And>n a b. map_of xs n = Some a \<Longrightarrow> map_of ys n = Some b \<Longrightarrow> records m order a b"
  shows "records m order (VObj c xs) (VObj c ys)"
  unfolding records_def
proof (intro allI)
  fix rp path
  let ?f = "\<lambda>key rp. rbind (attr_lookup xs key) (\<lambda>a. rbind (attr_lookup ys key) (\<lambda>b.
      make_replay_patch_any m order rp (path @ [PStr key]) a b))"
  have keys: "map fst xs = m c" "map fst ys = m c" "distinct (m c)"
    using assms(1,2) by (auto simp: state_ok_def)
  have body: "\<exists>a b rp'. map_of xs n = Some a \<and> map_of ys n = Some b \<and>
      ?f n rp = Inr rp' \<and> recorded (path @ [PStr n]) rp rp' a b" if "n \<in> set (m c)" for n rp
  proof -
    have "n \<in> fst ` set xs" "n \<in> fst ` set ys" using that keys by (metis list.set_map)+
    then obtain a b where ab: "map_of xs n = Some a" "map_of ys n = Some b"
      by (metis dict_get_not_None_iff not_None_eq)
    from IH [OF ab] obtain rp' where "make_replay_patch_any m order rp (path @ [PStr n]) a b = Inr rp'"
      "recorded (path @ [PStr n]) rp rp' a b" by (rule recordsE)
    then show ?thesis using ab by (simp add: attr_lookup_def)
  qed
  have "\<exists>es r. rfold ?f (m c) rp = Inr (rp_extend (map (under path) es) rp) \<and> proper es \<and>
    run_entries es (VObj c xs) = Some (VObj c r) \<and> map fst r = map fst xs \<and>
    (\<forall>n \<in> set (m c). map_option canon (map_of r n) = map_option canon (map_of ys n)) \<and>
    (\<forall>n. n \<notin> set (m c) \<longrightarrow> map_of r n = map_of xs n)"
    using keys(3) refl body by (rule obj_loop)
  then obtain es r where r: "rfold ?f (m c) rp = Inr (rp_extend (map (under path) es) rp)"
    "run_entries es (VObj c xs) = Some (VObj c r)" "map fst r = m c" "proper es"
    "\<forall>n \<in> set (m c). map_option canon (map_of r n) = map_option canon (map_of ys n)"
    unfolding keys by (elim exE conjE)
  have "canon (VObj c r) = canon (VObj c ys)"
    using canon_attrs_eqI [of r ys] r(3,5) keys by (metis canon.simps(11) list.set_map)
  moreover have eq: "make_replay_patch_any m order rp path (VObj c xs) (VObj c ys) =
      Inr (rp_extend (map (under path) es) rp)"
    using r(1) by (simp add: make_replay_patch_any.simps [of m order rp path "VObj c xs"]
        make_replay_patch_gameobject.simps)
  ultimately show "\<exists>rp'. make_replay_patch_any m order rp path (VObj c xs) (VObj c ys) = Inr rp' \<and>
      recorded path rp rp' (VObj c xs) (VObj c ys)"
    using r(2,4) unfolding recorded_def eq by (intro exI conjI) auto
qed

lemma list_records:
  assumes "state_ok m (VList c xs)" "state_ok m (VList c ys)"
    and IH: "\<And>i. i < length xs \<Longrightarrow> i < length ys \<Longrightarrow> records m order (xs ! i) (ys ! i)"
  shows "records m order (VList c xs) (VList c ys)"
  unfolding records_def
proof (intro allI)
  fix rp path
  let ?f = "\<lambda>(i, x, y) rp. if \<not> py_eq x y
      then make_replay_patch_any m order rp (path @ [PInt (int i)]) x y else Inr rp"
  have body: "\<exists>rp'. ?f (length ([]::val list) + i, xs ! i, ys ! i) rp = Inr rp' \<and>
      recorded (path @ [PInt (int (length ([]::val list) + i))]) rp rp' (xs ! i) (ys ! i)"
    if "i < length xs" "i < length ys" for i rp
    using recordsE [OF IH [OF that], of rp "path @ [PInt (int i)]"] that
      py_eq_state [OF state_ok_elem [OF assms(1)] state_ok_elem [OF assms(2)], of i i]
    by (auto intro: recorded_none)
  have "\<exists>es zs. rfold ?f (enumerate (length ([]::val list)) (zip xs ys)) rp = Inr (rp_extend (map (under path) es) rp) \<and> proper es \<and>
    run_entries es (VList c ([] @ xs)) = Some (VList c ([] @ zs)) \<and> length zs = length xs \<and>
    map canon (take (length ys) zs) = map canon (take (length xs) ys) \<and>
    drop (length ys) zs = drop (length ys) xs"
    using body by (rule list_loop)
  then obtain es zs where zs: "rfold ?f (enumerate 0 (zip xs ys)) rp = Inr (rp_extend (map (under path) es) rp)"
    "run_entries es (VList c xs) = Some (VList c zs)" "length zs = length xs" "proper es"
    "map canon (take (length ys) zs) = map canon (take (length xs) ys)"
    "drop (length ys) zs = drop (length ys) xs" by auto
  have unfold: "make_replay_patch_any m order rp path (VList c xs) (VList c ys) =
      rbind (rfold ?f (enumerate 0 (zip xs ys)) rp)
        (\<lambda>rp. if length xs < length ys
           then Inr (fold (\<lambda>i. rp_add (path @ [PInt (int i)]) (ys ! i)) [length xs..<length ys] rp)
           else if length ys < length xs
           then Inr (fold (\<lambda>i. rp_remove (path @ [PInt (int i)]) (xs ! i)) (rev [length ys..<length xs]) rp)
           else Inr rp)"
    by (simp add: make_replay_patch_any.simps [of m order rp path "VList c xs"] make_replay_patch_list.simps)
  let ?adds = "map (\<lambda>i. (KAdd (ys ! i), [PInt (int i)])) [length xs..<length ys]"
  let ?rems = "map (\<lambda>i. (KRemove (xs ! i), [PInt (int i)])) (rev [length ys..<length xs])"
  have mid: "make_replay_patch_any m order rp path (VList c xs) (VList c ys) =
      Inr (rp_extend (map (under path) (es @ ?adds @ ?rems)) rp)"
    unfolding unfold zs(1) using list_add_loop [of path ys xs] list_remove_loop [of path xs]
    by auto
  have "\<exists>r. run_entries (?adds @ ?rems) (VList c zs) = Some (VList c r) \<and> map canon r = map canon ys"
  proof (cases "length xs \<le> length ys")
    case True
    then have "map canon zs = map canon (take (length xs) ys)" using zs(3,5) by simp
    then have "map canon (zs @ drop (length xs) ys) = map canon ys"
      by (metis append_take_drop_id map_append)
    with True show ?thesis using run_adds [of zs ys c] zs(3) by auto
  next
    case False
    then have "map canon (take (length ys) zs) = map canon ys" using zs(5) by simp
    with False show ?thesis using run_removes [of "length ys" zs xs c] zs(3,6) by auto
  qed
  then obtain r where "run_entries (es @ ?adds @ ?rems) (VList c xs) = Some (VList c r)"
    "canon (VList c r) = canon (VList c ys)"
    using zs(2) by (auto simp: run_entries_append)
  moreover have "proper (es @ ?adds @ ?rems)" using zs(4) by (auto simp: proper_def)
  ultimately show "\<exists>rp'. make_replay_patch_any m order rp path (VList c xs) (VList c ys) = Inr rp' \<and>
      recorded path rp rp' (VList c xs) (VList c ys)"
    unfolding recorded_def mid by blast
qed

lemma dict_records:
  assumes "state_ok m (VDict c xs)" "state_ok m (VDict c ys)" and order: "\<And>ks. mset (order ks) = mset ks"
    and IH: "\<And>k a b. map_of xs k = Some a \<Longrightarrow> map_of ys k = Some b \<Longrightarrow> records m order a b"
  shows "records m order (VDict c xs) (VDict c ys)"
  unfolding records_def
proof (intro allI)
  fix rp path
  let ?f = "\<lambda>(item_key, item_value) (rp, removed_keys).
      rbind (key_path item_key) (\<lambda>p. let removed_keys' = removeAll item_key removed_keys in
        case dict_get xs item_key of
          None \<Rightarrow> Inr (rp_add (path @ [p]) item_value rp, removed_keys')
        | Some old \<Rightarrow> if \<not> py_eq old item_value
            then rbind (make_replay_patch_any m order rp (path @ [p]) old item_value)
                   (\<lambda>rp. Inr (rp, removed_keys'))
            else Inr (rp, removed_keys'))"
  let ?g = "\<lambda>removed_key rp. rbind (key_path removed_key) (\<lambda>p.
      rbind (dict_lookup xs removed_key) (\<lambda>old. Inr (rp_remove (path @ [p]) old rp)))"
  have wf: "dict_wf xs" "dict_wf ys" using assms(1,2) by (auto simp: state_ok_def)
  have body: "\<exists>p rp'. k = KP p \<and> ?f (k, v) (rp, rem) = Inr (rp', removeAll k rem) \<and>
      (case map_of xs k of None \<Rightarrow> rp' = rp_add (path @ [p]) v rp
       | Some old \<Rightarrow> recorded (path @ [p]) rp rp' old v)" if kv: "(k, v) \<in> set ys" for k v rp rem
  proof -
    from kv state_ok_key [OF assms(2)] obtain p where p: "k = KP p" by force
    have v: "map_of ys k = Some v" using kv wf(2) by (simp add: map_of_is_SomeI)
    show ?thesis
    proof (cases "map_of xs k")
      case (Some old)
      from recordsE [OF IH [OF Some v]] obtain rp' where
        "make_replay_patch_any m order rp (path @ [p]) old v = Inr rp'" "recorded (path @ [p]) rp rp' old v" .
      moreover have "py_eq old v \<Longrightarrow> recorded (path @ [p]) rp rp old v"
        using py_eq_state [OF state_ok_item [OF assms(1) Some] state_ok_item [OF assms(2) v]]
        by (simp add: recorded_none)
      ultimately show ?thesis using Some p by (simp add: Let_def)
    qed (use p in \<open>simp add: Let_def\<close>)
  qed
  let ?rem = "filter (\<lambda>k. k \<notin> fst ` set ys) (map fst xs)"
  have "\<exists>es r. rfold ?f ys (rp, map fst xs) = Inr (rp_extend (map (under path) es) rp, ?rem) \<and> proper es \<and>
    run_entries es (VDict c xs) = Some (VDict c r) \<and>
    (\<forall>(k, v) \<in> set ys. map_option canon (map_of r k) = Some (canon v)) \<and>
    (\<forall>k. k \<notin> fst ` set ys \<longrightarrow> map_of r k = map_of xs k)"
    using wf(2) refl body by (rule dict_loop)
  then obtain es r where r: "rfold ?f ys (rp, map fst xs) = Inr (rp_extend (map (under path) es) rp, ?rem)"
    "run_entries es (VDict c xs) = Some (VDict c r)" "proper es"
    "\<And>k v. (k, v) \<in> set ys \<Longrightarrow> map_option canon (map_of r k) = Some (canon v)"
    "\<And>k. k \<notin> fst ` set ys \<Longrightarrow> map_of r k = map_of xs k" by (elim exE conjE) blast
  have ord: "set (order ?rem) = set ?rem" "distinct (order ?rem)"
    using order [of ?rem] wf(1) by (metis mset_eq_setD, metis distinct_filter mset_eq_imp_distinct_iff)
  have rems: "\<exists>p v. k = KP p \<and> map_of xs k = Some v \<and> map_of r k = Some v"
    if "k \<in> set (order ?rem)" for k
    using that state_ok_key [OF assms(1), of k] r(5) [of k] dict_get_not_None_iff [of xs k]
    by (auto simp: ord(1))
  have "\<exists>es' r'. rfold ?g (order ?rem) (rp_extend (map (under path) es) rp) =
      Inr (rp_extend (map (under path) es') (rp_extend (map (under path) es) rp)) \<and> proper es' \<and>
    run_entries es' (VDict c r) = Some (VDict c r') \<and>
    (\<forall>k. map_of r' k = (if k \<in> set (order ?rem) then None else map_of r k))"
    using ord(2) rems by (rule dict_remove_loop) (simp_all add: dict_lookup_def)
  then obtain es' r' where r': "rfold ?g (order ?rem) (rp_extend (map (under path) es) rp) =
      Inr (rp_extend (map (under path) (es @ es')) rp)" "run_entries (es @ es') (VDict c xs) = Some (VDict c r')"
    "proper es'" "\<And>k. map_of r' k = (if k \<in> set (order ?rem) then None else map_of r k)"
    using r(2) by (auto simp: run_entries_append)
  have "map_option canon (map_of r' k) = map_option canon (map_of ys k)" for k
  proof (cases "map_of ys k")
    case None
    then show ?thesis using r'(4) [of k] r(5) [of k] ord(1) map_of_eq_None_iff [of xs k] map_of_eq_None_iff [of ys k]
      by (cases "k \<in> fst ` set xs") auto
  next
    case (Some v)
    then show ?thesis using r'(4) [of k] r(4) [OF map_of_SomeD [OF Some]] ord(1) dict_get_in_keys [OF Some] by auto
  qed
  then have "canon (VDict c r') = canon (VDict c ys)" by (simp add: fun_eq_iff map_of_map_prod)
  moreover have "make_replay_patch_any m order rp path (VDict c xs) (VDict c ys) =
      Inr (rp_extend (map (under path) (es @ es')) rp)"
    using r(1) r'(1) by (simp add: make_replay_patch_any.simps [of m order rp path "VDict c xs"]
        make_replay_patch_dict.simps)
  ultimately show "\<exists>rp'. make_replay_patch_any m order rp path (VDict c xs) (VDict c ys) = Inr rp' \<and>
      recorded path rp rp' (VDict c xs) (VDict c ys)"
    using r'(2,3) r(3) unfolding recorded_def by (intro exI conjI) auto
qed

lemma simple_records:
  assumes "state_ok m a" "state_ok m b" "type_of a = type_of b" "\<not> is_container a"
  shows "records m order a b"
  using assms py_eq_state [OF assms(1,2)]
  by (cases a; cases b) (auto simp: records_def is_container_def make_replay_patch_any.simps
      make_replay_patch_simple_def intro: recorded_none recorded_replace)

lemma size_elem_nth: "i < length xs \<Longrightarrow> size (xs ! i) < size (VList c xs)"
  using size_elem [of i "xs ! i" "xs ! i" 0 xs xs] by (simp add: in_set_enumerate_eq)

lemma any_records:
  assumes order: "\<And>ks. mset (order ks) = mset ks" and "state_ok m a" and "state_ok m b"
  shows "records m order a b"
  using assms(2,3)
proof (induction a arbitrary: b rule: measure_induct_rule [of size])
  case (less a)
  show ?case
  proof (cases "type_of a = type_of b")
    case False
    then show ?thesis
      by (auto simp: records_def make_replay_patch_any.simps [of m order _ _ a] intro: recorded_replace)
  next
    case True
    show ?thesis
    proof (cases a)
      case (VList c xs)
      with True obtain ys where b: "b = VList c ys" by (cases b) auto
      show ?thesis unfolding VList b
        using less.prems VList b size_elem_nth
        by (intro list_records less.IH) (auto intro: state_ok_elem)
    next
      case (VDict c xs)
      with True obtain ys where b: "b = VDict c ys" by (cases b) auto
      show ?thesis unfolding VDict b
        using less.prems VDict b size_item
        by (intro dict_records less.IH order) (auto intro: state_ok_item)
    next
      case (VObj c xs)
      with True obtain ys where b: "b = VObj c ys" by (cases b) auto
      show ?thesis unfolding VObj b
        using less.prems VObj b size_attr
        by (intro gameobject_records less.IH) (auto intro: state_ok_attr)
    qed (use less.prems True in \<open>auto intro!: simple_records simp: is_container_def\<close>)
  qed
qed

subsection \<open>Forward and backward\<close>

text \<open>C1: For two well-formed objects of one type, recording the difference succeeds, applying the
  forward patch to the original yields an object equal (as Python's \<open>==\<close>) to the other, and
  applying the backward patch to that yields an object equal to the original.  The one
  assumption on the iteration order of a Python set is that every element comes once.\<close>

theorem bipatch_forward_backward:
  assumes "\<And>ks. mset (order ks) = mset ks"
    and "state_ok mapping original" "state_ok mapping other"
    and "is_container original" "type_of original = type_of other"
  shows "\<exists>rp r original'. make_bireplay_patch mapping order original other = Inr rp \<and>
     apply_ops (patch_ops (forward_patch rp)) original = Inr r \<and> canon r = canon other \<and>
     apply_ops (patch_ops (backward_patch rp)) r = Inr original' \<and> canon original' = canon original"
proof -
  from any_records [OF assms(1-3)] obtain rp
    where rp: "make_replay_patch_any mapping order new_bipatch [] original other = Inr rp"
      "recorded [] new_bipatch rp original other" by (rule recordsE)
  from rp(2) assms(4,5) obtain es r where es: "rp = rp_extend es new_bipatch"
    "run_entries es original = Some r" "canon r = canon other" "proper es"
    by (auto simp: recorded_def under_nil)
  with rp(1) run_entries_patch [OF es(2,4)] show ?thesis
    by (auto simp: make_bireplay_patch_def patch_ops_new)
qed

definition sample_mapping :: "string \<Rightarrow> string list" where
  "sample_mapping c = (if c = ''MapState'' then [''locations'', ''properties''] else [])"

definition sample_before :: val where
  "sample_before = VObj ''MapState''
     [(''locations'', VList ''list'' [VInt 1, VInt 2, VInt 3]),
      (''properties'', VDict ''dict'' [(KP (PInt 1), VStr ''a''), (KP (PInt 2), VStr ''b'')])]"

definition sample_after :: val where
  "sample_after = VObj ''MapState''
     [(''locations'', VList ''list'' [VInt 1, VInt 5]),
      (''properties'', VDict ''dict'' [(KP (PInt 3), VStr ''c''), (KP (PInt 1), VStr ''z'')])]"

theorem bipatch_forward_backward_witness:
  "\<exists>rp r original'. make_bireplay_patch sample_mapping rev sample_before sample_after = Inr rp \<and>
     apply_ops (patch_ops (forward_patch rp)) sample_before = Inr r \<and> canon r = canon sample_after \<and>
     apply_ops (patch_ops (backward_patch rp)) r = Inr original' \<and> canon original' = canon sample_before"
  by (rule bipatch_forward_backward)
    (simp_all add: state_ok_def sample_mapping_def sample_before_def sample_after_def is_container_def)


end
