(* ===== verification/PathTree.thy ===== *)
theory PathTree
  imports Values
begin

text \<open>
  The tree of paths a replay segment numbers (\<open>replay/path_tree.py\<close>,
  \<open>replay/path_tree_node.py\<close>).

  A node object is identified by its index: \<open>idx_to_node\<close> holds the nodes, and the \<open>parent\<close> and
  \<open>children\<close> attributes hold indices.  The type of the cached \<open>reference\<close> is a parameter.  The
  invariant \<open>tree_wf\<close> makes paths and indices inverse to each other; \<open>fill_with_paths\<close> keeps it,
  never moves a path to another index, and the (index, parent, element) triples of the nodes it
  adds rebuild the same tree elsewhere, which is what appending to a file relies on.
\<close>

subsection \<open>Nodes\<close>

record 'r path_tree_node =
  path_element :: pathel
  node_index :: nat
  is_leaf :: bool
  reference :: "'r option"
  children :: "(pathel, nat) dict"
  node_parent :: "nat option"

definition new_node :: "nat option \<Rightarrow> pathel \<Rightarrow> nat \<Rightarrow> 'r path_tree_node" where
  "new_node par pe idx =
     \<lparr>path_element = pe, node_index = idx, is_leaf = True, reference = None, children = [],
      node_parent = par\<rparr>"

definition set_reference :: "'r option \<Rightarrow> 'r path_tree_node \<Rightarrow> 'r path_tree_node" where
  "set_reference r n = n\<lparr>reference := r\<rparr>"

definition add_child :: "'r path_tree_node \<Rightarrow> 'r path_tree_node \<Rightarrow> 'r path_tree_node" where
  "add_child child n =
     n\<lparr>children := dict_set (children n) (path_element child) (node_index child), is_leaf := False\<rparr>"

definition add_children :: "'r path_tree_node list \<Rightarrow> 'r path_tree_node \<Rightarrow> 'r path_tree_node" where
  "add_children cs n =
     n\<lparr>children := fold (\<lambda>c d. dict_set d (path_element c) (node_index c)) cs (children n),
       is_leaf := False\<rparr>"

definition get_child :: "pathel \<Rightarrow> 'r path_tree_node \<Rightarrow> nat option" where
  "get_child p n = dict_get (children n) p"

definition has_child :: "pathel \<Rightarrow> 'r path_tree_node \<Rightarrow> bool" where
  "has_child p n \<longleftrightarrow> p \<in> set (dict_keys (children n))"

subsection \<open>The tree\<close>

record 'r path_tree =
  idx_counter :: nat
  idx_to_node :: "(nat, 'r path_tree_node) dict"

definition new_path_tree :: "'r path_tree" where
  "new_path_tree = \<lparr>idx_counter = 1, idx_to_node = [(0, new_node None (PStr ''root'') 0)]\<rparr>"

definition add_node :: "nat \<Rightarrow> nat \<Rightarrow> pathel \<Rightarrow> 'r path_tree \<Rightarrow> 'r path_tree result" where
  "add_node idx par pe t =
     rbind (dict_lookup (idx_to_node t) par) (\<lambda>pn.
       let new = new_node (Some par) pe idx;
           nodes = dict_set (idx_to_node t) par (add_child new pn)
       in Inr \<lparr>idx_counter = idx_counter t + 1, idx_to_node = dict_set nodes idx new\<rparr>)"

text \<open>One step of the inner loop of \<open>fill_with_paths\<close>; the state is the tree, the current node
  and the nodes added so far.\<close>

definition fill_element ::
    "pathel \<Rightarrow> 'r path_tree \<times> nat \<times> nat list \<Rightarrow> ('r path_tree \<times> nat \<times> nat list) result" where
  "fill_element pe s =
     (case s of (t, cur, added) \<Rightarrow>
        rbind (dict_lookup (idx_to_node t) cur) (\<lambda>n.
          case get_child pe n of
            Some c \<Rightarrow> Inr (t, c, added)
          | None \<Rightarrow>
              let idx = idx_counter t in
              rbind (add_node idx cur pe t) (\<lambda>t'. Inr (t', idx, added @ [idx]))))"

definition fill_path :: "path \<Rightarrow> 'r path_tree \<times> nat list \<Rightarrow> ('r path_tree \<times> nat list) result" where
  "fill_path path s =
     (case s of (t, added) \<Rightarrow>
        rbind (rfold fill_element path (t, 0, added)) (\<lambda>(t', _, added'). Inr (t', added')))"

definition fill_with_paths :: "path list \<Rightarrow> 'r path_tree \<Rightarrow> ('r path_tree \<times> nat list) result" where
  "fill_with_paths paths t = rfold fill_path paths (t, [])"

fun walk :: "'r path_tree \<Rightarrow> nat \<Rightarrow> path \<Rightarrow> nat option" where
  "walk t cur [] = Some cur"
| "walk t cur (p # ps) =
     (case dict_get (idx_to_node t) cur of
        None \<Rightarrow> None
      | Some n \<Rightarrow> (case get_child p n of None \<Rightarrow> None | Some c \<Rightarrow> walk t c ps))"

definition path_list_to_idx :: "path \<Rightarrow> 'r path_tree \<Rightarrow> nat option" where
  "path_list_to_idx path t = walk t 0 path"

definition path_exists :: "path \<Rightarrow> 'r path_tree \<Rightarrow> bool" where
  "path_exists path t \<longleftrightarrow> walk t 0 path \<noteq> None"

text \<open>The triple \<open>que_append_patch\<close> writes for a node it added.\<close>

definition node_triple :: "'r path_tree \<Rightarrow> nat \<Rightarrow> (nat \<times> nat \<times> pathel) result" where
  "node_triple t idx =
     rbind (dict_lookup (idx_to_node t) idx) (\<lambda>n.
       Inr (node_index n, (case node_parent n of Some p \<Rightarrow> p | None \<Rightarrow> 0), path_element n))"

definition add_triples :: "(nat \<times> nat \<times> pathel) list \<Rightarrow> 'r path_tree \<Rightarrow> 'r path_tree result" where
  "add_triples ts t = rfold (\<lambda>(idx, par, pe). add_node idx par pe) ts t"

subsection \<open>Well-formed trees\<close>

definition node_at :: "'r path_tree \<Rightarrow> nat \<Rightarrow> 'r path_tree_node option" where
  "node_at t i = dict_get (idx_to_node t) i"

definition child_ok :: "'r path_tree \<Rightarrow> nat \<Rightarrow> pathel \<Rightarrow> nat \<Rightarrow> bool" where
  "child_ok t i p j \<longleftrightarrow> i < j \<and>
     (\<exists>m. node_at t j = Some m \<and> node_parent m = Some i \<and> path_element m = p)"

definition parent_ok :: "'r path_tree \<Rightarrow> nat \<Rightarrow> 'r path_tree_node \<Rightarrow> bool" where
  "parent_ok t i n \<longleftrightarrow>
     (if i = 0 then node_parent n = None
      else \<exists>k m. node_parent n = Some k \<and> node_at t k = Some m \<and> get_child (path_element n) m = Some i)"

definition node_ok :: "'r path_tree \<Rightarrow> nat \<Rightarrow> 'r path_tree_node \<Rightarrow> bool" where
  "node_ok t i n \<longleftrightarrow> node_index n = i \<and> (is_leaf n \<longleftrightarrow> children n = []) \<and> dict_wf (children n) \<and>
     (\<forall>p j. get_child p n = Some j \<longrightarrow> child_ok t i p j) \<and> parent_ok t i n"

definition tree_wf :: "'r path_tree \<Rightarrow> bool" where
  "tree_wf t \<longleftrightarrow> dict_wf (idx_to_node t) \<and> 0 < idx_counter t \<and>
     (\<forall>i. node_at t i \<noteq> None \<longleftrightarrow> i < idx_counter t) \<and>
     (\<forall>i n. node_at t i = Some n \<longrightarrow> node_ok t i n)"

lemma tree_wf_node: "tree_wf t \<Longrightarrow> i < idx_counter t \<Longrightarrow> \<exists>n. node_at t i = Some n \<and> node_ok t i n"
  unfolding tree_wf_def by (metis not_None_eq)

lemma tree_wf_lt: "tree_wf t \<Longrightarrow> node_at t i = Some n \<Longrightarrow> i < idx_counter t"
  unfolding tree_wf_def by (metis option.distinct(1))

lemma tree_wf_child:
  "tree_wf t \<Longrightarrow> node_at t i = Some n \<Longrightarrow> get_child p n = Some j \<Longrightarrow>
   i < j \<and> j < idx_counter t \<and> (\<exists>m. node_at t j = Some m \<and> node_parent m = Some i \<and> path_element m = p)"
proof -
  assume t: "tree_wf t" and "node_at t i = Some n" "get_child p n = Some j"
  then have "child_ok t i p j" by (auto simp: tree_wf_def node_ok_def)
  then show ?thesis using tree_wf_lt [OF t] by (auto simp: child_ok_def)
qed

lemma tree_wf_parent:
  assumes "tree_wf t" "node_at t i = Some n" "i \<noteq> 0"
  obtains k m where "node_parent n = Some k" "node_at t k = Some m" "get_child (path_element n) m = Some i" "k < i"
proof -
  from assms have "parent_ok t i n" by (auto simp: tree_wf_def node_ok_def)
  with assms(3) obtain k m where km: "node_parent n = Some k" "node_at t k = Some m"
    "get_child (path_element n) m = Some i" by (auto simp: parent_ok_def)
  with tree_wf_child [OF assms(1) km(2,3)] that show ?thesis by blast
qed

lemma tree_wf_new: "tree_wf new_path_tree"
  by (auto simp: tree_wf_def new_path_tree_def node_at_def new_node_def node_ok_def get_child_def
      parent_ok_def split: if_splits)

lemma walk_Cons: "walk t i (p # ps) = Option.bind (Option.bind (node_at t i) (get_child p)) (\<lambda>c. walk t c ps)"
  by (simp add: node_at_def split: option.split)

declare walk.simps(2) [simp del]

lemma walk_append: "walk t i (ps @ qs) = Option.bind (walk t i ps) (\<lambda>j. walk t j qs)"
  by (induction ps arbitrary: i) (auto simp: walk_Cons split: bind_splits)

text \<open>The path of an index, read off the parents.\<close>

function idx_path :: "'r path_tree \<Rightarrow> nat \<Rightarrow> path" where
  "idx_path t i =
     (case node_at t i of
        None \<Rightarrow> []
      | Some n \<Rightarrow>
          (case node_parent n of
             None \<Rightarrow> []
           | Some k \<Rightarrow> if k < i then idx_path t k @ [path_element n] else []))"
  by pat_completeness auto
termination
  by (relation "measure snd") auto

declare idx_path.simps [simp del]

lemma idx_path_root: "tree_wf t \<Longrightarrow> idx_path t 0 = []"
  by (auto simp: idx_path.simps [of t 0] split: option.split)

lemma walk_idx_path: "tree_wf t \<Longrightarrow> i < idx_counter t \<Longrightarrow> walk t 0 (idx_path t i) = Some i"
proof (induction i rule: less_induct)
  case (less i)
  show ?case
  proof (cases "i = 0")
    case True
    then show ?thesis using less.prems by (simp add: idx_path_root)
  next
    case False
    obtain n where n: "node_at t i = Some n" using tree_wf_node [OF less.prems] by blast
    from tree_wf_parent [OF less.prems(1) n False] obtain k m where
      k: "node_parent n = Some k" "node_at t k = Some m" "get_child (path_element n) m = Some i" "k < i" .
    then have "walk t 0 (idx_path t k) = Some k" using less by simp
    with n k show ?thesis
      by (simp add: idx_path.simps [of t i] walk_append walk_Cons)
  qed
qed

lemma walk_idx_path_from:
  "tree_wf t \<Longrightarrow> walk t i ps = Some j \<Longrightarrow> idx_path t j = idx_path t i @ ps"
proof (induction ps arbitrary: i)
  case (Cons p ps)
  then obtain n c where c: "node_at t i = Some n" "get_child p n = Some c" "walk t c ps = Some j"
    by (auto simp: walk_Cons split: bind_splits)
  from tree_wf_child [OF Cons.prems(1) c(1,2)] obtain m where
    "node_at t c = Some m" "node_parent m = Some i" "path_element m = p" "i < c" by blast
  then have "idx_path t c = idx_path t i @ [p]" by (simp add: idx_path.simps [of t c])
  with Cons.IH [OF Cons.prems(1) c(3)] show ?case by simp
qed simp

lemma walk_lt: "tree_wf t \<Longrightarrow> walk t i ps = Some j \<Longrightarrow> i < idx_counter t \<Longrightarrow> j < idx_counter t"
proof (induction ps arbitrary: i)
  case (Cons p ps)
  then show ?case using tree_wf_child by (fastforce simp: walk_Cons split: bind_splits)
qed simp

subsection \<open>Adding nodes\<close>

lemma add_node_at:
  assumes "node_at t k = Some pn" and "idx \<noteq> k"
  obtains t' where "add_node idx k pe t = Inr t'" "idx_counter t' = Suc (idx_counter t)"
    "\<And>i. node_at t' i = (if i = idx then Some (new_node (Some k) pe idx)
        else if i = k then Some (add_child (new_node (Some k) pe idx) pn) else node_at t i)"
    "dict_wf (idx_to_node t) \<Longrightarrow> dict_wf (idx_to_node t')"
  using assms that [OF _ _ _ _] by (auto simp: add_node_def node_at_def dict_lookup_def Let_def)

lemma get_child_add_child:
  "get_child p (add_child c n) = (if p = path_element c then Some (node_index c) else get_child p n)"
  by (simp add: get_child_def add_child_def)

lemma add_child_fields [simp]:
  "path_element (add_child c n) = path_element n" "node_index (add_child c n) = node_index n"
  "node_parent (add_child c n) = node_parent n" "\<not> is_leaf (add_child c n)"
  "children (add_child c n) \<noteq> []" "dict_wf (children n) \<Longrightarrow> dict_wf (children (add_child c n))"
  by (auto simp: add_child_def update_nonempty)

lemma new_node_fields [simp]:
  "path_element (new_node par pe idx) = pe" "node_index (new_node par pe idx) = idx"
  "node_parent (new_node par pe idx) = par" "is_leaf (new_node par pe idx)"
  "children (new_node par pe idx) = []" "get_child p (new_node par pe idx) = None"
  by (simp_all add: new_node_def get_child_def)

definition node_extends :: "'r path_tree_node \<Rightarrow> 'r path_tree_node \<Rightarrow> bool" where
  "node_extends n n' \<longleftrightarrow> path_element n' = path_element n \<and> node_parent n' = node_parent n \<and>
     (\<forall>p c. get_child p n = Some c \<longrightarrow> get_child p n' = Some c)"

lemma node_extends_refl [simp]: "node_extends n n"
  by (simp add: node_extends_def)

lemma node_extends_trans: "node_extends n n' \<Longrightarrow> node_extends n' n'' \<Longrightarrow> node_extends n n''"
  by (simp add: node_extends_def)

lemma node_ok_mono:
  assumes "node_ok t i n"
    and "\<And>j m. node_at t j = Some m \<Longrightarrow> \<exists>m'. node_at t' j = Some m' \<and> node_extends m m'"
  shows "node_ok t' i n"
proof -
  have "child_ok t' i p j" if "child_ok t i p j" for p j
    using that assms(2) by (fastforce simp: child_ok_def node_extends_def)
  moreover have "parent_ok t' i n"
    using assms by (fastforce simp: node_ok_def parent_ok_def node_extends_def)
  ultimately show ?thesis using assms(1) by (auto simp: node_ok_def)
qed

lemma add_node_wf:
  assumes "tree_wf t" and pn: "node_at t k = Some pn" and fresh: "get_child pe pn = None"
  shows "\<exists>t'. add_node (idx_counter t) k pe t = Inr t' \<and> tree_wf t' \<and>
    idx_counter t' = Suc (idx_counter t) \<and>
    node_at t' (idx_counter t) = Some (new_node (Some k) pe (idx_counter t)) \<and>
    (\<forall>i n. node_at t i = Some n \<longrightarrow> (\<exists>n'. node_at t' i = Some n' \<and> node_extends n n')) \<and>
    walk t' k [pe] = Some (idx_counter t)"
proof -
  let ?i = "idx_counter t" and ?new = "new_node (Some k) pe (idx_counter t)"
  have k: "k < ?i" using tree_wf_lt [OF assms(1) pn] .
  then have "?i \<noteq> k" by simp
  from add_node_at [OF pn this] obtain t' where t': "add_node ?i k pe t = Inr t'"
    "idx_counter t' = Suc ?i"
    "\<And>i. node_at t' i = (if i = ?i then Some ?new else if i = k then Some (add_child ?new pn) else node_at t i)"
    "dict_wf (idx_to_node t) \<Longrightarrow> dict_wf (idx_to_node t')" by blast
  have none: "node_at t ?i = None" using assms(1) by (auto simp: tree_wf_def)
  have mono: "\<exists>m'. node_at t' j = Some m' \<and> node_extends m m'" if "node_at t j = Some m" for j m
    using that t'(3) [of j] none pn fresh by (auto simp: get_child_add_child node_extends_def)
  have ok: "node_ok t' i n" if n: "node_at t' i = Some n" for i n
  proof -
    consider "i = ?i" | "i = k" | "i \<noteq> ?i" "i \<noteq> k" by blast
    then show ?thesis
    proof cases
      case 1
      then show ?thesis
        using n k t'(3) [of ?i] t'(3) [of k] by (auto simp: node_ok_def parent_ok_def get_child_add_child)
    next
      case 2
      have "node_ok t k pn" using assms(1) pn by (auto simp: tree_wf_def)
      then have "node_ok t' k pn" by (rule node_ok_mono) (use mono in blast)
      moreover have "child_ok t' k pe ?i" using k t'(3) [of ?i] by (auto simp: child_ok_def)
      ultimately show ?thesis
        using n 2 k t'(3) [of k]
        by (auto simp: node_ok_def get_child_add_child parent_ok_def split: if_splits)
    next
      case 3
      then have "node_at t i = Some n" using n t'(3) [of i] by simp
      then have "node_ok t i n" using assms(1) by (auto simp: tree_wf_def)
      then show ?thesis by (rule node_ok_mono) (use mono in blast)
    qed
  qed
  have dom: "node_at t' i \<noteq> None \<longleftrightarrow> i < Suc ?i" for i
    using assms(1) t'(3) [of i] k by (auto simp: tree_wf_def less_Suc_eq)
  have "tree_wf t'"
    unfolding tree_wf_def using assms(1) t'(2,4) dom ok by (auto simp: tree_wf_def)
  moreover have "walk t' k [pe] = Some ?i"
    using t'(3) [of k] k by (simp add: walk_Cons get_child_add_child)
  ultimately show ?thesis using t'(1,2) t'(3) [of ?i] mono by (intro exI [of _ t'] conjI) auto
qed

subsection \<open>Filling\<close>

text \<open>\<open>grows t t'\<close>: \<open>t'\<close> is a well-formed tree in which every node of \<open>t\<close> is where it was.\<close>

definition grows :: "'r path_tree \<Rightarrow> 'r path_tree \<Rightarrow> bool" where
  "grows t t' \<longleftrightarrow> tree_wf t' \<and> idx_counter t \<le> idx_counter t' \<and>
     (\<forall>i n. node_at t i = Some n \<longrightarrow> (\<exists>n'. node_at t' i = Some n' \<and> node_extends n n'))"

lemma grows_refl: "tree_wf t \<Longrightarrow> grows t t"
  by (auto simp: grows_def)

lemma grows_trans: "grows t t' \<Longrightarrow> grows t' t'' \<Longrightarrow> grows t t''"
  unfolding grows_def by (meson le_trans node_extends_trans)

lemma grows_walk: "grows t t' \<Longrightarrow> walk t i ps = Some j \<Longrightarrow> walk t' i ps = Some j"
proof (induction ps arbitrary: i)
  case (Cons p ps)
  then obtain n c where "node_at t i = Some n" "get_child p n = Some c" "walk t c ps = Some j"
    by (auto simp: walk_Cons split: bind_splits)
  moreover from this Cons.prems(1) obtain n' where "node_at t' i = Some n'" "get_child p n' = Some c"
    unfolding grows_def node_extends_def by blast
  ultimately show ?case using Cons by (simp add: walk_Cons)
qed simp

lemma grows_triple: "grows t t' \<Longrightarrow> tree_wf t \<Longrightarrow> node_triple t i = Inr x \<Longrightarrow> node_triple t' i = Inr x"
proof -
  assume g: "grows t t'" and t: "tree_wf t" and x: "node_triple t i = Inr x"
  then obtain n where n: "node_at t i = Some n" "x = (node_index n, (case node_parent n of Some p \<Rightarrow> p | None \<Rightarrow> 0), path_element n)"
    by (auto simp: node_triple_def node_at_def rbind_eq_Inr_iff)
  with g obtain n' where n': "node_at t' i = Some n'" "path_element n' = path_element n"
    "node_parent n' = node_parent n" unfolding grows_def node_extends_def by blast
  moreover have "node_index n = i" "node_index n' = i"
    using n(1) n'(1) t g by (auto simp: tree_wf_def node_ok_def grows_def)
  ultimately show ?thesis using n by (simp add: node_triple_def node_at_def dict_lookup_def)
qed

text \<open>The state of \<open>fill_with_paths\<close> relative to the tree it started from: the added nodes are the
  ones with the next indices, in order, and their triples rebuild the tree.\<close>

definition filled :: "'r path_tree \<Rightarrow> 'r path_tree \<Rightarrow> nat list \<Rightarrow> bool" where
  "filled t t' added \<longleftrightarrow> grows t t' \<and> added = [idx_counter t..<idx_counter t'] \<and>
     (\<exists>ts. rmap (node_triple t') added = Inr ts \<and> add_triples ts t = Inr t')"

lemma filled_refl: "tree_wf t \<Longrightarrow> filled t t []"
  by (simp add: filled_def grows_refl add_triples_def)

lemma rmap_append: "rmap f (xs @ ys) = rbind (rmap f xs) (\<lambda>as. rbind (rmap f ys) (\<lambda>bs. Inr (as @ bs)))"
  by (induction xs) (auto simp: rbind_assoc)

lemma rmap_mono:
  "rmap f xs = Inr ys \<Longrightarrow> (\<And>x y. x \<in> set xs \<Longrightarrow> f x = Inr y \<Longrightarrow> g x = Inr y) \<Longrightarrow> rmap g xs = Inr ys"
  by (induction xs arbitrary: ys) (auto simp: rbind_eq_Inr_iff)

lemma fill_element_ok:
  assumes f: "filled t0 t added" and cur: "cur < idx_counter t"
  shows "\<exists>t' c added'. fill_element pe (t, cur, added) = Inr (t', c, added') \<and>
    filled t0 t' added' \<and> grows t t' \<and> walk t' cur [pe] = Some c"
proof -
  have wf: "tree_wf t" using f by (simp add: filled_def grows_def)
  obtain n where n: "node_at t cur = Some n" using tree_wf_node [OF wf cur] by blast
  show ?thesis
  proof (cases "get_child pe n")
    case (Some c)
    then show ?thesis using n f wf
      by (auto simp: fill_element_def dict_lookup_def node_at_def [symmetric] walk_Cons grows_refl)
  next
    case None
    from add_node_wf [OF wf n None] obtain t' where t': "add_node (idx_counter t) cur pe t = Inr t'"
      "tree_wf t'" "idx_counter t' = Suc (idx_counter t)"
      "node_at t' (idx_counter t) = Some (new_node (Some cur) pe (idx_counter t))"
      "\<forall>i n. node_at t i = Some n \<longrightarrow> (\<exists>n'. node_at t' i = Some n' \<and> node_extends n n')"
      "walk t' cur [pe] = Some (idx_counter t)" by blast
    have g: "grows t t'" unfolding grows_def using t'(2,3,5) by auto
    from f obtain ts where ts: "rmap (node_triple t) added = Inr ts" "add_triples ts t0 = Inr t"
      and fg: "grows t0 t" "added = [idx_counter t0..<idx_counter t]" by (auto simp: filled_def)
    have "rmap (node_triple t') added = Inr ts"
      using ts(1) by (rule rmap_mono) (use grows_triple [OF g wf] in blast)
    moreover have "node_triple t' (idx_counter t) = Inr (idx_counter t, cur, pe)"
      using t'(4) by (simp add: node_triple_def dict_lookup_def node_at_def)
    moreover have "add_triples (ts @ [(idx_counter t, cur, pe)]) t0 = Inr t'"
      using ts(2) t'(1) by (simp add: add_triples_def rfold_append)
    ultimately have "filled t0 t' (added @ [idx_counter t])"
      using fg t'(3) grows_trans [OF fg(1) g] by (auto simp: filled_def rmap_append grows_def)
    then show ?thesis
      using t'(1,6) g n None
      by (auto simp: fill_element_def dict_lookup_def node_at_def [symmetric] Let_def)
  qed
qed

lemma fill_elements_ok:
  assumes "filled t0 t added" and "cur < idx_counter t"
  shows "\<exists>t' c added'. rfold fill_element ps (t, cur, added) = Inr (t', c, added') \<and>
    filled t0 t' added' \<and> grows t t' \<and> walk t' cur ps = Some c"
  using assms
proof (induction ps arbitrary: t cur added)
  case Nil
  then show ?case by (auto simp: filled_def grows_def)
next
  case (Cons p ps)
  from fill_element_ok [OF Cons.prems] obtain t1 c1 added1 where
    s: "fill_element p (t, cur, added) = Inr (t1, c1, added1)" "filled t0 t1 added1" "grows t t1"
      "walk t1 cur [p] = Some c1" by blast
  have wf1: "tree_wf t1" and "cur < idx_counter t1"
    using s(3) Cons.prems(2) by (auto simp: grows_def)
  then have "c1 < idx_counter t1" using walk_lt [OF wf1 s(4)] by simp
  from Cons.IH [OF s(2) this] obtain t' c added' where
    r: "rfold fill_element ps (t1, c1, added1) = Inr (t', c, added')" "filled t0 t' added'"
      "grows t1 t'" "walk t' c1 ps = Some c" by blast
  have "walk t' cur ([p] @ ps) = Some c"
    unfolding walk_append using grows_walk [OF r(3) s(4)] r(4) by simp
  with r s grows_trans [OF s(3) r(3)] show ?case by auto
qed

lemma fill_path_ok:
  assumes "filled t0 t added"
  shows "\<exists>t' added'. fill_path path (t, added) = Inr (t', added') \<and> filled t0 t' added' \<and>
    grows t t' \<and> path_exists path t'"
proof -
  have "0 < idx_counter t" using assms by (auto simp: filled_def grows_def tree_wf_def)
  from fill_elements_ok [OF assms this, of path] show ?thesis
    by (auto simp: fill_path_def path_exists_def)
qed

lemma fill_paths_ok:
  assumes "filled t0 t added"
  shows "\<exists>t' added'. rfold fill_path paths (t, added) = Inr (t', added') \<and> filled t0 t' added' \<and>
    grows t t' \<and> (\<forall>p \<in> set paths. path_exists p t')"
  using assms
proof (induction paths arbitrary: t added)
  case Nil
  then show ?case by (auto simp: filled_def intro: grows_refl simp: grows_def)
next
  case (Cons p paths)
  from fill_path_ok [OF Cons.prems] obtain t1 added1 where
    s: "fill_path p (t, added) = Inr (t1, added1)" "filled t0 t1 added1" "grows t t1" "path_exists p t1"
    by blast
  from Cons.IH [OF s(2)] obtain t' added' where
    r: "rfold fill_path paths (t1, added1) = Inr (t', added')" "filled t0 t' added'" "grows t1 t'"
      "\<forall>q \<in> set paths. path_exists q t'" by blast
  have "path_exists p t'" using s(4) grows_walk [OF r(3)] by (auto simp: path_exists_def)
  with r s grows_trans [OF s(3) r(3)] show ?case by auto
qed

subsection \<open>Cached references\<close>

definition map_node :: "nat \<Rightarrow> ('r path_tree_node \<Rightarrow> 'r path_tree_node) \<Rightarrow> 'r path_tree \<Rightarrow> 'r path_tree result" where
  "map_node i f t =
     rbind (dict_lookup (idx_to_node t) i) (\<lambda>n.
       Inr (t\<lparr>idx_to_node := dict_set (idx_to_node t) i (f n)\<rparr>))"

text \<open>The loop of \<open>reset_child_references\<close>; the head of the list is the top of the stack.\<close>

partial_function (option) reset_loop :: "nat list \<Rightarrow> 'r path_tree \<Rightarrow> 'r path_tree result option" where
  [code]: "reset_loop stack t =
     (case stack of
        [] \<Rightarrow> Some (Inr t)
      | i # rest \<Rightarrow>
          (case dict_get (idx_to_node t) i of
             None \<Rightarrow> Some (Inl KeyError)
           | Some n \<Rightarrow>
               (case rfold (\<lambda>c. map_node c (set_reference None)) (map snd (children n)) t of
                  Inl e \<Rightarrow> Some (Inl e)
                | Inr t' \<Rightarrow> reset_loop (rev (map snd (children n)) @ rest) t')))"

definition reset_child_references :: "nat \<Rightarrow> 'r path_tree \<Rightarrow> 'r path_tree result option" where
  "reset_child_references start t = reset_loop [start] t"

text \<open>The breadth-first loop of \<open>bfs_set_references\<close>; \<open>deref\<close> stands for the lookup of a path
  element in a container, with \<open>None\<close> for Python's \<open>None\<close>.\<close>

definition get_reference_from_direct_parent ::
    "('r \<Rightarrow> pathel \<Rightarrow> 'r option result) \<Rightarrow> nat \<Rightarrow> 'r path_tree \<Rightarrow> 'r option result" where
  "get_reference_from_direct_parent deref v t =
     rbind (dict_lookup (idx_to_node t) v) (\<lambda>n.
       case node_parent n of
         None \<Rightarrow> Inl AttributeError
       | Some p \<Rightarrow>
           rbind (dict_lookup (idx_to_node t) p) (\<lambda>pn.
             case reference pn of
               None \<Rightarrow> Inl ValueError
             | Some r \<Rightarrow> deref r (path_element pn)))"

partial_function (option) bfs_loop ::
    "('r \<Rightarrow> pathel \<Rightarrow> 'r option result) \<Rightarrow> (nat, nat list) dict \<Rightarrow> nat list \<Rightarrow> 'r path_tree
     \<Rightarrow> 'r path_tree result option" where
  [code]: "bfs_loop deref sub_tree q t =
     (case q of
        [] \<Rightarrow> Some (Inr t)
      | u # rest \<Rightarrow>
          let vs = (case dict_get sub_tree u of None \<Rightarrow> [] | Some l \<Rightarrow> l) in
          (case rfold (\<lambda>v t. rbind (get_reference_from_direct_parent deref v t)
                              (\<lambda>r. map_node v (set_reference r) t)) vs t of
             Inl e \<Rightarrow> Some (Inl e)
           | Inr t' \<Rightarrow> bfs_loop deref sub_tree (rest @ vs) t'))"

definition bfs_set_references ::
    "('r \<Rightarrow> pathel \<Rightarrow> 'r option result) \<Rightarrow> (nat, nat list) dict \<Rightarrow> 'r \<Rightarrow> 'r path_tree
     \<Rightarrow> 'r path_tree result option" where
  "bfs_set_references deref sub_tree game_state t =
     (case dict_get (idx_to_node t) 0 of
        None \<Rightarrow> Some (Inl KeyError)
      | Some r \<Rightarrow>
          (case rfold (\<lambda>c. map_node c (set_reference (Some game_state))) (map snd (children r)) t of
             Inl e \<Rightarrow> Some (Inl e)
           | Inr t' \<Rightarrow> bfs_loop deref sub_tree (map snd (children r)) t'))"

subsection \<open>Validation\<close>

partial_function (option) validate_nodes :: "nat list \<Rightarrow> 'r path_tree \<Rightarrow> unit result option" where
  [code]: "validate_nodes todo t =
     (case todo of
        [] \<Rightarrow> Some (Inr ())
      | i # rest \<Rightarrow>
          (case dict_get (idx_to_node t) i of
             None \<Rightarrow> Some (Inl ValueError)
           | Some n \<Rightarrow> validate_nodes (map snd (children n) @ rest) t))"

definition validate_idx_to_node_mapping :: "'r path_tree \<Rightarrow> unit result option" where
  "validate_idx_to_node_mapping t =
     (case rfold (\<lambda>(idx, n) u. if node_index n \<noteq> idx then Inl ValueError else Inr u) (idx_to_node t) () of
        Inl e \<Rightarrow> Some (Inl e)
      | Inr _ \<Rightarrow> validate_nodes [0] t)"

text \<open>\<open>validate_tree_structure\<close> answers \<open>False\<close> at the first defect and \<open>None\<close> otherwise.  The inner
  loop returns the visited set, the known indices and the deque, or \<open>None\<close> at a defect.\<close>

fun validate_children ::
    "'r path_tree \<Rightarrow> (pathel \<times> nat) list \<Rightarrow> nat list \<times> nat list \<times> nat list
     \<Rightarrow> (nat list \<times> nat list \<times> nat list) option" where
  "validate_children t [] s = Some s"
| "validate_children t ((pe, v) # cs) (visited, known, q) =
     (if v \<in> set visited then validate_children t cs (visited, known, q)
      else case dict_get (idx_to_node t) v of
        None \<Rightarrow> None
      | Some n \<Rightarrow>
          if path_element n \<noteq> pe then None
          else if v \<in> set known then None
          else if children n = [] \<and> \<not> is_leaf n then None
          else if children n \<noteq> [] \<and> is_leaf n then None
          else validate_children t cs (v # visited, known @ [v], q @ [v]))"

partial_function (option) validate_loop ::
    "'r path_tree \<Rightarrow> nat list \<times> nat list \<times> nat list \<Rightarrow> bool option option" where
  [code]: "validate_loop t s =
     (case s of (visited, known, q) \<Rightarrow>
        if q = [] then Some None
        else case dict_get (idx_to_node t) (last q) of
          None \<Rightarrow> Some (Some False)
        | Some n \<Rightarrow>
            (case validate_children t (children n) (visited, known, butlast q) of
               None \<Rightarrow> Some (Some False)
             | Some s' \<Rightarrow> validate_loop t s'))"

definition validate_tree_structure :: "'r path_tree \<Rightarrow> bool option option" where
  "validate_tree_structure t = validate_loop t ([0], [], [0])"

subsection \<open>Resetting references\<close>

definition clear_refs :: "nat set \<Rightarrow> 'r path_tree \<Rightarrow> 'r path_tree" where
  "clear_refs S t = t\<lparr>idx_to_node :=
     map (\<lambda>(i, n). (i, if i \<in> S then set_reference None n else n)) (idx_to_node t)\<rparr>"

definition below :: "'r path_tree \<Rightarrow> nat \<Rightarrow> nat set" where
  "below t i = {j. \<exists>ps. ps \<noteq> [] \<and> walk t i ps = Some j}"

lemma set_reference_simps [simp]:
  "path_element (set_reference r n) = path_element n" "node_index (set_reference r n) = node_index n"
  "is_leaf (set_reference r n) = is_leaf n" "reference (set_reference r n) = r"
  "children (set_reference r n) = children n" "node_parent (set_reference r n) = node_parent n"
  "get_child p (set_reference r n) = get_child p n" "set_reference r (set_reference r' n) = set_reference r n"
  by (simp_all add: set_reference_def get_child_def)

lemma map_of_map_value: "map_of (map (\<lambda>(i, n). (i, f i n)) kvs) k = map_option (f k) (map_of kvs k)"
  by (induction kvs) auto

lemma node_at_clear:
  "node_at (clear_refs S t) i = map_option (\<lambda>n. if i \<in> S then set_reference None n else n) (node_at t i)"
  by (simp add: node_at_def clear_refs_def map_of_map_value)

lemma clear_clear: "clear_refs S (clear_refs T t) = clear_refs (S \<union> T) t"
  by (auto simp: clear_refs_def intro!: path_tree.equality)

lemma clear_empty [simp]: "clear_refs {} t = t"
  by (simp add: clear_refs_def case_prod_unfold)

lemma walk_clear [simp]: "walk (clear_refs S t) i ps = walk t i ps"
proof (induction ps arbitrary: i)
  case (Cons p ps)
  then show ?case by (cases "node_at t i") (auto simp: walk_Cons node_at_clear)
qed simp

lemma below_clear [simp]: "below (clear_refs S t) i = below t i"
  by (simp add: below_def)

lemma map_snd_set:
  "dict_wf kvs \<Longrightarrow> map_of kvs i = Some n \<Longrightarrow>
   dict_set kvs i (f n) = map (\<lambda>(j, m). (j, if j = i then f m else m)) kvs"
proof (induction kvs)
  case (Cons kv kvs)
  have "map (\<lambda>(j, m). (j, if j = i then f m else m)) kvs = kvs" if "i \<notin> fst ` set kvs"
    using that by (intro map_idI) force
  with Cons show ?case by (cases kv) (auto split: if_splits)
qed simp

lemma map_node_clear:
  assumes "dict_wf (idx_to_node t)" "node_at t i = Some n"
  shows "map_node i (set_reference None) t = Inr (clear_refs {i} t)"
  using assms map_snd_set [of "idx_to_node t" i n "set_reference None"]
  by (simp add: map_node_def dict_lookup_def node_at_def clear_refs_def)

lemma dict_wf_clear [simp]: "dict_wf (idx_to_node (clear_refs S t)) \<longleftrightarrow> dict_wf (idx_to_node t)"
  by (simp add: clear_refs_def case_prod_unfold comp_def)

lemma reset_kids:
  assumes "dict_wf (idx_to_node t)" "\<forall>c \<in> set cs. node_at t c \<noteq> None"
  shows "rfold (\<lambda>c. map_node c (set_reference None)) cs t = Inr (clear_refs (set cs) t)"
  using assms
proof (induction cs arbitrary: t)
  case (Cons c cs)
  then obtain n where "node_at t c = Some n" by auto
  with Cons.prems have m: "map_node c (set_reference None) t = Inr (clear_refs {c} t)"
    by (simp add: map_node_clear)
  have "rfold (\<lambda>c. map_node c (set_reference None)) cs (clear_refs {c} t) =
      Inr (clear_refs (set cs) (clear_refs {c} t))"
    using Cons.prems by (intro Cons.IH) (auto simp: node_at_clear)
  then show ?case using m by (simp add: clear_clear)
qed simp

lemma below_step:
  assumes "node_at t i = Some n" and "dict_wf (children n)"
  shows "below t i = snd ` set (children n) \<union> (\<Union>c \<in> snd ` set (children n). below t c)"
proof (intro equalityI subsetI)
  fix j
  assume "j \<in> below t i"
  then obtain p ps where "walk t i (p # ps) = Some j" 
    by (auto simp: below_def neq_Nil_conv)
  then obtain c where c: "get_child p n = Some c" "walk t c ps = Some j"
    using assms by (auto simp: walk_Cons split: bind_splits)
  then have "c \<in> snd ` set (children n)" by (force simp: get_child_def dest: map_of_SomeD)
  then show "j \<in> snd ` set (children n) \<union> (\<Union>c \<in> snd ` set (children n). below t c)"
    using c(2) by (cases ps) (auto simp: below_def)
next
  fix j
  assume j: "j \<in> snd ` set (children n) \<union> (\<Union>c \<in> snd ` set (children n). below t c)"
  have kid: "walk t i [p] = Some c" if "(p, c) \<in> set (children n)" for p c
    using that assms \<open>dict_wf (children n)\<close> by (simp add: walk_Cons get_child_def)
  from j consider p where "(p, j) \<in> set (children n)"
    | p c ps where "(p, c) \<in> set (children n)" "ps \<noteq> []" "walk t c ps = Some j"
    by (auto simp: below_def)
  then show "j \<in> below t i"
  proof cases
    case 1
    with kid show ?thesis by (auto simp: below_def intro!: exI [of _ "[p]"])
  next
    case 2
    then have "walk t i ([p] @ ps) = Some j" unfolding walk_append using kid by simp
    then show ?thesis by (auto simp: below_def intro!: exI [of _ "p # ps"])
  qed
qed

lemma children_wf:
  assumes "tree_wf t" "node_at t i = Some n" "c \<in> snd ` set (children n)"
  shows "i < c" "c < idx_counter t" "node_at t c \<noteq> None"
proof -
  from assms(1,2) have "dict_wf (children n)" by (auto simp: tree_wf_def node_ok_def)
  with assms(3) obtain p where "get_child p n = Some c" by (auto simp: get_child_def)
  from tree_wf_child [OF assms(1,2) this] show "i < c" "c < idx_counter t" "node_at t c \<noteq> None" by auto
qed

lemma reset_loop_step:
  assumes "tree_wf t" "i < idx_counter t"
  shows "reset_loop (i # rest) (clear_refs S t) = reset_loop rest (clear_refs (S \<union> below t i) t)"
  using assms(2)
proof (induction "idx_counter t - i" arbitrary: i rest S rule: less_induct)
  case less
  obtain n where n: "node_at t i = Some n" "dict_wf (children n)"
    using tree_wf_node [OF assms(1) less.prems] by (auto simp: node_ok_def)
  let ?cs = "map snd (children n)"
  obtain n' where n': "node_at (clear_refs S t) i = Some n'" "children n' = children n"
    using n(1) by (auto simp: node_at_clear)
  have kids: "rfold (\<lambda>c. map_node c (set_reference None)) ?cs (clear_refs S t) =
      Inr (clear_refs (S \<union> set ?cs) t)"
    using reset_kids [of "clear_refs S t" ?cs] children_wf(3) [OF assms(1) n(1)] assms(1)
    by (auto simp: node_at_clear clear_clear Un_commute tree_wf_def)
  have stack: "reset_loop (cs @ rest) (clear_refs T t) = reset_loop rest (clear_refs (T \<union> (\<Union>c \<in> set cs. below t c)) t)"
    if "set cs \<subseteq> set ?cs" for cs T
    using that
  proof (induction cs arbitrary: T)
    case (Cons c cs)
    then have "i < c" "c < idx_counter t" using children_wf [OF assms(1) n(1)] by auto
    then have "reset_loop (c # cs @ rest) (clear_refs T t) = reset_loop (cs @ rest) (clear_refs (T \<union> below t c) t)"
      using less.hyps [of c] by simp
    also have "\<dots> = reset_loop rest (clear_refs ((T \<union> below t c) \<union> (\<Union>c \<in> set cs. below t c)) t)"
      using Cons by auto
    finally show ?case by (simp add: Un_assoc)
  qed simp
  have "reset_loop (i # rest) (clear_refs S t) = reset_loop (rev ?cs @ rest) (clear_refs (S \<union> set ?cs) t)"
    using n' kids by (simp add: reset_loop.simps [of "i # rest"] node_at_def)
  also have "\<dots> = reset_loop rest (clear_refs ((S \<union> set ?cs) \<union> (\<Union>c \<in> set (rev ?cs). below t c)) t)"
    by (rule stack) simp
  finally show ?case using below_step [OF n] by (simp add: Un_assoc)
qed

lemma reset_loop_Nil: "reset_loop [] t = Some (Inr t)"
  by (simp add: reset_loop.simps)

subsection \<open>Validation of well-formed trees\<close>

lemma validate_nodes_step:
  assumes "tree_wf t" "i < idx_counter t"
  shows "validate_nodes (i # rest) t = validate_nodes rest t"
  using assms(2)
proof (induction "idx_counter t - i" arbitrary: i rest rule: less_induct)
  case less
  obtain n where n: "node_at t i = Some n" using tree_wf_node [OF assms(1) less.prems] by blast
  have stack: "validate_nodes (cs @ rest) t = validate_nodes rest t"
    if "set cs \<subseteq> set (map snd (children n))" for cs
    using that
  proof (induction cs)
    case (Cons c cs)
    then have "i < c" "c < idx_counter t" using children_wf [OF assms(1) n] by auto
    then have "validate_nodes (c # cs @ rest) t = validate_nodes (cs @ rest) t"
      using less.hyps [of c] by simp
    with Cons show ?case by simp
  qed simp
  show ?case
    using n stack [of "map snd (children n)"] by (simp add: validate_nodes.simps [of "i # rest"] node_at_def)
qed

lemma validate_indices:
  "\<forall>(i, n) \<in> set kvs. node_index n = i \<Longrightarrow>
   rfold (\<lambda>(idx, n) u. if node_index n \<noteq> idx then Inl ValueError else Inr u) kvs () = Inr ()"
  by (induction kvs) auto

definition valid_state :: "'r path_tree \<Rightarrow> nat list \<times> nat list \<times> nat list \<Rightarrow> bool" where
  "valid_state t s = (case s of (visited, known, q) \<Rightarrow>
     distinct visited \<and> set visited \<subseteq> {..<idx_counter t} \<and> set known \<subseteq> set visited \<and> set q \<subseteq> set visited)"

definition valid_measure :: "'r path_tree \<Rightarrow> nat list \<times> nat list \<times> nat list \<Rightarrow> nat" where
  "valid_measure t s = (case s of (visited, known, q) \<Rightarrow> 2 * (idx_counter t - length visited) + length q)"

lemma visited_bound: "valid_state t (visited, known, q) \<Longrightarrow> v \<notin> set visited \<Longrightarrow> v < idx_counter t \<Longrightarrow>
   length visited < idx_counter t"
proof -
  assume v: "valid_state t (visited, known, q)" "v \<notin> set visited" "v < idx_counter t"
  then have "set visited \<subseteq> {..<idx_counter t} - {v}" by (auto simp: valid_state_def)
  then have "card (set visited) \<le> card ({..<idx_counter t} - {v})" by (intro card_mono) auto
  moreover have "card (set visited) = length visited"
    using v(1) by (simp add: valid_state_def distinct_card)
  ultimately show ?thesis using v(3) by simp
qed

lemma validate_children_ok:
  assumes "tree_wf t" "valid_state t s"
    and "\<forall>(p, c) \<in> set cs. \<exists>m. node_at t c = Some m \<and> path_element m = p"
  shows "\<exists>s'. validate_children t cs s = Some s' \<and> valid_state t s' \<and> valid_measure t s' \<le> valid_measure t s"
  using assms(2,3)
proof (induction cs arbitrary: s)
  case (Cons pc cs)
  obtain p c where pc: "pc = (p, c)" by (cases pc)
  obtain visited known q where s: "s = (visited, known, q)" by (cases s)
  from Cons.prems(2) pc obtain m where m: "node_at t c = Some m" "path_element m = p" by auto
  have c: "c < idx_counter t" using tree_wf_lt [OF assms(1) m(1)] .
  have leaf: "is_leaf m \<longleftrightarrow> children m = []" using assms(1) m(1) by (auto simp: tree_wf_def node_ok_def)
  show ?case
  proof (cases "c \<in> set visited")
    case True
    then show ?thesis using Cons pc s by auto
  next
    case False
    let ?s = "(c # visited, known @ [c], q @ [c])"
    have "length visited < idx_counter t" using visited_bound Cons.prems(1) False c s by blast
    then have ms: "valid_measure t ?s \<le> valid_measure t s" by (simp add: valid_measure_def s)
    have "valid_state t ?s" using Cons.prems(1) False c s by (auto simp: valid_state_def)
    with Cons.IH [of ?s] Cons.prems(2) obtain s' where "validate_children t cs ?s = Some s'"
      "valid_state t s'" "valid_measure t s' \<le> valid_measure t ?s" by auto
    moreover have "c \<notin> set known" using False Cons.prems(1) s by (auto simp: valid_state_def)
    ultimately show ?thesis using ms m leaf False pc s by (auto simp: node_at_def)
  qed
qed simp

lemma validate_loop_ok:
  assumes "tree_wf t" "valid_state t s"
  shows "validate_loop t s = Some None"
  using assms(2)
proof (induction s rule: measure_induct_rule [of "valid_measure t"])
  case (less s)
  obtain visited known q where s: "s = (visited, known, q)" by (cases s)
  show ?case
  proof (cases "q = []")
    case False
    then have "last q < idx_counter t" using less.prems s last_in_set [OF False]
      by (auto simp: valid_state_def subset_iff)
    then obtain n where n: "node_at t (last q) = Some n" using tree_wf_node [OF assms(1)] by blast
    let ?s = "(visited, known, butlast q)"
    have v: "valid_state t ?s" using less.prems s by (auto simp: valid_state_def dest: in_set_butlastD)
    have wf: "dict_wf (children n)" using assms(1) n by (auto simp: tree_wf_def node_ok_def)
    have "\<forall>(p, c) \<in> set (children n). \<exists>m. node_at t c = Some m \<and> path_element m = p"
      using tree_wf_child [OF assms(1) n] wf by (fastforce simp: get_child_def)
    from validate_children_ok [OF assms(1) v this] obtain s' where
      s': "validate_children t (children n) ?s = Some s'" "valid_state t s'"
        "valid_measure t s' \<le> valid_measure t ?s" by blast
    have "valid_measure t ?s < valid_measure t s" using False s by (simp add: valid_measure_def)
    with less.IH [of s'] s' show ?thesis
      unfolding s using False n by (simp add: validate_loop.simps [of t "(visited, known, q)"] node_at_def s)
  qed (simp add: validate_loop.simps s)
qed

subsection \<open>Properties\<close>

definition sample_paths :: "path list" where
  "sample_paths = [[PStr ''states'', PInt 1], [PStr ''states'', PStr ''map'']]"

definition sample_tree :: "nat path_tree" where
  "sample_tree = (case fill_with_paths sample_paths new_path_tree of Inr (t, _) \<Rightarrow> t | Inl _ \<Rightarrow> new_path_tree)"

lemma sample_tree_wf: "tree_wf sample_tree"
  using fill_paths_ok [OF filled_refl [OF tree_wf_new [where 'a = nat]], of sample_paths]
  by (auto simp: sample_tree_def fill_with_paths_def grows_def)

lemmas path_tree_eval = sample_tree_def sample_paths_def new_path_tree_def fill_with_paths_def
  fill_path_def fill_element_def add_node_def new_node_def add_child_def get_child_def dict_lookup_def Let_def
  walk.simps node_at_def idx_path.simps path_list_to_idx_def path_exists_def

text \<open>C21: in a well-formed tree \<open>path_list_to_idx\<close> finds, for every index, exactly one path: the one
  read off the parents.  Paths and indices are inverse to each other.\<close>

theorem path_index_inverse:
  assumes "tree_wf t" and "i < idx_counter t"
  shows "path_list_to_idx p t = Some i \<longleftrightarrow> p = idx_path t i"
  using walk_idx_path [OF assms] walk_idx_path_from [OF assms(1), of 0 p i] idx_path_root [OF assms(1)]
  by (auto simp: path_list_to_idx_def)

theorem path_index_inverse_witness:
  "path_list_to_idx [PStr ''states'', PInt 1] sample_tree = Some 2 \<and>
   idx_path sample_tree 2 = [PStr ''states'', PInt 1]"
proof -
  have p: "path_list_to_idx [PStr ''states'', PInt 1] sample_tree = Some 2" by (simp add: path_tree_eval)
  have "2 < idx_counter sample_tree" by (simp add: path_tree_eval)
  from path_index_inverse [OF sample_tree_wf this] p show ?thesis by metis
qed

text \<open>C20: \<open>fill_with_paths\<close> on a well-formed tree never raises and leaves a well-formed tree in which
  every given path exists and every path that existed keeps its index; the nodes it returns are
  those with the next free indices, in order.\<close>

theorem fill_with_paths_correct:
  assumes "tree_wf t"
  shows "\<exists>t' added. fill_with_paths paths t = Inr (t', added) \<and> tree_wf t' \<and>
     (\<forall>p \<in> set paths. path_exists p t') \<and>
     (\<forall>p i. path_list_to_idx p t = Some i \<longrightarrow> path_list_to_idx p t' = Some i) \<and>
     added = [idx_counter t..<idx_counter t']"
proof -
  from fill_paths_ok [OF filled_refl [OF assms], of paths] obtain t' added where
    r: "rfold fill_path paths (t, []) = Inr (t', added)" "filled t t' added" "grows t t'"
      "\<forall>p \<in> set paths. path_exists p t'" by blast
  then show ?thesis
    using grows_walk [OF r(3)] by (auto simp: fill_with_paths_def filled_def grows_def path_list_to_idx_def)
qed

theorem fill_with_paths_correct_witness:
  "\<exists>t' added. fill_with_paths sample_paths (new_path_tree :: nat path_tree) = Inr (t', added) \<and> tree_wf t' \<and>
     (\<forall>p \<in> set sample_paths. path_exists p t') \<and>
     (\<forall>p i. path_list_to_idx p (new_path_tree :: nat path_tree) = Some i \<longrightarrow> path_list_to_idx p t' = Some i) \<and>
     added = [idx_counter (new_path_tree :: nat path_tree)..<idx_counter t']"
  by (rule fill_with_paths_correct [OF tree_wf_new])

text \<open>C14: the (index, parent, element) triples that \<open>que_append_patch\<close> writes for the nodes
  \<open>fill_with_paths\<close> added rebuild, with \<open>add_node\<close>, exactly the tree the recorder has.\<close>

theorem triples_rebuild_tree:
  assumes "tree_wf t" and "fill_with_paths paths t = Inr (t', added)"
  shows "\<exists>ts. rmap (node_triple t') added = Inr ts \<and> add_triples ts t = Inr t'"
proof -
  from fill_paths_ok [OF filled_refl [OF assms(1)], of paths] assms(2)
  have "filled t t' added" by (auto simp: fill_with_paths_def)
  then show ?thesis unfolding filled_def by blast
qed

theorem triples_rebuild_tree_witness:
  "\<exists>ts. rmap (node_triple sample_tree) [1, 2, 3] = Inr ts \<and> add_triples ts new_path_tree = Inr sample_tree"
proof (rule triples_rebuild_tree [OF tree_wf_new])
  show "fill_with_paths sample_paths new_path_tree = Inr (sample_tree, [1, 2, 3])"
    by (simp add: path_tree_eval)
qed

text \<open>C28: \<open>reset_child_references\<close> terminates on a well-formed tree and clears the references of the
  nodes strictly below the given one, and no other.\<close>

theorem reset_child_references_correct:
  assumes "tree_wf t" and "i < idx_counter t"
  shows "\<exists>t'. reset_child_references i t = Some (Inr t') \<and>
     (\<forall>j. node_at t' j = map_option (\<lambda>n. if \<exists>ps. ps \<noteq> [] \<and> walk t i ps = Some j
        then set_reference None n else n) (node_at t j))"
  using reset_loop_step [OF assms, of "[]" "{}"]
  by (auto simp: reset_child_references_def reset_loop_Nil node_at_clear below_def)

theorem reset_child_references_correct_witness:
  "\<exists>t'. reset_child_references 1 sample_tree = Some (Inr t') \<and>
     (\<forall>j. node_at t' j = map_option (\<lambda>n. if \<exists>ps. ps \<noteq> [] \<and> walk sample_tree 1 ps = Some j
        then set_reference None n else n) (node_at sample_tree j))"
  by (rule reset_child_references_correct [OF sample_tree_wf]) (simp add: path_tree_eval)

text \<open>both validators terminate on a well-formed tree and find no defect.\<close>

lemma validators_accept:
  assumes "tree_wf t"
  shows "validate_idx_to_node_mapping t = Some (Inr ()) \<and> validate_tree_structure t = Some None"
proof
  have "\<forall>(i, n) \<in> set (idx_to_node t). node_index n = i"
    using assms by (fastforce simp: tree_wf_def node_ok_def node_at_def)
  moreover have "validate_nodes [0] t = Some (Inr ())"
    using validate_nodes_step [OF assms, of 0 "[]"] assms
    by (simp add: tree_wf_def validate_nodes.simps [of "[]"])
  ultimately show "validate_idx_to_node_mapping t = Some (Inr ())"
    by (simp add: validate_idx_to_node_mapping_def validate_indices)
  show "validate_tree_structure t = Some None"
    unfolding validate_tree_structure_def
    using assms by (intro validate_loop_ok) (auto simp: valid_state_def tree_wf_def)
qed

lemma validators_accept_witness:
  "validate_idx_to_node_mapping sample_tree = Some (Inr ()) \<and> validate_tree_structure sample_tree = Some None"
  by (rule validators_accept [OF sample_tree_wf])

end
