(* ===== verification/Serializer.thy ===== *)
theory Serializer
  imports Values
begin

text \<open>
  The binary form of game objects (\<open>game_object/game_object_binary.py\<close>).

  \<open>to_raw\<close> turns an object into nested lists and primitives and \<open>from_raw\<close> turns them back; the
  byte encoding between the two is the \<open>msgspec\<close> library's and a parameter.  A registered class is
  written as a list that starts with the marker \<open>-1\<close> and the class's number.  The registries are
  the class-level dicts of the program, keyed by client version; the number of a class
  (\<open>stable_type_id\<close>, a hash of its name), the attribute names of a class and the members of an enum
  are parameters.  Time stamps are exact rationals where the program has doubles.
\<close>

subsection \<open>Registration\<close>

datatype category =
    DATACLASS | ENUM | LIST | DICT | DATETIME | TIMEDELTA | POINT | GAME_STATE | STATIC_MAP_DATA

record registry =
  CLASS_FROM_ID :: "(int, (int, string) dict) dict"
  ID_FROM_CLASS :: "(int, (string, int) dict) dict"
  CATEGORY :: "(int, (string, category) dict) dict"
  FIELDS_CACHE :: "(int, (string, string list) dict) dict"

definition at_version :: "(int, ('k, 'v) dict) dict \<Rightarrow> int \<Rightarrow> ('k, 'v) dict" where
  "at_version d version = (case dict_get d version of None \<Rightarrow> [] | Some e \<Rightarrow> e)"

definition set_at_version :: "(int, ('k, 'v) dict) dict \<Rightarrow> int \<Rightarrow> 'k \<Rightarrow> 'v \<Rightarrow> (int, ('k, 'v) dict) dict" where
  "set_at_version d version k v = dict_set d version (dict_set (at_version d version) k v)"

definition is_dataclass :: "category \<Rightarrow> bool" where
  "is_dataclass cat \<longleftrightarrow> cat = DATACLASS \<or> cat = GAME_STATE \<or> cat = STATIC_MAP_DATA"

definition register ::
    "(string \<Rightarrow> int) \<Rightarrow> (string \<Rightarrow> string list) \<Rightarrow> int \<Rightarrow> string \<Rightarrow> category \<Rightarrow> registry \<Rightarrow> registry" where
  "register stable_type_id mapping version cls cat reg =
     (let type_id = stable_type_id cls in
      \<lparr>CLASS_FROM_ID = set_at_version (CLASS_FROM_ID reg) version type_id cls,
       ID_FROM_CLASS = set_at_version (ID_FROM_CLASS reg) version cls type_id,
       CATEGORY = set_at_version (CATEGORY reg) version cls cat,
       FIELDS_CACHE = (if is_dataclass cat then set_at_version (FIELDS_CACHE reg) version cls (mapping cls)
                       else FIELDS_CACHE reg)\<rparr>)"

record serializer =
  class_from_id :: "(int, string) dict"
  id_from_class :: "(string, int) dict"
  category_of :: "(string, category) dict"
  fields_of :: "(string, string list) dict"
  enum_members :: "string \<Rightarrow> pathel list"

definition dict_update :: "('k, 'v) dict \<Rightarrow> ('k, 'v) dict \<Rightarrow> ('k, 'v) dict" where
  "dict_update d e = fold (\<lambda>(k, v) d. dict_set d k v) e d"

definition new_serializer :: "(string \<Rightarrow> pathel list) \<Rightarrow> registry \<Rightarrow> int \<Rightarrow> serializer" where
  "new_serializer members reg version =
     \<lparr>class_from_id = dict_update (at_version (CLASS_FROM_ID reg) version) (at_version (CLASS_FROM_ID reg) (-1)),
      id_from_class = dict_update (at_version (ID_FROM_CLASS reg) version) (at_version (ID_FROM_CLASS reg) (-1)),
      category_of = dict_update (at_version (CATEGORY reg) version) (at_version (CATEGORY reg) (-1)),
      fields_of = dict_update (at_version (FIELDS_CACHE reg) version) (at_version (FIELDS_CACHE reg) (-1)),
      enum_members = members\<rparr>"

subsection \<open>To raw data\<close>

datatype raw =
    RNone | RBool bool | RInt int | RFloat rat | RStr string
  | RList "raw list" | RDict "(string \<times> raw) list"

definition TYPE_MARKER :: int where "TYPE_MARKER = -1"

fun pathel_raw :: "pathel \<Rightarrow> raw" where
  "pathel_raw (PInt i) = RInt i"
| "pathel_raw (PStr s) = RStr s"

definition registered_raw :: "serializer \<Rightarrow> string \<Rightarrow> (category \<Rightarrow> raw list result) \<Rightarrow> raw result" where
  "registered_raw s c body =
     rbind (dict_lookup (id_from_class s) c) (\<lambda>type_id.
     rbind (dict_lookup (category_of s) c) (\<lambda>cat.
     rbind (body cat) (\<lambda>rs. Inr (RList (RInt TYPE_MARKER # RInt type_id # rs)))))"

fun key_raw :: "serializer \<Rightarrow> key \<Rightarrow> raw result" where
  "key_raw s (KP p) = Inr (pathel_raw p)"
| "key_raw s (KEnum c p) =
     registered_raw s c (\<lambda>cat. if cat = ENUM then Inr [pathel_raw p] else Inl AttributeError)"
| "key_raw s (KOther _) = Inl TypeError"

lemma registered_raw_cong [fundef_cong]:
  "s = s' \<Longrightarrow> c = c' \<Longrightarrow> (\<And>cat. f cat = g cat) \<Longrightarrow> registered_raw s c f = registered_raw s' c' g"
  by (simp add: registered_raw_def)

lemma size_list_elem [termination_simp]: "x \<in> set xs \<Longrightarrow> size x < size_list size xs"
  by (induction xs) auto

lemma size_attr_value [termination_simp]:
  "map_of attrs n = Some v \<Longrightarrow> size v < Suc (size_list (\<lambda>x. Suc (size (snd x))) attrs)"
  by (induction attrs) (auto split: if_splits)

fun prim_raw :: "val \<Rightarrow> raw result" where
  "prim_raw VNone = Inr RNone"
| "prim_raw (VBool b) = Inr (RBool b)"
| "prim_raw (VInt i) = Inr (RInt i)"
| "prim_raw (VFloat r) = Inr (RFloat r)"
| "prim_raw (VStr t) = Inr (RStr t)"
| "prim_raw _ = Inl TypeError"

lemma size_dict_value [termination_simp]: "(k, v) \<in> set kvs \<Longrightarrow> size v < size (VDict c kvs)"
  by (induction kvs) auto

fun to_raw :: "serializer \<Rightarrow> val \<Rightarrow> raw result" where
  "to_raw s VNone = Inr RNone"
| "to_raw s (VBool b) = Inr (RBool b)"
| "to_raw s (VInt i) = Inr (RInt i)"
| "to_raw s (VFloat r) = Inr (RFloat r)"
| "to_raw s (VStr t) = Inr (RStr t)"
| "to_raw s (VEnum c p) =
     registered_raw s c (\<lambda>cat. if cat = ENUM then Inr [pathel_raw p] else Inl AttributeError)"
| "to_raw s (VDatetime c t) =
     registered_raw s c (\<lambda>cat. if cat = DATETIME then Inr [RFloat t] else Inl AttributeError)"
| "to_raw s (VTimedelta c t) =
     registered_raw s c (\<lambda>cat. if cat = TIMEDELTA then Inr [RFloat t] else Inl AttributeError)"
| "to_raw s (VList c xs) =
     (if c = ''list'' then rbind (rmap (to_raw s) xs) (\<lambda>rs. Inr (RList rs))
      else registered_raw s c (\<lambda>cat.
        if cat = LIST then rbind (rmap (to_raw s) xs) (\<lambda>rs. Inr [RList rs]) else Inl AttributeError))"
| "to_raw s (VDict c kvs) =
     (let pairs = rmap (\<lambda>(k, v). rbind (key_raw s k) (\<lambda>rk. rbind (to_raw s v) (\<lambda>rv. Inr (RList [rk, rv])))) kvs in
      if c = ''dict'' then rbind pairs (\<lambda>rs. Inr (RDict [(''__dict__'', RList rs)]))
      else registered_raw s c (\<lambda>cat.
        if cat = DICT then rbind pairs (\<lambda>rs. Inr [RList rs]) else Inl AttributeError))"
| "to_raw s (VObj c attrs) =
     registered_raw s c (\<lambda>cat.
       if is_dataclass cat then
         rbind (dict_lookup (fields_of s) c) (\<lambda>names.
           rmap (\<lambda>n. rbind (attr_lookup attrs n) (to_raw s)) names)
       else if cat = POINT then
         rbind (attr_lookup attrs ''x'') (\<lambda>x. rbind (prim_raw x) (\<lambda>rx.
         rbind (attr_lookup attrs ''y'') (\<lambda>y. rbind (prim_raw y) (\<lambda>ry. Inr [rx, ry]))))
       else Inl AttributeError)"

subsection \<open>From raw data\<close>

fun raw_num :: "raw \<Rightarrow> rat result" where
  "raw_num (RInt i) = Inr (of_int i)"
| "raw_num (RFloat r) = Inr r"
| "raw_num (RBool b) = Inr (if b then 1 else 0)"
| "raw_num _ = Inl TypeError"

fun raw_pathel :: "raw \<Rightarrow> pathel option" where
  "raw_pathel (RInt i) = Some (PInt i)"
| "raw_pathel (RStr t) = Some (PStr t)"
| "raw_pathel _ = None"

fun raw_prim :: "raw \<Rightarrow> val result" where
  "raw_prim RNone = Inr VNone"
| "raw_prim (RBool b) = Inr (VBool b)"
| "raw_prim (RInt i) = Inr (VInt i)"
| "raw_prim (RFloat r) = Inr (VFloat r)"
| "raw_prim (RStr t) = Inr (VStr t)"
| "raw_prim _ = Inl TypeError"

text \<open>The key of a dict comprehension: strings, integers and enum members.\<close>

fun val_key :: "val \<Rightarrow> key result" where
  "val_key (VInt i) = Inr (KP (PInt i))"
| "val_key (VStr t) = Inr (KP (PStr t))"
| "val_key (VEnum c p) = Inr (KEnum c p)"
| "val_key _ = Inl TypeError"

definition is_marker :: "raw \<Rightarrow> bool" where
  "is_marker r \<longleftrightarrow> r = RInt TYPE_MARKER \<or> r = RFloat (of_int TYPE_MARKER)"

definition class_of_id :: "serializer \<Rightarrow> raw \<Rightarrow> string result" where
  "class_of_id s r =
     (case r of
        RInt i \<Rightarrow> dict_lookup (class_from_id s) i
      | RList _ \<Rightarrow> Inl TypeError
      | RDict _ \<Rightarrow> Inl TypeError
      | _ \<Rightarrow> Inl KeyError)"

definition nth_raw :: "raw list \<Rightarrow> nat \<Rightarrow> raw result" where
  "nth_raw rs i = (if i < length rs then Inr (rs ! i) else Inl IndexError)"

definition build_dict :: "(key \<times> val) list \<Rightarrow> (key, val) dict" where
  "build_dict kvs = fold (\<lambda>(k, v) d. dict_set d k v) kvs []"

lemma size_raw_elem: "x \<in> set rs \<Longrightarrow> size x < size (RList rs)"
  by (induction rs) auto

lemma size_raw_dict: "map_of d k = Some r \<Longrightarrow> size r < size (RDict d)"
  by (induction d) (auto split: if_splits)

lemma size_raw_nth: "nth_raw rs i = Inr r \<Longrightarrow> size r < size (RList rs)"
  using size_raw_elem [of "rs ! i" rs] by (auto simp: nth_raw_def split: if_splits)

function from_raw :: "serializer \<Rightarrow> raw \<Rightarrow> val result"
  and from_raw_registered :: "serializer \<Rightarrow> raw list \<Rightarrow> val result" where
  "from_raw s data =
     (case data of
        RDict d \<Rightarrow>
          rbind (dict_lookup d ''__dict__'') (\<lambda>l.
          case l of
            RList pairs \<Rightarrow>
              rbind (rmap (\<lambda>pair. case pair of
                  RList [rk, rv] \<Rightarrow>
                    rbind (from_raw s rk) (\<lambda>k. rbind (from_raw s rv) (\<lambda>v.
                    rbind (val_key k) (\<lambda>k'. Inr (k', v))))
                | RList _ \<Rightarrow> Inl ValueError
                | _ \<Rightarrow> Inl TypeError) pairs)
                (\<lambda>kvs. Inr (VDict ''dict'' (build_dict kvs)))
          | _ \<Rightarrow> Inl TypeError)
      | RList rs \<Rightarrow>
          if 2 \<le> length rs \<and> is_marker (hd rs) then from_raw_registered s rs
          else rbind (rmap (from_raw s) rs) (\<lambda>vs. Inr (VList ''list'' vs))
      | _ \<Rightarrow> raw_prim data)"
| "from_raw_registered s rs =
     rbind (nth_raw rs 1) (\<lambda>tid.
     rbind (class_of_id s tid) (\<lambda>c.
     rbind (dict_lookup (category_of s) c) (\<lambda>cat.
       if is_dataclass cat then
         rbind (dict_lookup (fields_of s) c) (\<lambda>names.
         rbind (rmap (\<lambda>(i, n). rbind (nth_raw rs (i + 2)) (\<lambda>r. rbind (from_raw s r) (\<lambda>v. Inr (n, v))))
                 (enumerate 0 names))
           (\<lambda>attrs. Inr (VObj c attrs)))
       else case cat of
         LIST \<Rightarrow>
           rbind (nth_raw rs 2) (\<lambda>l.
           case l of RList ys \<Rightarrow> rbind (rmap (from_raw s) ys) (\<lambda>vs. Inr (VList c vs)) | _ \<Rightarrow> Inl TypeError)
       | DICT \<Rightarrow>
           rbind (nth_raw rs 2) (\<lambda>l.
           case l of
             RList pairs \<Rightarrow>
               rbind (rmap (\<lambda>pair. case pair of
                   RList kv \<Rightarrow>
                     rbind (nth_raw kv 0) (\<lambda>rk. rbind (from_raw s rk) (\<lambda>k.
                     rbind (nth_raw kv 1) (\<lambda>rv. rbind (from_raw s rv) (\<lambda>v.
                     rbind (val_key k) (\<lambda>k'. Inr (k', v))))))
                 | _ \<Rightarrow> Inl TypeError) pairs)
                 (\<lambda>kvs. Inr (VDict c (build_dict kvs)))
           | _ \<Rightarrow> Inl TypeError)
       | DATETIME \<Rightarrow> rbind (nth_raw rs 2) (\<lambda>r. rbind (raw_num r) (\<lambda>t. Inr (VDatetime c t)))
       | TIMEDELTA \<Rightarrow> rbind (nth_raw rs 2) (\<lambda>r. rbind (raw_num r) (\<lambda>t. Inr (VTimedelta c t)))
       | ENUM \<Rightarrow>
           rbind (nth_raw rs 2) (\<lambda>r.
           case raw_pathel r of
             Some p \<Rightarrow> if p \<in> set (enum_members s c) then Inr (VEnum c p) else Inl ValueError
           | None \<Rightarrow> Inl ValueError)
       | POINT \<Rightarrow>
           rbind (nth_raw rs 2) (\<lambda>rx. rbind (nth_raw rs 3) (\<lambda>ry.
           rbind (raw_prim rx) (\<lambda>x. rbind (raw_prim ry) (\<lambda>y. Inr (VObj c [(''x'', x), (''y'', y)])))))
       | _ \<Rightarrow> Inl TypeError)))"
  by pat_completeness auto
termination
proof (relation "measure (case_sum (\<lambda>(s, r). 2 * size r + 1) (\<lambda>(s, rs). 2 * size (RList rs)))",
    goal_cases)
  case 1
  then show ?case by simp
qed (auto dest!: size_raw_elem size_raw_dict size_raw_nth)

declare from_raw.simps [simp del] from_raw_registered.simps [simp del]

definition serialize :: "(raw \<Rightarrow> 'b result) \<Rightarrow> serializer \<Rightarrow> val \<Rightarrow> 'b result" where
  "serialize encode s obj = rbind (to_raw s obj) encode"

definition deserialize :: "('b \<Rightarrow> raw result) \<Rightarrow> serializer \<Rightarrow> 'b \<Rightarrow> val result" where
  "deserialize decode s data = rbind (decode data) (from_raw s)"

text \<open>An encoder and its decoder agree on a value.\<close>

definition codes :: "('a \<Rightarrow> 'b result) \<Rightarrow> ('b \<Rightarrow> 'a result) \<Rightarrow> 'a \<Rightarrow> bool" where
  "codes enc dec x \<longleftrightarrow> (\<exists>b. enc x = Inr b \<and> dec b = Inr x)"

subsection \<open>What can be stored\<close>

definition registered :: "serializer \<Rightarrow> string \<Rightarrow> category \<Rightarrow> bool" where
  "registered s c cat \<longleftrightarrow> (\<exists>tid. dict_get (id_from_class s) c = Some tid \<and>
     dict_get (class_from_id s) tid = Some c) \<and> dict_get (category_of s) c = Some cat"

fun key_ok :: "serializer \<Rightarrow> key \<Rightarrow> bool" where
  "key_ok s (KP p) = True"
| "key_ok s (KEnum c p) = (registered s c ENUM \<and> p \<in> set (enum_members s c))"
| "key_ok s (KOther _) = False"

definition primitive :: "val \<Rightarrow> bool" where
  "primitive v \<longleftrightarrow> (case v of VNone \<Rightarrow> True | VBool _ \<Rightarrow> True | VInt _ \<Rightarrow> True | VFloat _ \<Rightarrow> True
     | VStr _ \<Rightarrow> True | _ \<Rightarrow> False)"

definition marker_like :: "val list \<Rightarrow> bool" where
  "marker_like xs \<longleftrightarrow> 2 \<le> length xs \<and> (hd xs = VInt TYPE_MARKER \<or> hd xs = VFloat (of_int TYPE_MARKER))"

fun serial_ok :: "serializer \<Rightarrow> val \<Rightarrow> bool" where
  "serial_ok s (VEnum c p) = (registered s c ENUM \<and> p \<in> set (enum_members s c))"
| "serial_ok s (VDatetime c t) = registered s c DATETIME"
| "serial_ok s (VTimedelta c t) = registered s c TIMEDELTA"
| "serial_ok s (VList c xs) =
     (list_all (serial_ok s) xs \<and> (if c = ''list'' then \<not> marker_like xs else registered s c LIST))"
| "serial_ok s (VDict c kvs) =
     (dict_wf kvs \<and> list_all (\<lambda>(k, v). key_ok s k \<and> serial_ok s v) kvs \<and>
      (if c = ''dict'' then True else registered s c DICT))"
| "serial_ok s (VObj c attrs) =
     (dict_wf attrs \<and> list_all (\<lambda>(n, v). serial_ok s v) attrs \<and>
      ((\<exists>cat \<in> {DATACLASS, GAME_STATE, STATIC_MAP_DATA}. registered s c cat \<and>
          dict_get (fields_of s) c = Some (map fst attrs)) \<or>
       (registered s c POINT \<and> map fst attrs = [''x'', ''y''] \<and> list_all (primitive \<circ> snd) attrs)))"
| "serial_ok s _ = True"

subsection \<open>Round trip\<close>

definition decodes :: "serializer \<Rightarrow> val \<Rightarrow> bool" where
  "decodes s v \<longleftrightarrow> (\<exists>r. to_raw s v = Inr r \<and> from_raw s r = Inr v \<and>
     (is_marker r \<longrightarrow> v = VInt TYPE_MARKER \<or> v = VFloat (of_int TYPE_MARKER)))"

lemma from_raw_marked:
  assumes "registered s c cat"
  obtains tid where "registered_raw s c f = rbind (f cat) (\<lambda>rs. Inr (RList (RInt TYPE_MARKER # RInt tid # rs)))"
    "\<And>rs. from_raw s (RList (RInt TYPE_MARKER # RInt tid # rs)) =
       from_raw_registered s (RInt TYPE_MARKER # RInt tid # rs)"
    "class_of_id s (RInt tid) = Inr c"
  using assms that
  by (auto simp: registered_def registered_raw_def dict_lookup_def from_raw.simps is_marker_def class_of_id_def)

lemma nth_raw_simps [simp]:
  "nth_raw (r # rs) 0 = Inr r" "nth_raw (r # rs) (Suc i) = nth_raw rs i" "nth_raw [] i = Inl IndexError"
  by (simp_all add: nth_raw_def)

lemma is_marker_simps [simp]: "\<not> is_marker (RList rs)" "\<not> is_marker (RDict d)" "\<not> is_marker RNone"
  "\<not> is_marker (RBool b)" "\<not> is_marker (RStr t)"
  by (simp_all add: is_marker_def)

lemma rmap_decodes:
  "\<forall>x \<in> set xs. decodes s x \<Longrightarrow> \<exists>rs. rmap (to_raw s) xs = Inr rs \<and> rmap (from_raw s) rs = Inr xs \<and>
     length rs = length xs \<and> (xs \<noteq> [] \<longrightarrow> is_marker (hd rs) \<longrightarrow>
       hd xs = VInt TYPE_MARKER \<or> hd xs = VFloat (of_int TYPE_MARKER))"
proof (induction xs)
  case (Cons x xs)
  then obtain rs where rs: "rmap (to_raw s) xs = Inr rs" "rmap (from_raw s) rs = Inr xs" "length rs = length xs"
    by auto
  from Cons.prems obtain r where "to_raw s x = Inr r" "from_raw s r = Inr x"
    "is_marker r \<longrightarrow> x = VInt TYPE_MARKER \<or> x = VFloat (of_int TYPE_MARKER)"
    by (auto simp: decodes_def)
  with rs show ?case by (intro exI [of _ "r # rs"]) auto
qed simp

fun key_val :: "key \<Rightarrow> val" where
  "key_val (KP (PInt i)) = VInt i"
| "key_val (KP (PStr t)) = VStr t"
| "key_val (KEnum c p) = VEnum c p"
| "key_val (KOther t) = VNone"

lemma raw_pathel_pathel_raw [simp]: "raw_pathel (pathel_raw p) = Some p"
  by (cases p) auto

lemma key_decodes:
  assumes "key_ok s k"
  shows "\<exists>r. key_raw s k = Inr r \<and> from_raw s r = Inr (key_val k) \<and> val_key (key_val k) = Inr k"
proof (cases k)
  case (KP p)
  then show ?thesis by (cases p) (auto simp: from_raw.simps)
next
  case (KEnum c p)
  with assms have reg: "registered s c ENUM" and p: "p \<in> set (enum_members s c)" by auto
  from from_raw_marked [OF reg, of "\<lambda>cat. if cat = ENUM then Inr [pathel_raw p] else Inl AttributeError"]
  obtain tid where t: "key_raw s k = Inr (RList [RInt TYPE_MARKER, RInt tid, pathel_raw p])"
    "from_raw s (RList [RInt TYPE_MARKER, RInt tid, pathel_raw p]) =
       from_raw_registered s [RInt TYPE_MARKER, RInt tid, pathel_raw p]"
    "class_of_id s (RInt tid) = Inr c" using KEnum by auto
  then show ?thesis
    using reg p KEnum by (simp add: from_raw_registered.simps registered_def is_dataclass_def dict_lookup_def numeral_2_eq_2)
qed (use assms in auto)

lemma build_dict_id: "dict_wf kvs \<Longrightarrow> build_dict kvs = kvs"
proof -
  have "dict_wf (d @ kvs) \<Longrightarrow> fold (\<lambda>(k, v) d. dict_set d k v) kvs d = d @ kvs" for d
  proof (induction kvs arbitrary: d)
    case (Cons kv kvs)
    obtain k v where kv: "kv = (k, v)" by (cases kv)
    with Cons.prems have "dict_set d k v = d @ [(k, v)]" by (intro dict_set_fresh) auto
    with Cons kv show ?case by simp
  qed simp
  from this [of "[]"] show "dict_wf kvs \<Longrightarrow> ?thesis" by (simp add: build_dict_def)
qed

lemma rmap_pairs:
  assumes "\<forall>(k, v) \<in> set kvs. key_ok s k \<and> decodes s v"
  shows "\<exists>rs. rmap (\<lambda>(k, v). rbind (key_raw s k) (\<lambda>rk. rbind (to_raw s v) (\<lambda>rv. Inr (RList [rk, rv])))) kvs = Inr rs \<and>
    rmap (\<lambda>pair. case pair of
        RList [rk, rv] \<Rightarrow> rbind (from_raw s rk) (\<lambda>k. rbind (from_raw s rv) (\<lambda>v.
          rbind (val_key k) (\<lambda>k'. Inr (k', v))))
      | RList _ \<Rightarrow> Inl ValueError | _ \<Rightarrow> Inl TypeError) rs = Inr kvs \<and>
    rmap (\<lambda>pair. case pair of
        RList kv \<Rightarrow> rbind (nth_raw kv 0) (\<lambda>rk. rbind (from_raw s rk) (\<lambda>k.
          rbind (nth_raw kv 1) (\<lambda>rv. rbind (from_raw s rv) (\<lambda>v.
          rbind (val_key k) (\<lambda>k'. Inr (k', v))))))
      | _ \<Rightarrow> Inl TypeError) rs = Inr kvs"
  using assms
proof (induction kvs)
  case (Cons kv kvs)
  obtain k v where kv: "kv = (k, v)" by (cases kv)
  from Cons.prems kv key_decodes [of s k] obtain rk where
    rk: "key_raw s k = Inr rk" "from_raw s rk = Inr (key_val k)" "val_key (key_val k) = Inr k" by auto
  from Cons.prems kv obtain rv where rv: "to_raw s v = Inr rv" "from_raw s rv = Inr v"
    by (auto simp: decodes_def)
  from Cons.IH Cons.prems obtain rs where "rmap (\<lambda>(k, v). rbind (key_raw s k) (\<lambda>rk. rbind (to_raw s v) (\<lambda>rv. Inr (RList [rk, rv])))) kvs = Inr rs"
    "rmap (\<lambda>pair. case pair of
        RList [rk, rv] \<Rightarrow> rbind (from_raw s rk) (\<lambda>k. rbind (from_raw s rv) (\<lambda>v.
          rbind (val_key k) (\<lambda>k'. Inr (k', v))))
      | RList _ \<Rightarrow> Inl ValueError | _ \<Rightarrow> Inl TypeError) rs = Inr kvs"
    "rmap (\<lambda>pair. case pair of
        RList kv \<Rightarrow> rbind (nth_raw kv 0) (\<lambda>rk. rbind (from_raw s rk) (\<lambda>k.
          rbind (nth_raw kv 1) (\<lambda>rv. rbind (from_raw s rv) (\<lambda>v.
          rbind (val_key k) (\<lambda>k'. Inr (k', v))))))
      | _ \<Rightarrow> Inl TypeError) rs = Inr kvs" by auto
  with rk rv kv show ?case by (intro exI [of _ "RList [rk, rv] # rs"]) simp
qed simp

lemma rmap_attrs:
  assumes "dict_wf attrs" "\<forall>(n, v) \<in> set attrs. decodes s v"
  shows "\<exists>rs. rmap (\<lambda>n. rbind (attr_lookup attrs n) (to_raw s)) (map fst attrs) = Inr rs \<and>
    rmap (\<lambda>(i, n). rbind (nth_raw (a # b # rs) (i + 2)) (\<lambda>r. rbind (from_raw s r) (\<lambda>v. Inr (n, v))))
      (enumerate 0 (map fst attrs)) = Inr attrs"
proof -
  have "\<exists>rs. rmap (\<lambda>n. rbind (attr_lookup attrs n) (to_raw s)) (map fst xs) = Inr rs \<and> length rs = length xs \<and>
      (\<forall>pre. rmap (\<lambda>(i, n). rbind (nth_raw (a # b # pre @ rs) (i + 2)) (\<lambda>r. rbind (from_raw s r) (\<lambda>v. Inr (n, v))))
        (enumerate (length pre) (map fst xs)) = Inr xs)" if "set xs \<subseteq> set attrs" for xs
    using that
  proof (induction xs)
    case (Cons x xs)
    obtain n v where x: "x = (n, v)" by (cases x)
    with Cons.prems have v: "map_of attrs n = Some v" "decodes s v"
      using assms by (auto simp: map_of_is_SomeI)
    then obtain r where r: "to_raw s v = Inr r" "from_raw s r = Inr v" by (auto simp: decodes_def)
    from Cons obtain rs where rs: "rmap (\<lambda>n. rbind (attr_lookup attrs n) (to_raw s)) (map fst xs) = Inr rs"
      "length rs = length xs"
      "\<And>pre. rmap (\<lambda>(i, n). rbind (nth_raw (a # b # pre @ rs) (i + 2)) (\<lambda>r. rbind (from_raw s r) (\<lambda>v. Inr (n, v))))
        (enumerate (length pre) (map fst xs)) = Inr xs" by auto
    have "nth_raw (a # b # pre @ r # rs) (length pre + 2) = Inr r" for pre
      by (simp add: nth_raw_def nth_Cons numeral_2_eq_2)
    moreover have "rmap (\<lambda>(i, n). rbind (nth_raw (a # b # pre @ r # rs) (i + 2)) (\<lambda>r. rbind (from_raw s r) (\<lambda>v. Inr (n, v))))
        (enumerate (Suc (length pre)) (map fst xs)) = Inr xs" for pre
      using rs(3) [of "pre @ [r]"] by simp
    ultimately show ?case
      using rs(1,2) r v x by (intro exI [of _ "r # rs"]) (simp add: attr_lookup_def)
  qed simp
  from this [OF subset_refl] obtain rs where "rmap (\<lambda>n. rbind (attr_lookup attrs n) (to_raw s)) (map fst attrs) = Inr rs"
    "\<And>pre. rmap (\<lambda>(i, n). rbind (nth_raw (a # b # pre @ rs) (i + 2)) (\<lambda>r. rbind (from_raw s r) (\<lambda>v. Inr (n, v))))
        (enumerate (length pre) (map fst attrs)) = Inr attrs" by blast
  from this(1) this(2) [of "[]"] show ?thesis by auto
qed

lemmas registered_eval = registered_raw_def from_raw_registered.simps is_dataclass_def dict_lookup_def numeral_2_eq_2

lemma marked_decodes:
  assumes "registered s c cat"
    and "\<And>tid. dict_get (id_from_class s) c = Some tid \<Longrightarrow> dict_get (category_of s) c = Some cat \<Longrightarrow>
      to_raw s v = Inr (RList (RInt TYPE_MARKER # RInt tid # rs))"
    and "\<And>tid. class_of_id s (RInt tid) = Inr c \<Longrightarrow> dict_get (category_of s) c = Some cat \<Longrightarrow>
      from_raw_registered s (RInt TYPE_MARKER # RInt tid # rs) = Inr v"
  shows "decodes s v"
proof -
  from assms(1) obtain tid where "dict_get (id_from_class s) c = Some tid"
    "class_of_id s (RInt tid) = Inr c" "dict_get (category_of s) c = Some cat"
    by (auto simp: registered_def class_of_id_def)
  with assms(2,3) show ?thesis
    by (auto simp: decodes_def from_raw.simps [of s "RList _"] is_marker_def)
qed

lemma prim_raw_decodes: "primitive v \<Longrightarrow> \<exists>r. prim_raw v = Inr r \<and> raw_prim r = Inr v"
  by (cases v) (auto simp: primitive_def)

lemma datetime_decodes:
  assumes "registered s c DATETIME"
  shows "decodes s (VDatetime c t)"
  using assms by (rule marked_decodes [where rs = "[RFloat t]"]) (simp_all add: registered_eval)

lemma timedelta_decodes:
  assumes "registered s c TIMEDELTA"
  shows "decodes s (VTimedelta c t)"
  using assms by (rule marked_decodes [where rs = "[RFloat t]"]) (simp_all add: registered_eval)

lemma enum_decodes:
  assumes "registered s c ENUM" and "p \<in> set (enum_members s c)"
  shows "decodes s (VEnum c p)"
  using assms(1) by (rule marked_decodes [where rs = "[pathel_raw p]"]) (use assms(2) in \<open>simp_all add: registered_eval\<close>)

lemma list_decodes:
  assumes "\<forall>x \<in> set xs. decodes s x" and "if c = ''list'' then \<not> marker_like xs else registered s c LIST"
  shows "decodes s (VList c xs)"
proof -
  from rmap_decodes [OF assms(1)] obtain rs where rs: "rmap (to_raw s) xs = Inr rs"
    "rmap (from_raw s) rs = Inr xs" "length rs = length xs"
    "xs \<noteq> [] \<longrightarrow> is_marker (hd rs) \<longrightarrow> hd xs = VInt TYPE_MARKER \<or> hd xs = VFloat (of_int TYPE_MARKER)"
    by blast
  show ?thesis
  proof (cases "c = ''list''")
    case True
    then have "\<not> (2 \<le> length rs \<and> is_marker (hd rs))" using rs(3,4) assms(2) by (auto simp: marker_like_def)
    then show ?thesis using True rs(1,2) by (auto simp: decodes_def from_raw.simps [of s "RList rs"])
  next
    case False
    with assms(2) have "registered s c LIST" by simp
    then show ?thesis by (rule marked_decodes [where rs = "[RList rs]"]) (use False rs(1,2) in \<open>simp_all add: registered_eval\<close>)
  qed
qed

lemma dict_decodes:
  assumes "\<forall>(k, v) \<in> set kvs. key_ok s k \<and> decodes s v" "dict_wf kvs" "c \<noteq> ''dict'' \<Longrightarrow> registered s c DICT"
  shows "decodes s (VDict c kvs)"
proof -
  from rmap_pairs [OF assms(1)] obtain rs where rs:
    "rmap (\<lambda>(k, v). rbind (key_raw s k) (\<lambda>rk. rbind (to_raw s v) (\<lambda>rv. Inr (RList [rk, rv])))) kvs = Inr rs"
    "rmap (\<lambda>pair. case pair of
        RList [rk, rv] \<Rightarrow> rbind (from_raw s rk) (\<lambda>k. rbind (from_raw s rv) (\<lambda>v.
          rbind (val_key k) (\<lambda>k'. Inr (k', v))))
      | RList _ \<Rightarrow> Inl ValueError | _ \<Rightarrow> Inl TypeError) rs = Inr kvs"
    "rmap (\<lambda>pair. case pair of
        RList kv \<Rightarrow> rbind (nth_raw kv 0) (\<lambda>rk. rbind (from_raw s rk) (\<lambda>k.
          rbind (nth_raw kv 1) (\<lambda>rv. rbind (from_raw s rv) (\<lambda>v.
          rbind (val_key k) (\<lambda>k'. Inr (k', v))))))
      | _ \<Rightarrow> Inl TypeError) rs = Inr kvs" by blast
  show ?thesis
  proof (cases "c = ''dict''")
    case True
    have "from_raw s (RDict [(''__dict__'', RList rs)]) = Inr (VDict ''dict'' kvs)"
      unfolding from_raw.simps [of s "RDict [(''__dict__'', RList rs)]"]
      using rs(2) by (simp add: dict_lookup_def build_dict_id [OF assms(2)])
    then show ?thesis using True rs(1) by (simp add: decodes_def)
  next
    case False
    with assms(3) have "registered s c DICT" by simp
    then show ?thesis
      by (rule marked_decodes [where rs = "[RList rs]"])
        (use False rs(1) rs(3) [unfolded One_nat_def] in
          \<open>simp_all add: registered_eval build_dict_id [OF assms(2)]\<close>)
  qed
qed

lemma dataclass_decodes:
  assumes "dict_wf attrs" "\<forall>(n, v) \<in> set attrs. decodes s v" "is_dataclass cat" "registered s c cat"
    "dict_get (fields_of s) c = Some (map fst attrs)"
  shows "decodes s (VObj c attrs)"
proof -
  obtain rs where rs: "rmap (\<lambda>n. rbind (attr_lookup attrs n) (to_raw s)) (map fst attrs) = Inr rs"
    using rmap_attrs [OF assms(1,2)] by blast
  have inv: "rmap (\<lambda>(i, n). rbind (nth_raw (a # b # rs) (i + 2)) (\<lambda>r. rbind (from_raw s r) (\<lambda>v. Inr (n, v))))
      (enumerate 0 (map fst attrs)) = Inr attrs" for a b
    using rmap_attrs [OF assms(1,2), of a b] rs by simp
  show ?thesis
    by (rule marked_decodes [OF assms(4), where rs = rs])
      (use rs inv assms(3,5) in \<open>simp_all add: registered_raw_def from_raw_registered.simps dict_lookup_def\<close>)
qed

lemma point_decodes:
  assumes "registered s c POINT" "map fst attrs = [''x'', ''y'']" "list_all (primitive \<circ> snd) attrs"
  shows "decodes s (VObj c attrs)"
proof -
  from assms(2) obtain x y where a: "attrs = [(''x'', x), (''y'', y)]" by (auto simp: map_eq_Cons_conv)
  with assms(3) have "primitive x" "primitive y" by auto
  then obtain rx ry where "prim_raw x = Inr rx" "raw_prim rx = Inr x"
    "prim_raw y = Inr ry" "raw_prim ry = Inr y"
    using prim_raw_decodes by blast
  then show ?thesis
    by (intro marked_decodes [OF assms(1), where rs = "[rx, ry]"])
      (simp_all add: a registered_eval attr_lookup_def numeral_3_eq_3)
qed

lemma serial_ok_decodes: "serial_ok s v \<Longrightarrow> decodes s v"
proof (induction v)
  case (VList c xs)
  then show ?case by (intro list_decodes) (auto simp: list_all_iff)
next
  case (VDict c kvs)
  then show ?case by (intro dict_decodes) (auto simp: list_all_iff split: if_splits)
next
  case (VObj c attrs)
  then have all: "\<forall>(n, v) \<in> set attrs. decodes s v" "dict_wf attrs" by (auto simp: list_all_iff)
  from VObj.prems consider cat where "is_dataclass cat" "registered s c cat"
      "dict_get (fields_of s) c = Some (map fst attrs)"
    | "registered s c POINT" "map fst attrs = [''x'', ''y'']" "list_all (primitive \<circ> snd) attrs"
    by (auto simp: is_dataclass_def)
  then show ?case using all by cases (auto intro: dataclass_decodes point_decodes)
next
  case (VEnum c p)
  then show ?case by (simp add: enum_decodes)
next
  case (VDatetime c t)
  then show ?case by (simp add: datetime_decodes timedelta_decodes)
next
  case (VTimedelta c t)
  then show ?case by (simp add: datetime_decodes timedelta_decodes)
qed (auto simp: decodes_def from_raw.simps is_marker_def)

lemma serialize_codes:
  assumes "serial_ok s v" and "\<And>r. to_raw s v = Inr r \<Longrightarrow> codes encode decode r"
  shows "codes (serialize encode s) (deserialize decode s) v"
  using serial_ok_decodes [OF assms(1)] assms(2)
  by (force simp: decodes_def serialize_def deserialize_def codes_def)

subsection \<open>Registering classes\<close>

definition empty_registry :: registry where
  "empty_registry = \<lparr>CLASS_FROM_ID = [], ID_FROM_CLASS = [], CATEGORY = [], FIELDS_CACHE = []\<rparr>"

definition register_all ::
    "(string \<Rightarrow> int) \<Rightarrow> (string \<Rightarrow> string list) \<Rightarrow> int \<Rightarrow> (string \<times> category) list \<Rightarrow> registry" where
  "register_all stable_type_id mapping version cs =
     fold (\<lambda>(c, cat). register stable_type_id mapping version c cat) cs empty_registry"

lemma at_version_set [simp]:
  "at_version (set_at_version d v k x) v' = (if v' = v then dict_set (at_version d v) k x else at_version d v')"
  by (simp add: at_version_def set_at_version_def)

lemma at_version_Nil [simp]: "at_version [] v = []"
  by (simp add: at_version_def)

definition registry_holds ::
    "(string \<Rightarrow> int) \<Rightarrow> (string \<Rightarrow> string list) \<Rightarrow> int \<Rightarrow> (string \<times> category) list \<Rightarrow> registry \<Rightarrow> bool" where
  "registry_holds tid mapping version cs reg \<longleftrightarrow>
     (\<forall>v. v \<noteq> version \<longrightarrow> at_version (CLASS_FROM_ID reg) v = [] \<and> at_version (ID_FROM_CLASS reg) v = [] \<and>
        at_version (CATEGORY reg) v = [] \<and> at_version (FIELDS_CACHE reg) v = []) \<and>
     (\<forall>(c, cat) \<in> set cs.
        dict_get (at_version (CLASS_FROM_ID reg) version) (tid c) = Some c \<and>
        dict_get (at_version (ID_FROM_CLASS reg) version) c = Some (tid c) \<and>
        dict_get (at_version (CATEGORY reg) version) c = Some cat \<and>
        (is_dataclass cat \<longrightarrow> dict_get (at_version (FIELDS_CACHE reg) version) c = Some (mapping c)))"

lemma register_holds:
  assumes "registry_holds tid mapping version cs reg" and "c \<notin> fst ` set cs"
    and "\<forall>d \<in> fst ` set cs. tid d \<noteq> tid c"
  shows "registry_holds tid mapping version (cs @ [(c, cat)]) (register tid mapping version c cat reg)"
proof -
  have "c' \<noteq> c \<and> tid c' \<noteq> tid c" if "(c', cat') \<in> set cs" for c' cat'
    using that assms(2,3) by (metis (no_types, lifting) fst_conv imageI)
  with assms(1) show ?thesis
    by (fastforce simp: registry_holds_def register_def Let_def)
qed

lemma register_all_holds:
  assumes "distinct (map fst cs)" and "inj_on tid (fst ` set cs)"
  shows "registry_holds tid mapping version cs (register_all tid mapping version cs)"
  using assms
proof (induction cs rule: rev_induct)
  case Nil
  then show ?case by (simp add: registry_holds_def register_all_def empty_registry_def)
next
  case (snoc x cs)
  obtain c cat where x: "x = (c, cat)" by (cases x)
  have "registry_holds tid mapping version cs (register_all tid mapping version cs)"
    using snoc by (auto intro: inj_on_subset)
  moreover have "c \<notin> fst ` set cs" using snoc.prems(1) x by auto
  moreover have "\<forall>d \<in> fst ` set cs. tid d \<noteq> tid c"
    using snoc.prems(2) x \<open>c \<notin> fst ` set cs\<close> by (auto simp: inj_on_def)
  ultimately show ?case
    using register_holds by (simp add: register_all_def x)
qed

lemma dict_update_Nil [simp]: "dict_update d [] = d"
  by (simp add: dict_update_def)

subsection \<open>Properties\<close>

text \<open>Classes registered under one client version, with numbers that do not collide, are known to
  the serializer of that version: each is found by its number and by its name, with its category,
  and a dataclass with the attribute names of its mapping.\<close>

lemma registered_classes_known:
  assumes "distinct (map fst cs)" and "inj_on stable_type_id (fst ` set cs)" and "version \<noteq> -1"
    and "(c, cat) \<in> set cs"
  shows "registered (new_serializer members (register_all stable_type_id mapping version cs) version) c cat \<and>
    (is_dataclass cat \<longrightarrow>
       dict_get (fields_of (new_serializer members (register_all stable_type_id mapping version cs) version)) c
         = Some (mapping c))"
proof -
  have h: "registry_holds stable_type_id mapping version cs (register_all stable_type_id mapping version cs)"
    by (rule register_all_holds) (use assms in auto)
  with assms(3,4) show ?thesis
    by (fastforce simp: registry_holds_def registered_def new_serializer_def)
qed

definition sample_classes :: "(string \<times> category) list" where
  "sample_classes = [(''Army'', DATACLASS), (''Kind'', ENUM), (''HashMap'', DICT), (''DateTime'', DATETIME)]"

definition sample_type_id :: "string \<Rightarrow> int" where
  "sample_type_id c = (if c = ''Army'' then 11 else if c = ''Kind'' then 12 else if c = ''HashMap'' then 13 else 14)"

definition sample_fields :: "string \<Rightarrow> string list" where
  "sample_fields c = (if c = ''Army'' then [''id'', ''kind'', ''units''] else [])"

definition sample_serializer :: serializer where
  "sample_serializer = new_serializer (\<lambda>c. [PInt 1, PInt 2])
     (register_all sample_type_id sample_fields 217 sample_classes) 217"

lemma registered_classes_known_witness:
  "registered sample_serializer ''Army'' DATACLASS \<and>
   dict_get (fields_of sample_serializer) ''Army'' = Some [''id'', ''kind'', ''units'']"
  using registered_classes_known [of sample_classes sample_type_id 217 "''Army''" DATACLASS "\<lambda>c. [PInt 1, PInt 2]" sample_fields]
  by (simp add: sample_classes_def sample_type_id_def sample_serializer_def sample_fields_def is_dataclass_def)


definition sample_object :: val where
  "sample_object = VObj ''Army'' [(''id'', VInt 7), (''kind'', VEnum ''Kind'' (PInt 2)),
     (''units'', VList ''list'' [VNone, VDict ''HashMap'' [(KEnum ''Kind'' (PInt 1), VStr ''a''), (KP (PInt 3), VFloat (1/2))],
        VDatetime ''DateTime'' 1700000000])]"

lemma sample_registered:
  "registered sample_serializer ''Army'' DATACLASS" "registered sample_serializer ''Kind'' ENUM"
  "registered sample_serializer ''HashMap'' DICT" "registered sample_serializer ''DateTime'' DATETIME"
  "dict_get (fields_of sample_serializer) ''Army'' = Some [''id'', ''kind'', ''units'']"
  "enum_members sample_serializer ''Kind'' = [PInt 1, PInt 2]"
  using register_all_holds [of sample_classes sample_type_id sample_fields 217]
  by (simp_all add: sample_serializer_def sample_classes_def sample_type_id_def sample_fields_def
      registered_def new_serializer_def registry_holds_def is_dataclass_def)



end
