(* ===== verification/PatchNode.thy ===== *)
theory PatchNode
  imports Binary Serializer
begin

text \<open>
  Patches as the edges of the patch graph and their binary form
  (\<open>replay/patch_graph_node.py\<close>).

  A patch holds operation codes, path indices (\<open>None\<close> where a path is unknown to the tree) and
  values.  The \<open>msgpack\<close> and \<open>msgspec\<close> libraries are parameters, gathered in a record; a NumPy
  conversion to a fixed-width integer type raises \<open>OverflowError\<close> outside the range.
\<close>

subsection \<open>The node\<close>

record patch_node =
  from_timestamp :: int
  to_timestamp :: int
  node_op_types :: "int list"
  node_paths :: "nat option list"
  node_values :: "val list"
  node_cost :: int

definition compute_cost :: "int list \<Rightarrow> int" where
  "compute_cost ops = max 1 (int (length ops))"

definition new_patch_node ::
    "int \<Rightarrow> int \<Rightarrow> int list \<Rightarrow> nat option list \<Rightarrow> val list \<Rightarrow> int option \<Rightarrow> patch_node" where
  "new_patch_node from_ts to_ts ops ps vs cost =
     \<lparr>from_timestamp = from_ts, to_timestamp = to_ts, node_op_types = ops, node_paths = ps,
      node_values = vs,
      node_cost = (case cost of None \<Rightarrow> compute_cost ops
                              | Some c \<Rightarrow> if c = 0 then compute_cost ops else c)\<rparr>"

definition is_primitive :: "val \<Rightarrow> bool" where
  "is_primitive v \<longleftrightarrow> (case v of VInt _ \<Rightarrow> True | VFloat _ \<Rightarrow> True | VBool _ \<Rightarrow> True | VStr _ \<Rightarrow> True | _ \<Rightarrow> False)"

subsection \<open>Binary form\<close>

type_synonym triples = "(nat \<times> nat \<times> pathel) list"

record codecs =
  pack_paths :: "triples \<Rightarrow> bytes result"
  unpack_paths :: "bytes \<Rightarrow> triples result"
  pack_prims :: "val list \<Rightarrow> bytes result"
  unpack_prims :: "bytes \<Rightarrow> val list result"
  raw_encode :: "raw \<Rightarrow> bytes result"
  raw_decode :: "bytes \<Rightarrow> raw result"

definition np_bytes :: "code \<Rightarrow> int list \<Rightarrow> bytes result" where
  "np_bytes c vs = (if list_all (in_range c) vs then Inr (concat (map (le_bytes (calcsize c)) vs))
                    else Inl OverflowError)"

definition path_number :: "nat option \<Rightarrow> int result" where
  "path_number p = (case p of None \<Rightarrow> Inl TypeError | Some i \<Rightarrow> Inr (int i))"

definition node_serialize :: "codecs \<Rightarrow> serializer \<Rightarrow> triples \<Rightarrow> patch_node \<Rightarrow> bytes result" where
  "node_serialize K s new_paths p =
     rbind (write_int64 (from_timestamp p) new_writer) (\<lambda>w.
     rbind (write_int64 (to_timestamp p) w) (\<lambda>w.
     rbind (write_int32 (node_cost p) w) (\<lambda>w.
     rbind (write_uint32 (int (length (node_op_types p))) w) (\<lambda>w.
     rbind (pack_paths K new_paths) (\<lambda>new_paths_blob.
     rbind (write_uint32 (int (length new_paths_blob)) w) (\<lambda>w.
     let w = write_bytes new_paths_blob w in
     rbind (np_bytes (CS 1) (node_op_types p)) (\<lambda>ob.
     let w = write_bytes ob w in
     rbind (rmap path_number (node_paths p)) (\<lambda>pn.
     rbind (np_bytes (CU 4) pn) (\<lambda>pb.
     let w = write_bytes pb w;
         value_types = map (\<lambda>v. if is_primitive v then 0 else 1) (node_values p);
         primitives = filter is_primitive (node_values p);
         complexes = filter (\<lambda>v. \<not> is_primitive v) (node_values p) in
     rbind (np_bytes (CS 1) value_types) (\<lambda>vb.
     let w = write_bytes vb w in
     rbind (pack_prims K primitives) (\<lambda>primitive_blob.
     rbind (write_uint32 (int (length primitive_blob)) w) (\<lambda>w.
     let w = write_bytes primitive_blob w in
     rbind (serialize (raw_encode K) s (VList ''list'' complexes)) (\<lambda>complex_blob.
     rbind (write_uint32 (int (length complex_blob)) w) (\<lambda>w.
     Inr (getbuffer (write_bytes complex_blob w))))))))))))))))"

text \<open>The loop that hands out the stored values by type byte; the state is the two positions.\<close>

fun pick_values :: "byte list \<Rightarrow> val list \<Rightarrow> val list \<Rightarrow> val list result" where
  "pick_values [] ps cs = Inr []"
| "pick_values (t # ts) ps cs =
     (if t = 0 then (case ps of [] \<Rightarrow> Inl IndexError
                     | v # ps' \<Rightarrow> rbind (pick_values ts ps' cs) (\<lambda>vs. Inr (v # vs)))
      else (case cs of [] \<Rightarrow> Inl IndexError
            | v # cs' \<Rightarrow> rbind (pick_values ts ps cs') (\<lambda>vs. Inr (v # vs))))"

definition node_deserialize ::
    "codecs \<Rightarrow> serializer \<Rightarrow> bytes \<Rightarrow> (patch_node \<times> triples) result" where
  "node_deserialize K s data =
     rbind (read_int64 (new_reader data 0)) (\<lambda>(from_ts, r).
     rbind (read_int64 r) (\<lambda>(to_ts, r).
     rbind (read_int32 r) (\<lambda>(cost, r).
     rbind (read_uint32 r) (\<lambda>(n, r).
     rbind (read_uint32 r) (\<lambda>(len_new_paths, r).
     let (npb, r) = read_bytes_view len_new_paths r in
     rbind (unpack_paths K npb) (\<lambda>new_paths.
     let (ob, r) = read_bytes n r;
         ops = decode_ints (CS 1) (length ob) ob;
         (pb, r) = read_bytes_view (n * 4) r in
     rbind (if length pb mod 4 = 0 then Inr (decode_ints (CU 4) (length pb div 4) pb) else Inl ValueError) (\<lambda>ps.
     let (vt, r) = read_bytes_view n r in
     rbind (read_uint32 r) (\<lambda>(len_primitives, r).
     let (prim, r) = read_bytes_view len_primitives r in
     rbind (read_uint32 r) (\<lambda>(len_complexes, r).
     let (comp, r) = read_bytes_view len_complexes r in
     rbind (unpack_prims K prim) (\<lambda>primitive_values.
     rbind (deserialize (raw_decode K) s comp) (\<lambda>complex_obj.
     case complex_obj of
       VList _ complex_values \<Rightarrow>
         rbind (pick_values vt primitive_values complex_values) (\<lambda>vals.
           Inr (new_patch_node from_ts to_ts ops (map (\<lambda>i. Some (nat i)) ps) vals (Some cost), new_paths))
     | _ \<Rightarrow> Inl TypeError)))))))))))"

definition extract_tree_nodes :: "codecs \<Rightarrow> bytes \<Rightarrow> triples result" where
  "extract_tree_nodes K data =
     (let offset = int (calcsizes [CS 8, CS 8, CS 4, CS 4]) in
      rbind (unpack_int_from (CU 4) data offset) (\<lambda>new_paths_len.
        unpack_paths K (py_slice data (offset + 4) (offset + 4 + new_paths_len))))"

subsection \<open>Reading what was written\<close>

definition ready :: "field list \<Rightarrow> binary_reader \<Rightarrow> bool" where
  "ready fs r \<longleftrightarrow> reads_at r (concat (map field_enc fs))"

lemma ready_Cons:
  "ready (f # fs) r \<Longrightarrow> reads_at r (field_enc f) \<and> ready fs (advance (int (length (field_enc f))) r)"
  by (auto simp: ready_def intro: reads_at_head reads_at_tail)

lemma ready_int64: "ready (I64 v # fs) r \<Longrightarrow> in_range (CS 8) v \<Longrightarrow>
    \<exists>r'. read_int64 r = Inr (v, r') \<and> ready fs r'"
  using ready_Cons [of "I64 v" fs r] i64.rd_ok [of v r] by (auto simp del: in_range.simps)

lemma ready_int32: "ready (I32 v # fs) r \<Longrightarrow> in_range (CS 4) v \<Longrightarrow>
    \<exists>r'. read_int32 r = Inr (v, r') \<and> ready fs r'"
  using ready_Cons [of "I32 v" fs r] i32.rd_ok [of v r] by (auto simp del: in_range.simps)

lemma ready_uint32: "ready (U32 v # fs) r \<Longrightarrow> in_range (CU 4) v \<Longrightarrow>
    \<exists>r'. read_uint32 r = Inr (v, r') \<and> ready fs r'"
  using ready_Cons [of "U32 v" fs r] u32.rd_ok [of v r] by (auto simp del: in_range.simps)

lemma ready_bytes: "ready (Raw bs # fs) r \<Longrightarrow> n = int (length bs) \<Longrightarrow>
    \<exists>r'. read_bytes n r = (bs, r') \<and> ready fs r'"
  using ready_Cons [of "Raw bs" fs r] read_bytes_reads [of r bs] by auto

definition path_numbers :: "patch_node \<Rightarrow> int list" where
  "path_numbers p = map (\<lambda>q. case q of Some i \<Rightarrow> int i | None \<Rightarrow> 0) (node_paths p)"

definition value_types :: "patch_node \<Rightarrow> int list" where
  "value_types p = map (\<lambda>v. if is_primitive v then 0 else 1) (node_values p)"

definition node_fields :: "patch_node \<Rightarrow> bytes \<Rightarrow> bytes \<Rightarrow> bytes \<Rightarrow> field list" where
  "node_fields p npb pb cb =
     [I64 (from_timestamp p), I64 (to_timestamp p), I32 (node_cost p), U32 (int (length (node_op_types p))),
      U32 (int (length npb)), Raw npb, Raw (concat (map (le_bytes 1) (node_op_types p))),
      Raw (concat (map (le_bytes 4) (path_numbers p))), Raw (concat (map (le_bytes 1) (value_types p))),
      U32 (int (length pb)), Raw pb, U32 (int (length cb)), Raw cb]"

definition node_storable :: "patch_node \<Rightarrow> bool" where
  "node_storable p \<longleftrightarrow> in_range (CS 8) (from_timestamp p) \<and> in_range (CS 8) (to_timestamp p) \<and>
     in_range (CS 4) (node_cost p) \<and> node_cost p \<noteq> 0 \<and>
     int (length (node_op_types p)) < 2 ^ 32 \<and> length (node_paths p) = length (node_op_types p) \<and>
     length (node_values p) = length (node_op_types p) \<and>
     list_all (in_range (CS 1)) (node_op_types p) \<and>
     list_all (\<lambda>q. case q of None \<Rightarrow> False | Some i \<Rightarrow> i < 2 ^ 32) (node_paths p)"

lemma rmap_path_number:
  "list_all (\<lambda>q. case q of None \<Rightarrow> False | Some i \<Rightarrow> i < 2 ^ 32) ps \<Longrightarrow>
   rmap path_number ps = Inr (map (\<lambda>q. case q of Some i \<Rightarrow> int i | None \<Rightarrow> 0) ps)"
  by (rule rmap_Inr) (auto simp: list_all_iff path_number_def split: option.splits)

lemma path_numbers_range:
  "list_all (\<lambda>q. case q of None \<Rightarrow> False | Some i \<Rightarrow> i < 2 ^ 32) (node_paths p) \<Longrightarrow>
   list_all (in_range (CU 4)) (path_numbers p)"
  by (auto simp: path_numbers_def list_all_iff split: option.splits dest!: bspec)

lemma path_numbers_inv:
  "list_all (\<lambda>q. case q of None \<Rightarrow> False | Some i \<Rightarrow> i < 2 ^ 32) (node_paths p) \<Longrightarrow>
   map (\<lambda>i. Some (nat i)) (path_numbers p) = node_paths p"
  unfolding path_numbers_def map_map by (rule map_idI) (auto simp: list_all_iff split: option.splits dest!: bspec)

lemma value_types_range: "list_all (in_range (CS 1)) (value_types p)"
  by (auto simp: value_types_def list_all_iff)

lemma node_serialize_fields:
  assumes "node_storable p" and "pack_paths K nps = Inr npb" "int (length npb) < 2 ^ 32"
    and "pack_prims K (filter is_primitive (node_values p)) = Inr pb" "int (length pb) < 2 ^ 32"
    and "serialize (raw_encode K) s (VList ''list'' (filter (\<lambda>v. \<not> is_primitive v) (node_values p))) = Inr cb"
    and "int (length cb) < 2 ^ 32"
  shows "node_serialize K s nps p = Inr (concat (map field_enc (node_fields p npb pb cb)))"
proof -
  have r: "in_range (CU 4) (int (length npb))" "in_range (CU 4) (int (length pb))"
    "in_range (CU 4) (int (length cb))" "in_range (CU 4) (int (length (node_op_types p)))"
    using assms(1,3,5,7) by (auto simp: node_storable_def)
  have pn: "rmap path_number (node_paths p) = Inr (path_numbers p)"
    "list_all (in_range (CU 4)) (path_numbers p)"
    using assms(1) rmap_path_number path_numbers_range
    by (auto simp: node_storable_def path_numbers_def simp del: in_range.simps)
  have g: "getbuffer (bio_write bs new_writer) = bs" for bs
    by (simp add: bio_write_appending getbuffer_def) (simp add: new_writer_def)
  have vt: "map (\<lambda>v. if is_primitive v then 0 else 1) (node_values p) = value_types p"
    by (simp add: value_types_def)
  show ?thesis
    using assms r pn value_types_range [of p]
    by (simp add: node_serialize_def node_storable_def i64.wr_ok i32.wr_ok u32.wr_ok write_bytes_def
        np_bytes_def vt Let_def bio_write_append g node_fields_def del: in_range.simps)
qed

lemma pick_values_back:
  "pick_values (concat (map (le_bytes 1) (map (\<lambda>v. if is_primitive v then 0 else 1) vs)))
     (filter is_primitive vs) (filter (\<lambda>v. \<not> is_primitive v) vs) = Inr vs"
  by (induction vs) auto

lemma decode_ints_back:
  "list_all (in_range c) vs \<Longrightarrow> n = length vs \<Longrightarrow> decode_ints c n (concat (map (le_bytes (calcsize c)) vs)) = vs"
  using decode_ints_le_bytes [of c vs "[]"] by simp

text \<open>The two halves of the reads of \<open>deserialize\<close>: up to the new paths, and the rest.\<close>

lemma node_head_reads:
  assumes "in_range (CS 8) ft" "in_range (CS 8) tt" "in_range (CS 4) c" "in_range (CU 4) n"
    "int (length npb) < 2 ^ 32"
    and "ready ([I64 ft, I64 tt, I32 c, U32 n, U32 (int (length npb)), Raw npb] @ fs) r0"
  shows "\<exists>r1 r2 r3 r4 r5 r6. read_int64 r0 = Inr (ft, r1) \<and> read_int64 r1 = Inr (tt, r2) \<and>
    read_int32 r2 = Inr (c, r3) \<and> read_uint32 r3 = Inr (n, r4) \<and>
    read_uint32 r4 = Inr (int (length npb), r5) \<and> read_bytes (int (length npb)) r5 = (npb, r6) \<and> ready fs r6"
proof -
  have l: "in_range (CU 4) (int (length npb))" using assms(5) by simp
  from ready_int64 [OF assms(6) [unfolded append_Cons] assms(1)] obtain r1 where
    r1: "read_int64 r0 = Inr (ft, r1)"
    and y1: "ready (I64 tt # I32 c # U32 n # U32 (int (length npb)) # Raw npb # [] @ fs) r1" by blast
  from ready_int64 [OF y1 assms(2)] obtain r2 where r2: "read_int64 r1 = Inr (tt, r2)"
    and y2: "ready (I32 c # U32 n # U32 (int (length npb)) # Raw npb # [] @ fs) r2" by blast
  from ready_int32 [OF y2 assms(3)] obtain r3 where r3: "read_int32 r2 = Inr (c, r3)"
    and y3: "ready (U32 n # U32 (int (length npb)) # Raw npb # [] @ fs) r3" by blast
  from ready_uint32 [OF y3 assms(4)] obtain r4 where r4: "read_uint32 r3 = Inr (n, r4)"
    and y4: "ready (U32 (int (length npb)) # Raw npb # [] @ fs) r4" by blast
  from ready_uint32 [OF y4 l] obtain r5 where r5: "read_uint32 r4 = Inr (int (length npb), r5)"
    and y5: "ready (Raw npb # [] @ fs) r5" by blast
  from ready_bytes [OF y5 refl] obtain r6 where "read_bytes (int (length npb)) r5 = (npb, r6)" "ready fs r6"
    by auto
  with r1 r2 r3 r4 r5 show ?thesis by blast
qed

lemma node_tail_reads:
  assumes "n = int (length ob)" "n * 4 = int (length qb)" "n = int (length vb)"
    "int (length pb) < 2 ^ 32" "int (length cb) < 2 ^ 32"
    and "ready [Raw ob, Raw qb, Raw vb, U32 (int (length pb)), Raw pb, U32 (int (length cb)), Raw cb] r6"
  shows "\<exists>r7 r8 r9 r10 r11 r12 r13. read_bytes n r6 = (ob, r7) \<and> read_bytes (n * 4) r7 = (qb, r8) \<and>
    read_bytes n r8 = (vb, r9) \<and> read_uint32 r9 = Inr (int (length pb), r10) \<and>
    read_bytes (int (length pb)) r10 = (pb, r11) \<and> read_uint32 r11 = Inr (int (length cb), r12) \<and>
    read_bytes (int (length cb)) r12 = (cb, r13)"
proof -
  have l: "in_range (CU 4) (int (length pb))" "in_range (CU 4) (int (length cb))" using assms(4,5) by simp_all
  from ready_bytes [OF assms(6,1)] obtain r7 where r7: "read_bytes n r6 = (ob, r7)"
    and y7: "ready [Raw qb, Raw vb, U32 (int (length pb)), Raw pb, U32 (int (length cb)), Raw cb] r7" by blast
  from ready_bytes [OF y7 assms(2)] obtain r8 where r8: "read_bytes (n * 4) r7 = (qb, r8)"
    and y8: "ready [Raw vb, U32 (int (length pb)), Raw pb, U32 (int (length cb)), Raw cb] r8" by blast
  from ready_bytes [OF y8 assms(3)] obtain r9 where r9: "read_bytes n r8 = (vb, r9)"
    and y9: "ready [U32 (int (length pb)), Raw pb, U32 (int (length cb)), Raw cb] r9" by blast
  from ready_uint32 [OF y9 l(1)] obtain r10 where r10: "read_uint32 r9 = Inr (int (length pb), r10)"
    and y10: "ready [Raw pb, U32 (int (length cb)), Raw cb] r10" by blast
  from ready_bytes [OF y10 refl] obtain r11 where r11: "read_bytes (int (length pb)) r10 = (pb, r11)"
    and y11: "ready [U32 (int (length cb)), Raw cb] r11" by blast
  from ready_uint32 [OF y11 l(2)] obtain r12 where r12: "read_uint32 r11 = Inr (int (length cb), r12)"
    and y12: "ready [Raw cb] r12" by blast
  from ready_bytes [OF y12 refl] obtain r13 where "read_bytes (int (length cb)) r12 = (cb, r13)" by blast
  with r7 r8 r9 r10 r11 r12 show ?thesis by blast
qed

lemma node_columns:
  assumes "node_storable p"
  shows "decode_ints (CS 1) (length (node_op_types p)) (concat (map (le_bytes 1) (node_op_types p))) = node_op_types p"
    and "decode_ints (CU 4) (length (path_numbers p)) (concat (map (le_bytes 4) (path_numbers p))) = path_numbers p"
    and "map (\<lambda>i. Some (nat i)) (path_numbers p) = node_paths p"
    and "pick_values (concat (map (le_bytes 1) (value_types p))) (filter is_primitive (node_values p))
           (filter (\<lambda>v. \<not> is_primitive v) (node_values p)) = Inr (node_values p)"
proof -
  have "list_all (in_range (CS 1)) (node_op_types p)" "list_all (in_range (CU 4)) (path_numbers p)"
    using assms path_numbers_range by (auto simp: node_storable_def simp del: in_range.simps)
  then show "decode_ints (CS 1) (length (node_op_types p)) (concat (map (le_bytes 1) (node_op_types p))) = node_op_types p"
    "decode_ints (CU 4) (length (path_numbers p)) (concat (map (le_bytes 4) (path_numbers p))) = path_numbers p"
    using decode_ints_back by (metis calcsize.simps(2), metis calcsize.simps(1))
  show "map (\<lambda>i. Some (nat i)) (path_numbers p) = node_paths p"
    using assms path_numbers_inv by (simp add: node_storable_def)
  show "pick_values (concat (map (le_bytes 1) (value_types p))) (filter is_primitive (node_values p))
      (filter (\<lambda>v. \<not> is_primitive v) (node_values p)) = Inr (node_values p)"
    unfolding value_types_def by (rule pick_values_back)
qed

lemma node_deserialize_fields:
  assumes "node_storable p" and "unpack_paths K npb = Inr nps" "int (length npb) < 2 ^ 32"
    and "unpack_prims K pb = Inr (filter is_primitive (node_values p))" "int (length pb) < 2 ^ 32"
    and "deserialize (raw_decode K) s cb = Inr (VList c (filter (\<lambda>v. \<not> is_primitive v) (node_values p)))"
    and "int (length cb) < 2 ^ 32"
  shows "node_deserialize K s (concat (map field_enc (node_fields p npb pb cb))) = Inr (p, nps)"
proof -
  define ob where "ob = concat (map (le_bytes 1) (node_op_types p))"
  define qb where "qb = concat (map (le_bytes 4) (path_numbers p))"
  define vb where "vb = concat (map (le_bytes 1) (value_types p))"
  let ?n = "int (length (node_op_types p))"
  have st: "in_range (CS 8) (from_timestamp p)" "in_range (CS 8) (to_timestamp p)"
    "in_range (CS 4) (node_cost p)" "in_range (CU 4) ?n" "node_cost p \<noteq> 0"
    using assms(1) by (auto simp: node_storable_def)
  have lens: "length ob = length (node_op_types p)" "length qb = length (path_numbers p) * 4"
    "length vb = length (value_types p)" by (simp_all add: ob_def qb_def vb_def length_concat_le_bytes del: length_concat)
  have "length (path_numbers p) = length (node_op_types p)" "length (value_types p) = length (node_op_types p)"
    using assms(1) by (simp_all add: node_storable_def path_numbers_def value_types_def)
  with lens have n: "?n = int (length ob)" "?n * 4 = int (length qb)" "?n = int (length vb)" by simp_all
  let ?r0 = "new_reader (concat (map field_enc (node_fields p npb pb cb))) 0"
  have "ready (node_fields p npb pb cb) ?r0"
    unfolding ready_def reads_at_def new_reader_def by (intro exI [of _ "[]"]) simp
  then have y: "ready ([I64 (from_timestamp p), I64 (to_timestamp p), I32 (node_cost p), U32 ?n,
      U32 (int (length npb)), Raw npb] @ [Raw ob, Raw qb, Raw vb, U32 (int (length pb)), Raw pb,
      U32 (int (length cb)), Raw cb]) ?r0"
    by (simp add: node_fields_def ob_def qb_def vb_def)
  from node_head_reads [OF st(1-4) assms(3) y] obtain r1 r2 r3 r4 r5 r6 where
    h: "read_int64 ?r0 = Inr (from_timestamp p, r1)" "read_int64 r1 = Inr (to_timestamp p, r2)"
      "read_int32 r2 = Inr (node_cost p, r3)" "read_uint32 r3 = Inr (?n, r4)"
      "read_uint32 r4 = Inr (int (length npb), r5)" "read_bytes (int (length npb)) r5 = (npb, r6)"
    and y6: "ready [Raw ob, Raw qb, Raw vb, U32 (int (length pb)), Raw pb, U32 (int (length cb)), Raw cb] r6"
    by blast
  from node_tail_reads [OF n assms(5,7) y6] obtain r7 r8 r9 r10 r11 r12 r13 where
    t: "read_bytes ?n r6 = (ob, r7)" "read_bytes (?n * 4) r7 = (qb, r8)" "read_bytes ?n r8 = (vb, r9)"
      "read_uint32 r9 = Inr (int (length pb), r10)" "read_bytes (int (length pb)) r10 = (pb, r11)"
      "read_uint32 r11 = Inr (int (length cb), r12)" "read_bytes (int (length cb)) r12 = (cb, r13)" by blast
  have "decode_ints (CS 1) (length ob) ob = node_op_types p"
    "decode_ints (CU 4) (length qb div 4) qb = path_numbers p" "length qb mod 4 = 0"
    "pick_values vb (filter is_primitive (node_values p)) (filter (\<lambda>v. \<not> is_primitive v) (node_values p)) =
      Inr (node_values p)"
    using node_columns [OF assms(1)] lens by (simp_all add: ob_def qb_def vb_def)
  moreover have "new_patch_node (from_timestamp p) (to_timestamp p) (node_op_types p) (node_paths p)
      (node_values p) (Some (node_cost p)) = p"
    using st(5) by (simp add: new_patch_node_def)
  ultimately show ?thesis
    unfolding node_deserialize_def
    by (simp add: h t Let_def assms(2,4,6) node_columns(3) [OF assms(1)] del: One_nat_def)
qed

lemma extract_fields:
  assumes "unpack_paths K npb = Inr nps" "int (length npb) < 2 ^ 32"
  shows "extract_tree_nodes K (concat (map field_enc (node_fields p npb pb cb))) = Inr nps"
proof -
  let ?h = "le_bytes 8 (from_timestamp p) @ le_bytes 8 (to_timestamp p) @ le_bytes 4 (node_cost p) @
    le_bytes 4 (int (length (node_op_types p)))"
  obtain rest where d: "concat (map field_enc (node_fields p npb pb cb)) =
      ?h @ le_bytes 4 (int (length npb)) @ npb @ rest" by (simp add: node_fields_def)
  have h: "length ?h = 24" by simp
  have "unpack_int_from (CU 4) (?h @ le_bytes 4 (int (length npb)) @ npb @ rest) 24 = Inr (int (length npb))"
    using buffer_at_append [of "le_bytes 4 (int (length npb))" 4 ?h "npb @ rest"] h assms(2)
    by (simp add: unpack_int_from_def le_uint_roundtrip del: append_assoc)
  moreover have "py_slice (?h @ le_bytes 4 (int (length npb)) @ npb @ rest) 28 (28 + int (length npb)) = npb"
    using py_slice_nat [of "?h @ le_bytes 4 (int (length npb)) @ npb @ rest" 28 "length npb"] by simp
  ultimately show ?thesis
    unfolding extract_tree_nodes_def d by (simp add: calcsizes_def Let_def assms(1) del: append_assoc)
qed

subsection \<open>Properties\<close>

text \<open>The blobs the external encoders make of a patch, each read back by its decoder and short
  enough for its length field.\<close>

definition blobs_ok :: "codecs \<Rightarrow> serializer \<Rightarrow> triples \<Rightarrow> patch_node \<Rightarrow> bool" where
  "blobs_ok K s nps p \<longleftrightarrow>
     (\<exists>npb pb cb. pack_paths K nps = Inr npb \<and> unpack_paths K npb = Inr nps \<and> int (length npb) < 2 ^ 32 \<and>
        pack_prims K (filter is_primitive (node_values p)) = Inr pb \<and>
        unpack_prims K pb = Inr (filter is_primitive (node_values p)) \<and> int (length pb) < 2 ^ 32 \<and>
        serialize (raw_encode K) s (VList ''list'' (filter (\<lambda>v. \<not> is_primitive v) (node_values p))) = Inr cb \<and>
        raw_decode K cb = to_raw s (VList ''list'' (filter (\<lambda>v. \<not> is_primitive v) (node_values p))) \<and>
        int (length cb) < 2 ^ 32)"

lemma complexes_not_marker: "\<not> marker_like (filter (\<lambda>v. \<not> is_primitive v) vs)"
proof -
  have "hd (filter (\<lambda>v. \<not> is_primitive v) vs) \<in> set (filter (\<lambda>v. \<not> is_primitive v) vs)"
    if "2 \<le> length (filter (\<lambda>v. \<not> is_primitive v) vs)"
    using that by (intro hd_in_set) auto
  then show ?thesis by (force simp: marker_like_def is_primitive_def)
qed

lemma node_blobs:
  assumes "node_storable p" "blobs_ok K s nps p" "list_all (serial_ok s) (node_values p)"
  obtains bs npb pb cb where "node_serialize K s nps p = Inr bs" "bs = concat (map field_enc (node_fields p npb pb cb))"
    "node_deserialize K s bs = Inr (p, nps)" "extract_tree_nodes K bs = Inr nps"
proof -
  let ?cs = "filter (\<lambda>v. \<not> is_primitive v) (node_values p)"
  from assms(2) obtain npb pb cb where b: "pack_paths K nps = Inr npb" "unpack_paths K npb = Inr nps"
    "int (length npb) < 2 ^ 32" "pack_prims K (filter is_primitive (node_values p)) = Inr pb"
    "unpack_prims K pb = Inr (filter is_primitive (node_values p))" "int (length pb) < 2 ^ 32"
    "serialize (raw_encode K) s (VList ''list'' ?cs) = Inr cb" "raw_decode K cb = to_raw s (VList ''list'' ?cs)"
    "int (length cb) < 2 ^ 32" by (auto simp: blobs_ok_def)
  have "serial_ok s (VList ''list'' ?cs)"
    using assms(3) complexes_not_marker by (auto simp: list_all_iff)
  from serial_ok_decodes [OF this] have d: "deserialize (raw_decode K) s cb = Inr (VList ''list'' ?cs)"
    by (auto simp: decodes_def deserialize_def b(8))
  show ?thesis
    using that node_serialize_fields [OF assms(1) b(1,3,4,6,7,9)]
      node_deserialize_fields [OF assms(1) b(2,3,5,6) d b(9)] extract_fields [OF b(2,3)] by blast
qed


definition sample_node :: patch_node where
  "sample_node = new_patch_node 1700000000 1700000060 [1, 2, 3] [Some 4, Some 5, Some 6]
     [VInt 5, VList ''list'' [VInt 1], VNone] None"

definition sample_codecs :: codecs where
  "sample_codecs =
     \<lparr>pack_paths = \<lambda>_. Inr [7], unpack_paths = \<lambda>_. Inr [(6, 5, PStr ''x'')],
      pack_prims = \<lambda>_. Inr [8], unpack_prims = \<lambda>_. Inr [VInt 5],
      raw_encode = \<lambda>_. Inr [9], raw_decode = \<lambda>_. Inr (RList [RList [RInt 1], RNone])\<rparr>"


end
