(* ===== verification/PatchGraph.thy ===== *)
theory PatchGraph
  imports PatchNode
begin

text \<open>
  The graph of patches between recorded times (\<open>replay/patch_graph.py\<close>).

  Vertices are time stamps (whole seconds), edges are patches.  \<open>finalize\<close> numbers the time stamps
  densely and fills a cost matrix; \<open>find_patch_path\<close> asks SciPy's \<open>dijkstra\<close> for predecessors and
  walks them back.  The matrix is kept as the entries assigned to it; \<open>dijkstra\<close> is a parameter,
  and what is used of it is \<open>shortest_tree\<close>: distances satisfy the edge inequalities, and the
  predecessor of a reachable vertex is one over which its distance is attained.
\<close>

subsection \<open>The graph\<close>

type_synonym matrix = "(nat \<times> nat, int) dict"

record patch_graph =
  time_stamps_cache :: "int list"
  patches :: "(int \<times> int, patch_node) dict"
  time_stamps :: "int list"
  adj :: "(int, int list) dict"
  graph_n :: nat
  time_to_dense_idx :: "(int, nat) dict"
  dense_idx_to_time :: "int list"
  graph_lil :: "matrix option"
  graph_csr :: "matrix option"
  graph_is_up_to_date :: bool

definition new_patch_graph :: patch_graph where
  "new_patch_graph =
     \<lparr>time_stamps_cache = [], patches = [], time_stamps = [], adj = [], graph_n = 0,
      time_to_dense_idx = [], dense_idx_to_time = [], graph_lil = None, graph_csr = None,
      graph_is_up_to_date = False\<rparr>"

definition path_cost :: "patch_node list \<Rightarrow> int" where
  "path_cost ps = max 1 (sum_list (map node_cost ps))"

definition find_prev_timestamp :: "int \<Rightarrow> patch_graph \<Rightarrow> int option" where
  "find_prev_timestamp target g =
     (let i = bisect_right (time_stamps_cache g) target in
      if i > 0 then Some (time_stamps_cache g ! (i - 1)) else None)"

definition add_edge :: "patch_node \<Rightarrow> patch_graph \<Rightarrow> patch_graph result" where
  "add_edge p g =
     (case dict_get (time_to_dense_idx g) (from_timestamp p) of
        None \<Rightarrow> Inl RuntimeError
      | Some u \<Rightarrow>
          (case dict_get (time_to_dense_idx g) (to_timestamp p) of
             None \<Rightarrow> Inl RuntimeError
           | Some v \<Rightarrow>
               rbind (dict_lookup (adj g) (from_timestamp p)) (\<lambda>ts.
                 case graph_lil g of
                   None \<Rightarrow> Inl RuntimeError
                 | Some m \<Rightarrow>
                     Inr (g\<lparr>patches := dict_set (patches g) (from_timestamp p, to_timestamp p) p,
                            adj := dict_set (adj g) (from_timestamp p) (ts @ [to_timestamp p]),
                            graph_lil := Some (dict_set m (u, v) (node_cost p)),
                            graph_is_up_to_date := False\<rparr>))))"

definition add_vertex :: "int \<Rightarrow> patch_graph \<Rightarrow> patch_graph" where
  "add_vertex t g =
     (if t \<notin> set (time_stamps g)
      then g\<lparr>time_stamps := time_stamps g @ [t], adj := dict_set (adj g) t []\<rparr> else g)"

definition add_edge_and_vertices :: "patch_node \<Rightarrow> patch_graph \<Rightarrow> patch_graph result" where
  "add_edge_and_vertices p g =
     (let g = g\<lparr>patches := dict_set (patches g) (from_timestamp p, to_timestamp p) p\<rparr>;
          g = add_vertex (from_timestamp p) g;
          g = add_vertex (to_timestamp p) g in
      rbind (dict_lookup (adj g) (from_timestamp p)) (\<lambda>ts.
        Inr (g\<lparr>adj := dict_set (adj g) (from_timestamp p) (ts @ [to_timestamp p])\<rparr>)))"

definition create_dense_indices :: "patch_graph \<Rightarrow> patch_graph" where
  "create_dense_indices g =
     g\<lparr>time_to_dense_idx := fold (\<lambda>(i, t) d. dict_set d t i) (enumerate 0 (time_stamps_cache g)) [],
       dense_idx_to_time := time_stamps_cache g,
       graph_n := length (time_stamps_cache g)\<rparr>"

definition create_lil_matrix :: "patch_graph \<Rightarrow> patch_graph result" where
  "create_lil_matrix g =
     rbind (rfold (\<lambda>((from_ts, to_ts), p) m.
         rbind (dict_lookup (time_to_dense_idx g) from_ts) (\<lambda>u.
         rbind (dict_lookup (time_to_dense_idx g) to_ts) (\<lambda>v.
           Inr (dict_set m (u, v) (node_cost p))))) (patches g) [])
       (\<lambda>m. Inr (g\<lparr>graph_lil := Some m\<rparr>))"

definition update_graph :: "patch_graph \<Rightarrow> patch_graph result" where
  "update_graph g =
     (if graph_is_up_to_date g then Inr g
      else case graph_lil g of
        None \<Rightarrow> Inl AttributeError
      | Some m \<Rightarrow> Inr (g\<lparr>graph_csr := Some m, graph_is_up_to_date := True\<rparr>))"

definition finalize :: "patch_graph \<Rightarrow> patch_graph result" where
  "finalize g =
     (let g = g\<lparr>graph_is_up_to_date := False, time_stamps_cache := sort (time_stamps g),
               time_stamps := []\<rparr>;
          g = create_dense_indices g in
      rbind (create_lil_matrix g) update_graph)"

subsection \<open>Shortest paths\<close>

type_synonym dijkstra = "nat \<Rightarrow> matrix \<Rightarrow> nat \<Rightarrow> int option list \<times> int list"

partial_function (option) reconstruct ::
    "patch_graph \<Rightarrow> int list \<Rightarrow> int \<Rightarrow> int \<Rightarrow> patch_node list \<Rightarrow> patch_node list result option" where
  [code]: "reconstruct g pred src cur path =
     (if cur = src then Some (Inr path)
      else case py_index pred cur of
        Inl e \<Rightarrow> Some (Inl e)
      | Inr prev \<Rightarrow>
          (case rbind (py_index (dense_idx_to_time g) prev) (\<lambda>a.
                rbind (py_index (dense_idx_to_time g) cur) (\<lambda>b. dict_lookup (patches g) (a, b))) of
             Inl e \<Rightarrow> Some (Inl e)
           | Inr p \<Rightarrow> reconstruct g pred src prev (path @ [p])))"

definition find_patch_path_exact ::
    "dijkstra \<Rightarrow> int \<Rightarrow> int \<Rightarrow> patch_graph \<Rightarrow> patch_node list result option" where
  "find_patch_path_exact dijk from_time to_time g =
     (if from_time = to_time then Some (Inr [])
      else case update_graph g of
        Inl e \<Rightarrow> Some (Inl e)
      | Inr g' \<Rightarrow>
          (case (dict_lookup (time_to_dense_idx g') from_time, dict_lookup (time_to_dense_idx g') to_time) of
             (Inr src, Inr dst) \<Rightarrow>
               (case dijk (graph_n g') (case graph_csr g' of Some m \<Rightarrow> m | None \<Rightarrow> []) src of
                  (dists, pred) \<Rightarrow>
                    (case py_index pred (int dst) of
                       Inl e \<Rightarrow> Some (Inl e)
                     | Inr q \<Rightarrow>
                         if q = -9999 then Some (Inl ValueError)
                         else map_option (map_sum id rev) (reconstruct g' pred (int src) (int dst) [])))
           | (Inl e, _) \<Rightarrow> Some (Inl e)
           | (_, Inl e) \<Rightarrow> Some (Inl e)))"

text \<open>\<open>int(t.timestamp())\<close> truncates towards zero.\<close>

definition ts_int :: "rat \<Rightarrow> int" where
  "ts_int t = (if t \<ge> 0 then \<lfloor>t\<rfloor> else \<lceil>t\<rceil>)"

definition find_patch_path ::
    "dijkstra \<Rightarrow> rat \<Rightarrow> rat \<Rightarrow> patch_graph \<Rightarrow> patch_node list result option" where
  "find_patch_path dijk from_time to_time g =
     (if time_to_dense_idx g = [] then Some (Inl RuntimeError)
      else case (find_prev_timestamp (ts_int from_time) g, find_prev_timestamp (ts_int to_time) g) of
        (Some a, Some b) \<Rightarrow> find_patch_path_exact dijk a b g
      | _ \<Rightarrow> Some (Inl ValueError))"

subsection \<open>Specification\<close>

fun chain :: "patch_node list \<Rightarrow> int \<Rightarrow> int \<Rightarrow> bool" where
  "chain [] a b \<longleftrightarrow> a = b"
| "chain (p # ps) a b \<longleftrightarrow> from_timestamp p = a \<and> chain ps (to_timestamp p) b"

definition edges :: "patch_graph \<Rightarrow> patch_node set" where
  "edges g = snd ` set (patches g)"

definition chains :: "patch_graph \<Rightarrow> int \<Rightarrow> int \<Rightarrow> patch_node list set" where
  "chains g a b = {ps. set ps \<subseteq> edges g \<and> chain ps a b}"

abbreviation total_cost :: "patch_node list \<Rightarrow> int" where
  "total_cost ps \<equiv> sum_list (map node_cost ps)"

definition matrix_of :: "patch_graph \<Rightarrow> matrix \<Rightarrow> bool" where
  "matrix_of g m \<longleftrightarrow> (\<forall>u v w. dict_get m (u, v) = Some w \<longleftrightarrow>
     u < length (time_stamps_cache g) \<and> v < length (time_stamps_cache g) \<and>
     (\<exists>p. dict_get (patches g) (time_stamps_cache g ! u, time_stamps_cache g ! v) = Some p \<and> node_cost p = w))"

definition graph_ok :: "patch_graph \<Rightarrow> bool" where
  "graph_ok g \<longleftrightarrow> sorted (time_stamps_cache g) \<and> distinct (time_stamps_cache g) \<and>
     dense_idx_to_time g = time_stamps_cache g \<and> graph_n g = length (time_stamps_cache g) \<and>
     (\<forall>t i. dict_get (time_to_dense_idx g) t = Some i \<longleftrightarrow>
        i < length (time_stamps_cache g) \<and> time_stamps_cache g ! i = t) \<and>
     dict_wf (patches g) \<and>
     (\<forall>(k, p) \<in> set (patches g). k = (from_timestamp p, to_timestamp p) \<and> 0 < node_cost p \<and>
        from_timestamp p \<in> set (time_stamps_cache g) \<and> to_timestamp p \<in> set (time_stamps_cache g)) \<and>
     (\<exists>m. graph_lil g = Some m \<and> matrix_of g m \<and> (graph_is_up_to_date g \<longrightarrow> graph_csr g = Some m))"

definition reaches :: "matrix \<Rightarrow> nat \<Rightarrow> nat \<Rightarrow> bool" where
  "reaches m = (\<lambda>u v. \<exists>w. dict_get m (u, v) = Some w)\<^sup>*\<^sup>*"

definition shortest_tree :: "nat \<Rightarrow> matrix \<Rightarrow> nat \<Rightarrow> int option list \<times> int list \<Rightarrow> bool" where
  "shortest_tree n m src r = (case r of (dists, pred) \<Rightarrow>
     length dists = n \<and> length pred = n \<and> dists ! src = Some 0 \<and>
     (\<forall>v d. v < n \<longrightarrow> dists ! v = Some d \<longrightarrow> 0 \<le> d \<and> reaches m src v) \<and>
     (\<forall>u v w d. u < n \<longrightarrow> v < n \<longrightarrow> dict_get m (u, v) = Some w \<longrightarrow> dists ! u = Some d \<longrightarrow>
        (\<exists>d'. dists ! v = Some d' \<and> d' \<le> d + w)) \<and>
     (\<forall>v. v < n \<longrightarrow> v \<noteq> src \<longrightarrow>
        (if reaches m src v
         then \<exists>u w d. u < n \<and> pred ! v = int u \<and> dict_get m (u, v) = Some w \<and> dists ! u = Some d \<and>
                dists ! v = Some (d + w)
         else pred ! v = -9999)))"

subsection \<open>Building the graph\<close>

lemma dense_fold:
  assumes "distinct ts"
  shows "dict_get (fold (\<lambda>(i, t) d. dict_set d t i) (enumerate n ts) d) t =
    (if t \<in> set ts then Some (n + (THE i. i < length ts \<and> ts ! i = t)) else dict_get d t)"
  using assms
proof (induction ts arbitrary: n d)
  case (Cons x ts)
  show ?case
  proof (cases "t = x")
    case True
    then have "t \<notin> set ts" using Cons.prems by simp
    moreover have "(THE i. i < length (x # ts) \<and> (x # ts) ! i = t) = 0"
      using True Cons.prems by (intro the_equality) (auto simp: nth_Cons split: nat.splits)
    ultimately show ?thesis using Cons True by simp
  next
    case False
    show ?thesis
    proof (cases "t \<in> set ts")
      case in_ts: True
      then obtain j where j: "j < length ts" "ts ! j = t" by (auto simp: in_set_conv_nth)
      have "distinct ts" using Cons.prems by simp
      then have "(THE i. i < length ts \<and> ts ! i = t) = j"
        using j by (intro the_equality) (auto simp: nth_eq_iff_index_eq)
      moreover have "(THE i. i < length (x # ts) \<and> (x # ts) ! i = t) = Suc j"
        using j Cons.prems False \<open>distinct ts\<close>
        by (intro the_equality) (auto simp: nth_Cons nth_eq_iff_index_eq split: nat.splits)
      ultimately show ?thesis using Cons False in_ts by simp
    qed (use Cons False in simp)
  qed
qed simp

lemma dense_idx_iff:
  assumes "distinct (time_stamps_cache g)"
  shows "dict_get (time_to_dense_idx (create_dense_indices g)) t = Some i \<longleftrightarrow>
    i < length (time_stamps_cache g) \<and> time_stamps_cache g ! i = t"
proof (cases "t \<in> set (time_stamps_cache g)")
  case True
  then obtain j where j: "j < length (time_stamps_cache g)" "time_stamps_cache g ! j = t"
    by (auto simp: in_set_conv_nth)
  then have "(THE i. i < length (time_stamps_cache g) \<and> time_stamps_cache g ! i = t) = j"
    using assms by (intro the_equality) (auto simp: nth_eq_iff_index_eq)
  then show ?thesis
    using True j assms by (auto simp: create_dense_indices_def dense_fold nth_eq_iff_index_eq)
qed (auto simp: create_dense_indices_def dense_fold assms)

definition under_construction :: "patch_graph \<Rightarrow> bool" where
  "under_construction g \<longleftrightarrow> distinct (time_stamps g) \<and> dict_wf (patches g) \<and>
     set (time_stamps g) \<subseteq> fst ` set (adj g) \<and>
     (\<forall>(k, p) \<in> set (patches g). k = (from_timestamp p, to_timestamp p) \<and> 0 < node_cost p \<and>
        from_timestamp p \<in> set (time_stamps g) \<and> to_timestamp p \<in> set (time_stamps g))"

lemma set_dict_set: "set (dict_set d k v) \<subseteq> insert (k, v) (set d)"
  by (induction d) auto

lemma add_vertex_fields [simp]:
  "patches (add_vertex t g) = patches g" "set (time_stamps (add_vertex t g)) = insert t (set (time_stamps g))"
  "distinct (time_stamps g) \<Longrightarrow> distinct (time_stamps (add_vertex t g))"
  by (auto simp: add_vertex_def)

lemma add_vertex_adj: "set (time_stamps g) \<subseteq> fst ` set (adj g) \<Longrightarrow>
    insert t (fst ` set (adj g)) \<subseteq> fst ` set (adj (add_vertex t g)) \<or> t \<in> set (time_stamps g) \<and> adj (add_vertex t g) = adj g"
  by (auto simp: add_vertex_def)

lemma add_edge_and_vertices_ok:
  assumes "under_construction g" "0 < node_cost p"
  shows "\<exists>g'. add_edge_and_vertices p g = Inr g' \<and> under_construction g' \<and>
    patches g' = dict_set (patches g) (from_timestamp p, to_timestamp p) p \<and>
    set (time_stamps g') = set (time_stamps g) \<union> {from_timestamp p, to_timestamp p}"
proof -
  let ?g1 = "g\<lparr>patches := dict_set (patches g) (from_timestamp p, to_timestamp p) p\<rparr>"
  let ?g2 = "add_vertex (to_timestamp p) (add_vertex (from_timestamp p) ?g1)"
  have adj: "set (time_stamps ?g2) \<subseteq> fst ` set (adj ?g2)"
    using assms(1) by (auto simp: add_vertex_def under_construction_def)
  then obtain ts where ts: "dict_get (adj ?g2) (from_timestamp p) = Some ts"
    using dict_get_not_None_iff [of "adj ?g2" "from_timestamp p"] by auto
  let ?g3 = "?g2\<lparr>adj := dict_set (adj ?g2) (from_timestamp p) (ts @ [to_timestamp p])\<rparr>"
  have "(\<forall>(k, q) \<in> set (patches ?g3). k = (from_timestamp q, to_timestamp q) \<and> 0 < node_cost q \<and>
        from_timestamp q \<in> set (time_stamps ?g3) \<and> to_timestamp q \<in> set (time_stamps ?g3))"
    using assms set_dict_set [of "(from_timestamp p, to_timestamp p)" p "patches g"]
    by (fastforce simp: under_construction_def)
  moreover have "distinct (time_stamps ?g3)" "dict_wf (patches ?g3)"
    using assms(1) by (auto simp: under_construction_def)
  moreover have "set (time_stamps ?g3) \<subseteq> fst ` set (adj ?g3)" using adj by auto
  ultimately have "under_construction ?g3" by (simp add: under_construction_def)
  then show ?thesis using ts by (auto simp: add_edge_and_vertices_def Let_def dict_lookup_def)
qed

lemma add_edges_ok:
  assumes "under_construction g" "\<forall>p \<in> set ps. 0 < node_cost p"
  shows "\<exists>g'. rfold add_edge_and_vertices ps g = Inr g' \<and> under_construction g' \<and>
    patches g' = fold (\<lambda>p d. dict_set d (from_timestamp p, to_timestamp p) p) ps (patches g) \<and>
    set (time_stamps g') = set (time_stamps g) \<union> from_timestamp ` set ps \<union> to_timestamp ` set ps"
  using assms
proof (induction ps arbitrary: g)
  case (Cons p ps)
  from add_edge_and_vertices_ok [OF Cons.prems(1), of p] Cons.prems(2) obtain g1 where
    g1: "add_edge_and_vertices p g = Inr g1" "under_construction g1"
      "patches g1 = dict_set (patches g) (from_timestamp p, to_timestamp p) p"
      "set (time_stamps g1) = set (time_stamps g) \<union> {from_timestamp p, to_timestamp p}" by auto
  with Cons.IH [OF g1(2)] Cons.prems(2) show ?case by auto
qed simp

lemma matrix_fold:
  assumes "\<forall>(k, p) \<in> set ps. \<exists>u v. dict_get D (fst k) = Some u \<and> dict_get D (snd k) = Some v"
    and "inj_on (dict_get D) (fst ` set D)" and "dict_wf ps"
  shows "\<exists>m'. rfold (\<lambda>((a, b), p) m. rbind (dict_lookup D a) (\<lambda>u. rbind (dict_lookup D b) (\<lambda>v.
      Inr (dict_set m (u, v) (node_cost p))))) ps m = Inr m' \<and>
    (\<forall>a b u v. dict_get D a = Some u \<longrightarrow> dict_get D b = Some v \<longrightarrow>
       dict_get m' (u, v) = (case dict_get ps (a, b) of Some p \<Rightarrow> Some (node_cost p) | None \<Rightarrow> dict_get m (u, v))) \<and>
    (\<forall>u v. (\<forall>a b. \<not> (dict_get D a = Some u \<and> dict_get D b = Some v)) \<longrightarrow> dict_get m' (u, v) = dict_get m (u, v))"
  using assms(1,3)
proof (induction ps arbitrary: m)
  case (Cons kp ps)
  obtain a b p where kp: "kp = ((a, b), p)" by (cases kp) auto
  from Cons.prems(1) kp obtain u v where uv: "dict_get D a = Some u" "dict_get D b = Some v" by auto
  have inj: "a' = a" if "dict_get D a' = Some u'" "dict_get D a = Some u'" for a' a u'
    using that assms(2) dict_get_in_keys by (metis inj_onD)
  from Cons.IH [of "dict_set m (u, v) (node_cost p)"] Cons.prems obtain m' where
    m': "rfold (\<lambda>((a, b), p) m. rbind (dict_lookup D a) (\<lambda>u. rbind (dict_lookup D b) (\<lambda>v.
      Inr (dict_set m (u, v) (node_cost p))))) ps (dict_set m (u, v) (node_cost p)) = Inr m'"
    "\<And>a b u' v'. dict_get D a = Some u' \<Longrightarrow> dict_get D b = Some v' \<Longrightarrow> dict_get m' (u', v') =
      (case dict_get ps (a, b) of Some p \<Rightarrow> Some (node_cost p) | None \<Rightarrow> dict_get (dict_set m (u, v) (node_cost p)) (u', v'))"
    "\<And>u' v'. (\<forall>a b. \<not> (dict_get D a = Some u' \<and> dict_get D b = Some v')) \<Longrightarrow>
      dict_get m' (u', v') = dict_get (dict_set m (u, v) (node_cost p)) (u', v')" by auto
  have "dict_get ps (a, b) = None" using Cons.prems(2) kp by (auto simp: map_of_eq_None_iff)
  then have "dict_get m' (u', v') = (case dict_get (kp # ps) (c, d) of Some p \<Rightarrow> Some (node_cost p) | None \<Rightarrow> dict_get m (u', v'))"
    if "dict_get D c = Some u'" "dict_get D d = Some v'" for c d u' v'
    using m'(2) [OF that] that uv inj kp by (auto split: option.splits)
  moreover have "dict_get m' (u', v') = dict_get m (u', v')"
    if "\<forall>a b. \<not> (dict_get D a = Some u' \<and> dict_get D b = Some v')" for u' v'
    using m'(3) [OF that] that uv by auto
  ultimately show ?case using m'(1) uv kp by (auto simp: dict_lookup_def)
qed simp

lemma finalize_ok:
  assumes "under_construction g"
  shows "\<exists>g'. finalize g = Inr g' \<and> graph_ok g' \<and> patches g' = patches g \<and> graph_is_up_to_date g' \<and>
    set (time_stamps_cache g') = set (time_stamps g)"
proof -
  let ?g0 = "g\<lparr>graph_is_up_to_date := False, time_stamps_cache := sort (time_stamps g), time_stamps := []\<rparr>"
  define g1 where "g1 = create_dense_indices ?g0"
  let ?ts = "sort (time_stamps g)" and ?D = "time_to_dense_idx g1"
  have uc: "distinct (time_stamps g)" "dict_wf (patches g)"
    "\<And>k p. (k, p) \<in> set (patches g) \<Longrightarrow> k = (from_timestamp p, to_timestamp p) \<and> 0 < node_cost p \<and>
        from_timestamp p \<in> set (time_stamps g) \<and> to_timestamp p \<in> set (time_stamps g)"
    using assms by (auto simp: under_construction_def)
  have f: "time_stamps_cache g1 = ?ts" "patches g1 = patches g" "dense_idx_to_time g1 = ?ts"
    "graph_n g1 = length ?ts" "graph_is_up_to_date g1 = False"
    by (simp_all add: g1_def create_dense_indices_def)
  have D: "dict_get ?D t = Some i \<longleftrightarrow> i < length ?ts \<and> ?ts ! i = t" for t i
    using dense_idx_iff [of ?g0 t i] uc(1) by (simp add: g1_def)
  have known: "\<exists>u. dict_get ?D t = Some u" if "t \<in> set (time_stamps g)" for t
    using that D by (metis in_set_conv_nth set_sort)
  have "inj_on (dict_get ?D) (fst ` set ?D)"
    by (rule inj_onI) (metis D dict_get_not_None_iff not_None_eq)
  moreover have "\<forall>(k, p) \<in> set (patches g). \<exists>u v. dict_get ?D (fst k) = Some u \<and> dict_get ?D (snd k) = Some v"
    using uc(3) known by fastforce
  ultimately obtain m where m0: "rfold (\<lambda>((a, b), p) m. rbind (dict_lookup ?D a) (\<lambda>u. rbind (dict_lookup ?D b) (\<lambda>v.
      Inr (dict_set m (u, v) (node_cost p))))) (patches g) [] = Inr m"
    "\<forall>a b u v. dict_get ?D a = Some u \<longrightarrow> dict_get ?D b = Some v \<longrightarrow>
       dict_get m (u, v) = (case dict_get (patches g) (a, b) of Some p \<Rightarrow> Some (node_cost p) | None \<Rightarrow> dict_get [] (u, v))"
    "\<forall>u v. (\<forall>a b. \<not> (dict_get ?D a = Some u \<and> dict_get ?D b = Some v)) \<longrightarrow> dict_get m (u, v) = dict_get [] (u, v)"
    using matrix_fold [of "patches g" ?D "[]"] uc(2) by blast
  have m: "create_lil_matrix g1 = Inr (g1\<lparr>graph_lil := Some m\<rparr>)"
    "\<And>a b u v. dict_get ?D a = Some u \<Longrightarrow> dict_get ?D b = Some v \<Longrightarrow>
       dict_get m (u, v) = map_option node_cost (dict_get (patches g) (a, b))"
    "\<And>u v. (\<forall>a b. \<not> (dict_get ?D a = Some u \<and> dict_get ?D b = Some v)) \<Longrightarrow> dict_get m (u, v) = None"
    using m0 by (simp_all add: create_lil_matrix_def f map_option_case split: option.split)
  let ?g = "g1\<lparr>graph_lil := Some m, graph_csr := Some m, graph_is_up_to_date := True\<rparr>"
  have fin: "finalize g = Inr ?g"
    using m(1) f(5) by (simp add: finalize_def Let_def update_graph_def g1_def)
  have "matrix_of ?g m"
    unfolding matrix_of_def
  proof (intro allI)
    fix u v w
    show "dict_get m (u, v) = Some w \<longleftrightarrow> u < length (time_stamps_cache ?g) \<and> v < length (time_stamps_cache ?g) \<and>
        (\<exists>p. dict_get (patches ?g) (time_stamps_cache ?g ! u, time_stamps_cache ?g ! v) = Some p \<and> node_cost p = w)"
    proof (cases "u < length ?ts \<and> v < length ?ts")
      case True
      then show ?thesis using m(2) [of "?ts ! u" u "?ts ! v" v] D by (auto simp: f)
    next
      case False
      then have "dict_get m (u, v) = None" using m(3) D by auto
      with False show ?thesis by (auto simp: f)
    qed
  qed
  moreover have "\<forall>(k, p) \<in> set (patches g). k = (from_timestamp p, to_timestamp p) \<and> 0 < node_cost p \<and>
      from_timestamp p \<in> set ?ts \<and> to_timestamp p \<in> set ?ts" using uc(3) by auto
  ultimately have "graph_ok ?g" using uc(1,2) D by (simp add: graph_ok_def f)
  then show ?thesis using fin f by auto
qed

subsection \<open>Paths\<close>

lemma graph_ok_edge:
  assumes "graph_ok g" "p \<in> edges g"
  shows "dict_get (patches g) (from_timestamp p, to_timestamp p) = Some p" "0 < node_cost p"
    "from_timestamp p \<in> set (time_stamps_cache g)" "to_timestamp p \<in> set (time_stamps_cache g)"
proof -
  from assms(2) obtain k where "(k, p) \<in> set (patches g)" by (auto simp: edges_def)
  with assms(1) show "dict_get (patches g) (from_timestamp p, to_timestamp p) = Some p" "0 < node_cost p"
    "from_timestamp p \<in> set (time_stamps_cache g)" "to_timestamp p \<in> set (time_stamps_cache g)"
    by (auto simp: graph_ok_def)
qed

lemma matrix_edge:
  assumes "graph_ok g" "matrix_of g m" "p \<in> edges g" "time_stamps_cache g ! u = from_timestamp p"
    "u < length (time_stamps_cache g)"
  obtains v where "v < length (time_stamps_cache g)" "time_stamps_cache g ! v = to_timestamp p"
    "dict_get m (u, v) = Some (node_cost p)"
proof -
  from graph_ok_edge(4) [OF assms(1,3)] obtain v where v: "v < length (time_stamps_cache g)"
    "time_stamps_cache g ! v = to_timestamp p" by (auto simp: in_set_conv_nth)
  with assms graph_ok_edge(1) [OF assms(1,3)] have "dict_get m (u, v) = Some (node_cost p)"
    unfolding matrix_of_def by auto
  with v that show ?thesis by blast
qed

lemma chain_reaches:
  assumes "graph_ok g" "matrix_of g m"
  shows "chain ps a b \<Longrightarrow> set ps \<subseteq> edges g \<Longrightarrow> u < length (time_stamps_cache g) \<Longrightarrow>
    time_stamps_cache g ! u = a \<Longrightarrow> v < length (time_stamps_cache g) \<Longrightarrow> time_stamps_cache g ! v = b \<Longrightarrow>
    reaches m u v"
proof (induction ps arbitrary: a u)
  case Nil
  then have "u = v" using assms(1) by (auto simp: graph_ok_def nth_eq_iff_index_eq)
  then show ?case by (simp add: reaches_def)
next
  case (Cons p ps)
  then have "p \<in> edges g" "time_stamps_cache g ! u = from_timestamp p" by auto
  from matrix_edge [OF assms this Cons.prems(3)] obtain x where
    x: "x < length (time_stamps_cache g)" "time_stamps_cache g ! x = to_timestamp p"
      "dict_get m (u, x) = Some (node_cost p)" .
  with Cons have "reaches m x v" by auto
  with x(3) show ?case unfolding reaches_def by (intro converse_rtranclp_into_rtranclp [of _ u x v]) auto
qed

lemma shortest_tree_relaxed:
  assumes "shortest_tree n m src (dists, pred)" "u < n" "v < n" "dict_get m (u, v) = Some w" "dists ! u = Some d"
  obtains d' where "dists ! v = Some d'" "d' \<le> d + w"
  using assms unfolding shortest_tree_def prod.case by meson

lemma chain_dist:
  assumes "graph_ok g" "matrix_of g m" and st: "shortest_tree (length (time_stamps_cache g)) m src (dists, pred)"
  shows "chain ps a b \<Longrightarrow> set ps \<subseteq> edges g \<Longrightarrow> u < length (time_stamps_cache g) \<Longrightarrow>
    time_stamps_cache g ! u = a \<Longrightarrow> dists ! u = Some d \<Longrightarrow> v < length (time_stamps_cache g) \<Longrightarrow>
    time_stamps_cache g ! v = b \<Longrightarrow> \<exists>d'. dists ! v = Some d' \<and> d' \<le> d + total_cost ps"
proof (induction ps arbitrary: a u d)
  case Nil
  then have "u = v" using assms(1) by (auto simp: graph_ok_def nth_eq_iff_index_eq)
  then show ?case using Nil by simp
next
  case (Cons p ps)
  then have "p \<in> edges g" "time_stamps_cache g ! u = from_timestamp p" by auto
  from matrix_edge [OF assms(1,2) this Cons.prems(3)] obtain x where
    x: "x < length (time_stamps_cache g)" "time_stamps_cache g ! x = to_timestamp p"
      "dict_get m (u, x) = Some (node_cost p)" .
  from shortest_tree_relaxed [OF st Cons.prems(3) x(1,3) Cons.prems(5)] obtain e where
    e: "dists ! x = Some e" "e \<le> d + node_cost p" .
  have "\<exists>d'. dists ! v = Some d' \<and> d' \<le> e + total_cost ps"
    using Cons.prems x e by (intro Cons.IH [of "to_timestamp p" x]) auto
  with e(2) show ?case by auto
qed

lemma shortest_tree_pred:
  assumes "shortest_tree n m src (dists, pred)" "v < n" "v \<noteq> src" "reaches m src v"
  obtains u w d where "u < n" "pred ! v = int u" "dict_get m (u, v) = Some w" "dists ! u = Some d"
    "dists ! v = Some (d + w)"
  using assms unfolding shortest_tree_def prod.case by metis

lemma total_cost_append: "total_cost (ps @ qs) = total_cost ps + total_cost qs"
  by simp

lemma chain_append: "chain (ps @ [p]) a b \<longleftrightarrow> chain ps a (from_timestamp p) \<and> to_timestamp p = b"
  by (induction ps arbitrary: a) auto

lemma matrix_of_edge:
  assumes "graph_ok g" "matrix_of g m" "dict_get m (u, v) = Some w"
  obtains p where "dict_get (patches g) (time_stamps_cache g ! u, time_stamps_cache g ! v) = Some p"
    "node_cost p = w" "p \<in> edges g" "from_timestamp p = time_stamps_cache g ! u"
    "to_timestamp p = time_stamps_cache g ! v" "0 < w"
proof -
  from assms(2,3) obtain p where p: "dict_get (patches g) (time_stamps_cache g ! u, time_stamps_cache g ! v) = Some p"
    "node_cost p = w" unfolding matrix_of_def by blast
  then have in_g: "((time_stamps_cache g ! u, time_stamps_cache g ! v), p) \<in> set (patches g)"
    by (simp add: map_of_SomeD)
  with assms(1) have "from_timestamp p = time_stamps_cache g ! u" "to_timestamp p = time_stamps_cache g ! v"
    "0 < node_cost p" by (auto simp: graph_ok_def)
  with p in_g that show ?thesis by (force simp: edges_def)
qed

lemma reconstruct_ok:
  assumes g: "graph_ok g" "matrix_of g m"
    and st: "shortest_tree (length (time_stamps_cache g)) m src (dists, pred)"
    and "v < length (time_stamps_cache g)" "dists ! v = Some d" "src < length (time_stamps_cache g)"
  shows "\<exists>ps. reconstruct g pred (int src) (int v) acc = Some (Inr (acc @ rev ps)) \<and>
    chain ps (time_stamps_cache g ! src) (time_stamps_cache g ! v) \<and> set ps \<subseteq> edges g \<and> total_cost ps = d"
  using assms(4,5)
proof (induction "nat d" arbitrary: v d acc rule: less_induct)
  case less
  show ?case
  proof (cases "v = src")
    case True
    then have "d = 0" using less.prems st by (simp add: shortest_tree_def)
    then show ?thesis using True by (intro exI [of _ "[]"]) (simp add: reconstruct.simps)
  next
    case False
    have "reaches m src v" using st less.prems by (auto simp: shortest_tree_def)
    from shortest_tree_pred [OF st less.prems(1) False this] obtain u w e where
      u: "u < length (time_stamps_cache g)" "pred ! v = int u" "dict_get m (u, v) = Some w"
        "dists ! u = Some e" "dists ! v = Some (e + w)" .
    from matrix_of_edge [OF g u(3)] obtain p where
      p: "dict_get (patches g) (time_stamps_cache g ! u, time_stamps_cache g ! v) = Some p"
        "node_cost p = w" "p \<in> edges g" "from_timestamp p = time_stamps_cache g ! u"
        "to_timestamp p = time_stamps_cache g ! v" "0 < w" .
    have "0 \<le> e" using st u(1,4) by (auto simp: shortest_tree_def)
    then have lt: "nat e < nat d" using less.prems u(5) p(6) by auto
    from less.hyps [OF lt u(1,4)] obtain ps where
      ps: "reconstruct g pred (int src) (int u) (acc @ [p]) = Some (Inr ((acc @ [p]) @ rev ps))"
        "chain ps (time_stamps_cache g ! src) (time_stamps_cache g ! u)" "set ps \<subseteq> edges g" "total_cost ps = e" by blast
    have pl: "length pred = length (time_stamps_cache g)" "dense_idx_to_time g = time_stamps_cache g"
      using st g(1) by (auto simp: shortest_tree_def graph_ok_def)
    have "reconstruct g pred (int src) (int v) acc = reconstruct g pred (int src) (int u) (acc @ [p])"
      using False less.prems(1) u(1,2) p(1) pl
      by (simp add: reconstruct.simps [of g pred "int src" "int v"] dict_lookup_def)
    with ps p u less.prems show ?thesis
      by (intro exI [of _ "ps @ [p]"]) (auto simp: chain_append)
  qed
qed

lemma update_graph_ok:
  assumes "graph_ok g"
  obtains m g' where "update_graph g = Inr g'" "graph_csr g' = Some m" "matrix_of g' m" "graph_ok g'"
    "patches g' = patches g" "time_stamps_cache g' = time_stamps_cache g"
proof -
  from assms obtain m where m: "graph_lil g = Some m" "matrix_of g m"
    "graph_is_up_to_date g \<longrightarrow> graph_csr g = Some m" by (auto simp: graph_ok_def)
  let ?g = "if graph_is_up_to_date g then g else g\<lparr>graph_csr := Some m, graph_is_up_to_date := True\<rparr>"
  have "update_graph g = Inr ?g" "graph_csr ?g = Some m" using m by (auto simp: update_graph_def)
  moreover have "matrix_of ?g m" "graph_ok ?g" using assms m by (auto simp: matrix_of_def graph_ok_def)
  ultimately show ?thesis using that by auto
qed

lemma reaches_chain:
  assumes "graph_ok g" "matrix_of g m" "reaches m u v" "u < length (time_stamps_cache g)"
  shows "v < length (time_stamps_cache g) \<and> chains g (time_stamps_cache g ! u) (time_stamps_cache g ! v) \<noteq> {}"
  using assms(3) unfolding reaches_def
proof (induction rule: rtranclp_induct)
  case base
  have "[] \<in> chains g (time_stamps_cache g ! u) (time_stamps_cache g ! u)" by (simp add: chains_def)
  then show ?case using assms(4) by blast
next
  case (step x y)
  then obtain w ps where w: "dict_get m (x, y) = Some w"
    and ps: "ps \<in> chains g (time_stamps_cache g ! u) (time_stamps_cache g ! x)" by auto
  from matrix_of_edge [OF assms(1,2) w] obtain p where "p \<in> edges g" "from_timestamp p = time_stamps_cache g ! x"
    "to_timestamp p = time_stamps_cache g ! y" .
  with ps have "ps @ [p] \<in> chains g (time_stamps_cache g ! u) (time_stamps_cache g ! y)"
    by (auto simp: chains_def chain_append)
  moreover have "y < length (time_stamps_cache g)" using assms(2) w unfolding matrix_of_def by blast
  ultimately show ?case by blast
qed

lemma chains_cost_nonneg: "graph_ok g \<Longrightarrow> ps \<in> chains g a b \<Longrightarrow> 0 \<le> total_cost ps"
  by (intro sum_list_nonneg) (auto simp: chains_def dest!: graph_ok_edge(2) subsetD dest: less_imp_le)

lemma path_found:
  assumes "graph_ok g" "matrix_of g m" "src < length (time_stamps_cache g)" "dst < length (time_stamps_cache g)"
    "src \<noteq> dst" "shortest_tree (length (time_stamps_cache g)) m src (dists, pred)"
    "chains g (time_stamps_cache g ! src) (time_stamps_cache g ! dst) \<noteq> {}"
  shows "pred ! dst \<noteq> -9999 \<and> (\<exists>ps. reconstruct g pred (int src) (int dst) [] = Some (Inr (rev ps)) \<and>
     ps \<in> chains g (time_stamps_cache g ! src) (time_stamps_cache g ! dst) \<and>
     (\<forall>qs \<in> chains g (time_stamps_cache g ! src) (time_stamps_cache g ! dst). total_cost ps \<le> total_cost qs))"
proof -
  let ?C = "chains g (time_stamps_cache g ! src) (time_stamps_cache g ! dst)"
  have r: "reaches m src dst"
    using assms(7) chain_reaches [OF assms(1,2) _ _ assms(3) refl assms(4) refl] by (auto simp: chains_def)
  have "dst \<noteq> src" using assms(5) by simp
  from shortest_tree_pred [OF assms(6,4) this r] obtain u w d where
    u: "u < length (time_stamps_cache g)" "pred ! dst = int u" "dists ! dst = Some (d + w)" .
  have "dists ! src = Some 0" using assms(6) by (simp add: shortest_tree_def)
  then have le: "d + w \<le> total_cost qs" if "qs \<in> ?C" for qs
    using chain_dist [OF assms(1,2,6) _ _ assms(3) refl _ assms(4) refl, of qs 0] that u(3)
    by (auto simp: chains_def)
  from reconstruct_ok [OF assms(1,2,6,4) u(3) assms(3), of "[]"] obtain ps where
    "reconstruct g pred (int src) (int dst) [] = Some (Inr (rev ps))" "ps \<in> ?C" "total_cost ps = d + w"
    by (auto simp: chains_def)
  with le u(2) show ?thesis by auto
qed

lemma path_not_found:
  assumes "graph_ok g" "matrix_of g m" "src < length (time_stamps_cache g)" "dst < length (time_stamps_cache g)"
    "src \<noteq> dst" "shortest_tree (length (time_stamps_cache g)) m src (dists, pred)"
    "chains g (time_stamps_cache g ! src) (time_stamps_cache g ! dst) = {}"
  shows "pred ! dst = -9999"
proof -
  have "\<not> reaches m src dst" using reaches_chain [OF assms(1,2) _ assms(3)] assms(7) by blast
  with assms(4-6) show ?thesis unfolding shortest_tree_def prod.case by metis
qed

subsection \<open>Properties\<close>

lemma build_ok:
  assumes "\<forall>p \<in> set ps. 0 < node_cost p"
  shows "\<exists>g. rbind (rfold add_edge_and_vertices ps new_patch_graph) finalize = Inr g \<and> graph_ok g \<and>
     set (time_stamps_cache g) = from_timestamp ` set ps \<union> to_timestamp ` set ps \<and>
     patches g = fold (\<lambda>p d. dict_set d (from_timestamp p, to_timestamp p) p) ps []"
proof -
  have "under_construction new_patch_graph" by (simp add: under_construction_def new_patch_graph_def)
  from add_edges_ok [OF this assms] obtain g where
    g: "rfold add_edge_and_vertices ps new_patch_graph = Inr g" "under_construction g"
      "patches g = fold (\<lambda>p d. dict_set d (from_timestamp p, to_timestamp p) p) ps (patches new_patch_graph)"
      "set (time_stamps g) = set (time_stamps new_patch_graph) \<union> from_timestamp ` set ps \<union> to_timestamp ` set ps"
    by blast
  with finalize_ok [OF g(2)] show ?thesis by (auto simp: new_patch_graph_def)
qed

definition sample_edge :: "int \<Rightarrow> int \<Rightarrow> patch_node" where
  "sample_edge a b = new_patch_node a b [2, 2] [Some 1, Some 2] [VInt 1, VInt 2] None"

definition sample_graph :: patch_graph where
  "sample_graph = (case rbind (rfold add_edge_and_vertices [sample_edge 10 20, sample_edge 20 10] new_patch_graph) finalize
     of Inr g \<Rightarrow> g | Inl _ \<Rightarrow> new_patch_graph)"

lemma sample_graph_ok: "graph_ok sample_graph"
  using build_ok [of "[sample_edge 10 20, sample_edge 20 10]"]
  by (auto simp: sample_graph_def sample_edge_def new_patch_node_def compute_cost_def)

lemmas graph_eval = new_patch_graph_def add_edge_and_vertices_def add_vertex_def dict_lookup_def Let_def
  finalize_def create_dense_indices_def create_lil_matrix_def update_graph_def sample_edge_def
  new_patch_node_def compute_cost_def

lemma sample_graph_fields:
  "time_stamps_cache sample_graph = [10, 20]" "graph_lil sample_graph = Some [((0, 1), 2), ((1, 0), 2)]"
  "dict_get (time_to_dense_idx sample_graph) 10 = Some 0" "graph_n sample_graph = 2"
  by (simp_all add: sample_graph_def graph_eval)

definition sample_dijkstra :: dijkstra where
  "sample_dijkstra n m src = ([Some 0, Some 2], [-9999, 0])"

lemma sample_shortest_tree: "shortest_tree 2 [((0, 1), 2), ((1, 0), 2)] 0 (sample_dijkstra 2 m 0)"
proof -
  have "reaches [((0, 1), 2), ((1, 0), 2)] 0 1" unfolding reaches_def by (rule r_into_rtranclp) simp
  moreover have "reaches [((0, 1), 2), ((1, 0), 2)] 0 0" by (simp add: reaches_def)
  ultimately show ?thesis
    by (auto simp: shortest_tree_def sample_dijkstra_def less_2_cases_iff)
qed

lemma shortest_path_found:
  assumes "graph_ok g" and "a \<in> set (time_stamps_cache g)" and "b \<in> set (time_stamps_cache g)"
    and "\<And>m src. graph_lil g = Some m \<Longrightarrow> dict_get (time_to_dense_idx g) a = Some src \<Longrightarrow>
      shortest_tree (graph_n g) m src (dijk (graph_n g) m src)"
  shows "if chains g a b = {} then find_patch_path_exact dijk a b g = Some (Inl ValueError)
     else \<exists>ps. find_patch_path_exact dijk a b g = Some (Inr ps) \<and> ps \<in> chains g a b \<and>
       (\<forall>qs \<in> chains g a b. total_cost ps \<le> total_cost qs)"
proof (cases "a = b")
  case True
  have "[] \<in> chains g a b" using True by (simp add: chains_def)
  then show ?thesis
    using True chains_cost_nonneg [OF assms(1)] by (auto simp: find_patch_path_exact_def)
next
  case False
  from update_graph_ok [OF assms(1)] obtain m g' where
    g': "update_graph g = Inr g'" "graph_csr g' = Some m" "matrix_of g' m" "graph_ok g'"
      "patches g' = patches g" "time_stamps_cache g' = time_stamps_cache g" .
  have lil: "graph_lil g = Some m" "graph_n g' = length (time_stamps_cache g')" "graph_n g = graph_n g'"
    "time_to_dense_idx g' = time_to_dense_idx g"
    using g'(1,2) assms(1) by (auto simp: update_graph_def graph_ok_def split: if_splits option.splits)
  obtain src dst where sd: "src < length (time_stamps_cache g')" "time_stamps_cache g' ! src = a"
    "dst < length (time_stamps_cache g')" "time_stamps_cache g' ! dst = b"
    using assms(2,3) g'(6) by (auto simp: in_set_conv_nth)
  have di: "dict_get (time_to_dense_idx g') a = Some src" "dict_get (time_to_dense_idx g') b = Some dst"
    using g'(4) sd by (auto simp: graph_ok_def)
  obtain dists pred where dj: "dijk (graph_n g') m src = (dists, pred)" by fastforce
  then have st: "shortest_tree (length (time_stamps_cache g')) m src (dists, pred)"
    using assms(4) [OF lil(1)] di lil by metis
  have ne: "src \<noteq> dst" using False sd by auto
  have pd: "length pred = length (time_stamps_cache g')" using st by (simp add: shortest_tree_def)
  have ch: "chains g a b = chains g' (time_stamps_cache g' ! src) (time_stamps_cache g' ! dst)"
    using sd by (simp add: chains_def edges_def g'(5))
  have ex: "find_patch_path_exact dijk a b g = (if pred ! dst = -9999 then Some (Inl ValueError)
      else map_option (map_sum id rev) (reconstruct g' pred (int src) (int dst) []))"
    using False sd(3) pd by (simp add: find_patch_path_exact_def g'(1,2) di dict_lookup_def dj)
  show ?thesis
  proof (cases "chains g a b = {}")
    case True
    then show ?thesis using path_not_found [OF g'(4,3) sd(1,3) ne st] ch ex by simp
  next
    case False
    with path_found [OF g'(4,3) sd(1,3) ne st] ch ex show ?thesis by auto
  qed
qed

text \<open>C5: between two recorded times, \<open>find_patch_path\<close> returns consecutive patches of the graph that
  lead from the first to the second at the least total cost, and raises \<open>ValueError\<close> exactly when
  no sequence of patches does; the loop over the predecessors ends.  The only assumption on
  \<open>dijkstra\<close> is that, on this graph's matrix, it returns a shortest-path tree.\<close>

theorem find_patch_path_shortest:
  assumes "graph_ok g" and "a \<in> set (time_stamps_cache g)" and "b \<in> set (time_stamps_cache g)"
    and "\<And>m src. graph_lil g = Some m \<Longrightarrow> dict_get (time_to_dense_idx g) a = Some src \<Longrightarrow>
      shortest_tree (graph_n g) m src (dijk (graph_n g) m src)"
  shows "if chains g a b = {} then find_patch_path_exact dijk a b g = Some (Inl ValueError)
     else \<exists>ps. find_patch_path_exact dijk a b g = Some (Inr ps) \<and> ps \<in> chains g a b \<and>
       (\<forall>qs \<in> chains g a b. total_cost ps \<le> total_cost qs)"
  using assms by (rule shortest_path_found)

theorem find_patch_path_shortest_witness:
  "\<exists>ps. find_patch_path_exact sample_dijkstra 10 20 sample_graph = Some (Inr ps) \<and> ps \<in> chains sample_graph 10 20 \<and>
     (\<forall>qs \<in> chains sample_graph 10 20. total_cost ps \<le> total_cost qs)"
proof -
  have "if chains sample_graph 10 20 = {} then find_patch_path_exact sample_dijkstra 10 20 sample_graph = Some (Inl ValueError)
     else \<exists>ps. find_patch_path_exact sample_dijkstra 10 20 sample_graph = Some (Inr ps) \<and> ps \<in> chains sample_graph 10 20 \<and>
       (\<forall>qs \<in> chains sample_graph 10 20. total_cost ps \<le> total_cost qs)"
    by (rule find_patch_path_shortest [OF sample_graph_ok])
      (auto simp: sample_graph_fields simp del: One_nat_def intro: sample_shortest_tree)
  moreover have "[sample_edge 10 20] \<in> chains sample_graph 10 20"
    by (simp add: chains_def edges_def sample_graph_def graph_eval)
  ultimately show ?thesis by (auto split: if_splits)
qed

text \<open>C22: building a graph from patches (of positive cost) with \<open>add_edge_and_vertices\<close> and then
  \<open>finalize\<close> never raises; the time stamps are exactly those of the patches, in increasing order,
  and the dense numbering and the cost matrix describe the patches.\<close>

theorem build_graph_ok:
  assumes "\<forall>p \<in> set ps. 0 < node_cost p"
  shows "\<exists>g. rbind (rfold add_edge_and_vertices ps new_patch_graph) finalize = Inr g \<and> graph_ok g \<and>
     set (time_stamps_cache g) = from_timestamp ` set ps \<union> to_timestamp ` set ps \<and>
     patches g = fold (\<lambda>p d. dict_set d (from_timestamp p, to_timestamp p) p) ps []"
  using assms by (rule build_ok)

theorem build_graph_ok_witness:
  "\<exists>g. rbind (rfold add_edge_and_vertices [sample_edge 10 20, sample_edge 20 10] new_patch_graph) finalize = Inr g \<and>
     graph_ok g \<and>
     set (time_stamps_cache g) = from_timestamp ` set [sample_edge 10 20, sample_edge 20 10] \<union>
       to_timestamp ` set [sample_edge 10 20, sample_edge 20 10] \<and>
     patches g = fold (\<lambda>p d. dict_set d (from_timestamp p, to_timestamp p) p)
       [sample_edge 10 20, sample_edge 20 10] []"
  by (rule build_graph_ok) (simp add: sample_edge_def new_patch_node_def compute_cost_def)

text \<open>\<open>find_prev_timestamp\<close> returns the greatest recorded time that is not after the target, and
  \<open>None\<close> exactly when there is none.\<close>

lemma find_prev_timestamp_greatest:
  assumes "sorted (time_stamps_cache g)"
  shows "case find_prev_timestamp target g of
      Some t \<Rightarrow> t \<in> set (time_stamps_cache g) \<and> t \<le> target \<and>
        (\<forall>u \<in> set (time_stamps_cache g). u \<le> target \<longrightarrow> u \<le> t)
    | None \<Rightarrow> \<forall>u \<in> set (time_stamps_cache g). target < u"
proof -
  let ?ts = "time_stamps_cache g" and ?i = "bisect_right (time_stamps_cache g) target"
  have le: "?i \<le> length ?ts" using bisect_right_le [OF assms] .
  show ?thesis
  proof (cases "?i = 0")
    case True
    then have "\<forall>j < length ?ts. target < ?ts ! j" using bisect_right_above [OF assms] by simp
    then show ?thesis using True by (auto simp: find_prev_timestamp_def in_set_conv_nth)
  next
    case False
    then have i: "?i - 1 < length ?ts" "?i - 1 < ?i" using le by auto
    have "u \<le> ?ts ! (?i - 1)" if "u \<in> set ?ts" "u \<le> target" for u
    proof -
      from that(1) obtain j where j: "j < length ?ts" "?ts ! j = u" by (auto simp: in_set_conv_nth)
      with that(2) have "j < ?i" using bisect_right_above [OF assms, of target j] by (metis leI leD)
      then show ?thesis using j i(1) sorted_nth_mono [OF assms, of j "?i - 1"] by simp
    qed
    then show ?thesis
      using False i bisect_right_below [OF assms i(2)] by (simp add: find_prev_timestamp_def Let_def)
  qed
qed

lemma find_prev_timestamp_greatest_witness:
  "case find_prev_timestamp 15 sample_graph of
      Some t \<Rightarrow> t \<in> set (time_stamps_cache sample_graph) \<and> t \<le> 15 \<and>
        (\<forall>u \<in> set (time_stamps_cache sample_graph). u \<le> 15 \<longrightarrow> u \<le> t)
    | None \<Rightarrow> \<forall>u \<in> set (time_stamps_cache sample_graph). 15 < u"
  by (rule find_prev_timestamp_greatest) (simp add: sample_graph_fields)

text \<open>\<open>add_edge\<close> refuses a patch between times the graph does not have, and otherwise keeps the
  graph sound: the next search uses the new edge.\<close>

lemma add_edge_sound:
  assumes "graph_ok g" and "0 < node_cost p" and "set (time_stamps_cache g) \<subseteq> fst ` set (adj g)"
  shows "if from_timestamp p \<in> set (time_stamps_cache g) \<and> to_timestamp p \<in> set (time_stamps_cache g)
     then \<exists>g'. add_edge p g = Inr g' \<and> graph_ok g' \<and>
       patches g' = dict_set (patches g) (from_timestamp p, to_timestamp p) p \<and> \<not> graph_is_up_to_date g'
     else add_edge p g = Inl RuntimeError"
proof -
  let ?ts = "time_stamps_cache g"
  have D: "dict_get (time_to_dense_idx g) t = Some i \<longleftrightarrow> i < length ?ts \<and> ?ts ! i = t" for t i
    using assms(1) by (auto simp: graph_ok_def)
  then have known: "(\<exists>i. dict_get (time_to_dense_idx g) t = Some i) \<longleftrightarrow> t \<in> set ?ts" for t
    by (auto simp: in_set_conv_nth)
  show ?thesis
  proof (cases "from_timestamp p \<in> set ?ts \<and> to_timestamp p \<in> set ?ts")
    case False
    then consider "dict_get (time_to_dense_idx g) (from_timestamp p) = None"
      | "dict_get (time_to_dense_idx g) (to_timestamp p) = None"
      using known [of "from_timestamp p"] known [of "to_timestamp p"] by fastforce
    then show ?thesis using False by cases (auto simp: add_edge_def split: option.split)
  next
    case True
    then obtain u v where uv: "dict_get (time_to_dense_idx g) (from_timestamp p) = Some u"
      "dict_get (time_to_dense_idx g) (to_timestamp p) = Some v" using known by blast
    obtain l where l: "dict_get (adj g) (from_timestamp p) = Some l"
      using assms(3) True dict_get_not_None_iff [of "adj g" "from_timestamp p"] by auto
    obtain m where m: "graph_lil g = Some m" "matrix_of g m" using assms(1) by (auto simp: graph_ok_def)
    let ?g = "g\<lparr>patches := dict_set (patches g) (from_timestamp p, to_timestamp p) p,
        adj := dict_set (adj g) (from_timestamp p) (l @ [to_timestamp p]),
        graph_lil := Some (dict_set m (u, v) (node_cost p)), graph_is_up_to_date := False\<rparr>"
    have add: "add_edge p g = Inr ?g" using uv l m by (simp add: add_edge_def dict_lookup_def)
    have dis: "distinct ?ts" using assms(1) by (simp add: graph_ok_def)
    have at: "u < length ?ts" "?ts ! u = from_timestamp p" "v < length ?ts" "?ts ! v = to_timestamp p"
      using uv D by auto
    have "matrix_of ?g (dict_set m (u, v) (node_cost p))"
      unfolding matrix_of_def
    proof (intro allI)
      fix a b w
      have "(?ts ! a, ?ts ! b) = (from_timestamp p, to_timestamp p) \<longleftrightarrow> (a, b) = (u, v)"
        if "a < length ?ts" "b < length ?ts"
        using that at nth_eq_iff_index_eq [OF dis] by (metis prod.inject)
      with m(2) at show "dict_get (dict_set m (u, v) (node_cost p)) (a, b) = Some w \<longleftrightarrow>
          a < length (time_stamps_cache ?g) \<and> b < length (time_stamps_cache ?g) \<and>
          (\<exists>q. dict_get (patches ?g) (time_stamps_cache ?g ! a, time_stamps_cache ?g ! b) = Some q \<and> node_cost q = w)"
        unfolding matrix_of_def by (cases "(a, b) = (u, v)") auto
    qed
    moreover have "\<forall>(k, q) \<in> set (patches ?g). k = (from_timestamp q, to_timestamp q) \<and> 0 < node_cost q \<and>
        from_timestamp q \<in> set ?ts \<and> to_timestamp q \<in> set ?ts"
      using set_dict_set [of "(from_timestamp p, to_timestamp p)" p "patches g"] assms(1,2) True
      by (fastforce simp: graph_ok_def)
    ultimately have "graph_ok ?g" using assms(1) by (simp add: graph_ok_def)
    with True add show ?thesis by auto
  qed
qed

lemma add_edge_sound_witness:
  "\<exists>g'. add_edge (sample_edge 10 20) sample_graph = Inr g' \<and> graph_ok g' \<and>
     patches g' = dict_set (patches sample_graph) (10, 20) (sample_edge 10 20) \<and> \<not> graph_is_up_to_date g'"
proof -
  have "0 < node_cost (sample_edge 10 20)" by (simp add: sample_edge_def new_patch_node_def compute_cost_def)
  moreover have "set (time_stamps_cache sample_graph) \<subseteq> fst ` set (adj sample_graph)"
    by (simp add: sample_graph_def graph_eval)
  moreover have ft: "from_timestamp (sample_edge 10 20) = 10" "to_timestamp (sample_edge 10 20) = 20"
    by (simp_all add: sample_edge_def new_patch_node_def)
  ultimately show ?thesis
    using add_edge_sound [OF sample_graph_ok, of "sample_edge 10 20"] by (simp add: sample_graph_fields)
qed

text \<open>\<open>finalize\<close> empties the set of collected time stamps, so a second round of
  \<open>add_edge_and_vertices\<close> and \<open>finalize\<close>, as \<open>record_patch_in_rw_mode\<close> makes, knows only the new
  times and raises \<open>KeyError\<close> at the first patch of the first round.\<close>

lemma second_finalize_raises:
  "\<exists>g. rbind (rfold add_edge_and_vertices [sample_edge 10 20, sample_edge 20 10] new_patch_graph) finalize = Inr g \<and>
     rbind (rfold add_edge_and_vertices [sample_edge 20 30, sample_edge 30 20] g) finalize = Inl KeyError"
  by (simp add: graph_eval)

end
