(* ===== verification/Storage.thy ===== *)
theory Storage
  imports Metadata PathTree PatchGraph
begin

text \<open>
  The binary sections of a replay segment (\<open>replay/replay_storage.py\<close>).

  The state is the byte array of the segment, the cached sections and the deserialised objects.
  LZ4, \<open>msgpack\<close> and \<open>msgspec\<close> are parameters (\<open>senv\<close>); the patch index is NumPy's packed array of
  (64-bit offset, 32-bit size) entries.  The layout theorems show that a written segment reads
  back, and that appending patches in place and rewriting the last game state leaves a segment
  that reads back with the longer pool and the updated index.
\<close>

subsection \<open>State\<close>

type_synonym packed_tree = "nat \<times> pathel option list \<times> bytes \<times> bytes"

record senv =
  codec :: codecs
  ser :: serializer
  compress :: "bytes \<Rightarrow> bytes"
  decompress :: "bytes \<Rightarrow> bytes result"
  pack_tree :: "packed_tree \<Rightarrow> bytes"
  unpack_tree :: "bytes \<Rightarrow> packed_tree result"

record 'r storage =
  data_b :: bytes
  metadata_b :: "bytes option"
  initial_game_state_b :: "bytes option"
  path_tree_b :: "bytes option"
  patch_index_b :: "bytes option"
  d_pool_b :: "bytes option"
  last_game_state_b :: "bytes option"
  metadata :: "segment_metadata option"
  initial_game_state :: "val option"
  tree :: "'r path_tree option"
  graph :: "patch_graph option"
  last_game_state :: "val option"

definition new_storage :: "bytes \<Rightarrow> 'r storage" where
  "new_storage data =
     \<lparr>data_b = data, metadata_b = None, initial_game_state_b = None, path_tree_b = None,
      patch_index_b = None, d_pool_b = None, last_game_state_b = None, metadata = None,
      initial_game_state = None, tree = None, graph = None, last_game_state = None\<rparr>"

text \<open>Using an attribute that is still \<open>None\<close>.\<close>

definition have_attr :: "'a option \<Rightarrow> 'a result" where
  "have_attr x = (case x of None \<Rightarrow> Inl AttributeError | Some v \<Rightarrow> Inr v)"

definition have_bytes :: "'a option \<Rightarrow> 'a result" where
  "have_bytes x = (case x of None \<Rightarrow> Inl TypeError | Some v \<Rightarrow> Inr v)"

definition need :: "py_error \<Rightarrow> 'a option \<Rightarrow> 'a result" where
  "need e x = (case x of None \<Rightarrow> Inl e | Some v \<Rightarrow> Inr v)"

lemma need_simps [simp]:
  "need e (Some v) = Inr v" "need e None = Inl e" "have_attr (Some v) = Inr v" "have_bytes (Some v) = Inr v"
  by (simp_all add: need_def have_attr_def have_bytes_def)

subsection \<open>Bytes in place\<close>

definition put_at :: "nat \<Rightarrow> bytes \<Rightarrow> bytes \<Rightarrow> bytes" where
  "put_at pos bs d = take pos d @ bs @ drop (pos + length bs) d"

definition extend :: "nat \<Rightarrow> bytes \<Rightarrow> bytes" where
  "extend required_size d = (if length d < required_size then d @ replicate (required_size - length d) 0 else d)"

definition pack_into :: "code \<Rightarrow> nat \<Rightarrow> int \<Rightarrow> bytes \<Rightarrow> bytes result" where
  "pack_into c pos v d =
     (if length d < pos + calcsize c then Inl StructError
      else rbind (pack_int c v) (\<lambda>bs. Inr (put_at pos bs d)))"

subsection \<open>The patch index\<close>

fun decode_entries :: "nat \<Rightarrow> bytes \<Rightarrow> (int \<times> int) list" where
  "decode_entries 0 bs = []"
| "decode_entries (Suc n) bs =
     (le_uint (take 8 bs), le_uint (take 4 (drop 8 bs))) # decode_entries n (drop 12 bs)"

definition frombuffer_index :: "bytes \<Rightarrow> (int \<times> int) list result" where
  "frombuffer_index bs =
     (if length bs mod 12 = 0 then Inr (decode_entries (length bs div 12) bs) else Inl ValueError)"

definition entry_bytes :: "int \<times> int \<Rightarrow> bytes" where
  "entry_bytes e = le_bytes 8 (fst e) @ le_bytes 4 (snd e)"

definition index_bytes :: "(int \<times> int) list \<Rightarrow> bytes" where
  "index_bytes es = concat (map entry_bytes es)"

definition entry_fits :: "int \<times> int \<Rightarrow> bool" where
  "entry_fits e \<longleftrightarrow> in_range (CU 8) (fst e) \<and> in_range (CU 4) (snd e)"

definition set_entry :: "nat \<Rightarrow> int \<times> int \<Rightarrow> (int \<times> int) list \<Rightarrow> (int \<times> int) list result" where
  "set_entry i e es =
     (if length es \<le> i then Inl IndexError
      else if \<not> entry_fits e then Inl OverflowError
      else Inr (es[i := e]))"

text \<open>The offset of entry \<open>i\<close> from its predecessor.\<close>

definition next_offset :: "nat \<Rightarrow> (int \<times> int) list \<Rightarrow> int result" where
  "next_offset i es =
     (if i = 0 then Inr 0
      else if i - 1 < length es then Inr (fst (es ! (i - 1)) + snd (es ! (i - 1)))
      else Inl IndexError)"

subsection \<open>Reading\<close>

definition load_metadata :: "'r storage \<Rightarrow> 'r storage result" where
  "load_metadata s =
     rbind (need ValueError (metadata_b s)) (\<lambda>b.
     rbind (segment_metadata_deserialize b) (\<lambda>m. Inr (s\<lparr>metadata := Some m\<rparr>)))"

definition read_compressed :: "senv \<Rightarrow> binary_reader \<Rightarrow> (bytes \<times> binary_reader) result" where
  "read_compressed E r =
     rbind (read_int32 r) (\<lambda>(l, r).
     let (c, r) = read_bytes l r in
     case decompress E c of Inl _ \<Rightarrow> Inl RuntimeError | Inr b \<Rightarrow> Inr (b, r))"

definition read_all :: "senv \<Rightarrow> 'r storage \<Rightarrow> 'r storage result" where
  "read_all E s =
     rbind (read_int32 (new_reader (data_b s) 0)) (\<lambda>(l, r).
     let (mb, r) = read_bytes l r in
     rbind (load_metadata (s\<lparr>metadata_b := Some mb\<rparr>)) (\<lambda>s.
     rbind (read_compressed E r) (\<lambda>(ib, r).
     rbind (read_compressed E r) (\<lambda>(tb, r).
     rbind (read_int32 r) (\<lambda>(l, r).
     let (xb, r) = read_bytes l r in
     rbind (read_int32 r) (\<lambda>(l, r).
     let (pb, r) = read_bytes l r in
     rbind (read_compressed E r) (\<lambda>(lb, r).
       Inr (s\<lparr>initial_game_state_b := Some ib, path_tree_b := Some tb, patch_index_b := Some xb,
              d_pool_b := Some pb, last_game_state_b := Some lb\<rparr>))))))))"

definition read_append_mode_from_disk :: "senv \<Rightarrow> 'r storage \<Rightarrow> 'r storage result" where
  "read_append_mode_from_disk E s =
     rbind (read_int32 (new_reader (data_b s) 0)) (\<lambda>(l, r).
     let (mb, r) = read_bytes l r in
     rbind (load_metadata (s\<lparr>metadata_b := Some mb\<rparr>)) (\<lambda>s.
     rbind (read_int32 r) (\<lambda>(l, r).
     let r = reader_skip l r in
     rbind (read_int32 r) (\<lambda>(l, r).
     let (tc, r) = read_bytes l r in
     rbind (decompress E tc) (\<lambda>tb.
     rbind (read_int32 r) (\<lambda>(l, r).
     let (xb, r) = read_bytes l r in
     rbind (read_int32 r) (\<lambda>(l, r).
     let (pb, r) = read_bytes l r in
     rbind (read_int32 r) (\<lambda>(l, r).
     let (lc, r) = read_bytes l r in
     rbind (decompress E lc) (\<lambda>lb.
       Inr (s\<lparr>path_tree_b := Some tb, patch_index_b := Some xb, d_pool_b := Some pb,
              last_game_state_b := Some lb\<rparr>))))))))))"

definition read_metadata_from_disk :: "'r storage \<Rightarrow> 'r storage result" where
  "read_metadata_from_disk s =
     rbind (unpack_int_from (CS 4) (data_b s) 0) (\<lambda>l.
       Inr (s\<lparr>metadata_b := Some (py_slice (data_b s) 4 (4 + l))\<rparr>))"

subsection \<open>Writing\<close>

definition write_compressed :: "senv \<Rightarrow> bytes \<Rightarrow> binary_writer \<Rightarrow> binary_writer result" where
  "write_compressed E b w =
     (let c = compress E b in
      rbind (write_int32 (int (length c)) w) (\<lambda>w. Inr (write_bytes c w)))"

definition update_metadata :: "'r storage \<Rightarrow> 'r storage result" where
  "update_metadata s =
     rbind (unpack_int_from (CS 4) (data_b s) 0) (\<lambda>l.
     rbind (have_attr (metadata s)) (\<lambda>m.
     rbind (segment_metadata_serialize m) (\<lambda>mb.
     rbind (py_assert (l = int (length mb))) (\<lambda>_.
       Inr (s\<lparr>data_b := py_set_slice (data_b s) 4 (4 + l) mb\<rparr>)))))"

definition write_all :: "senv \<Rightarrow> 'r storage \<Rightarrow> 'r storage result" where
  "write_all E s =
     rbind (need AssertionError (initial_game_state_b s)) (\<lambda>ib.
     rbind (need AssertionError (path_tree_b s)) (\<lambda>tb.
     rbind (need AssertionError (patch_index_b s)) (\<lambda>xb.
     rbind (need AssertionError (d_pool_b s)) (\<lambda>pb.
     rbind (need AssertionError (last_game_state_b s)) (\<lambda>lb.
     rbind (write_int32 (int segment_metadata_size) new_writer) (\<lambda>w.
     rbind (writer_seek (int segment_metadata_size + 4) w) (\<lambda>w.
     rbind (write_compressed E ib w) (\<lambda>w.
     rbind (write_compressed E tb w) (\<lambda>w.
     rbind (write_int32 (int (length xb)) w) (\<lambda>w.
     let patch_index_start = writer_tell w;
         w = write_bytes xb w in
     rbind (write_int32 (int (length pb)) w) (\<lambda>w.
     let w = write_bytes pb w in
     rbind (write_compressed E lb w) (\<lambda>w.
     rbind (have_attr (metadata s)) (\<lambda>m.
       update_metadata (s\<lparr>data_b := getbuffer w,
         metadata := Some (m\<lparr>patch_index_start := int patch_index_start\<rparr>)\<rparr>))))))))))))))"

text \<open>The end of the data pool, computed from the index position and the stored pool size.\<close>

definition pool_end :: "'r storage \<Rightarrow> (nat \<times> int) result" where
  "pool_end s =
     rbind (have_attr (metadata s)) (\<lambda>m.
     rbind (have_bytes (patch_index_b s)) (\<lambda>xb.
     let end_of_patch_index = patch_index_start m + int (length xb) in
     rbind (unpack_int_from (CS 4) (data_b s) end_of_patch_index) (\<lambda>current_size.
       Inr (nat (end_of_patch_index + current_size + 4), current_size))))"

definition write_last_game_state :: "senv \<Rightarrow> 'r storage \<Rightarrow> 'r storage result" where
  "write_last_game_state E s =
     rbind (need AssertionError (last_game_state_b s)) (\<lambda>lb.
     let compressed = compress E lb; l = length compressed in
     rbind (pool_end s) (\<lambda>(pos, _).
     let d = extend (pos + 4 + l) (data_b s) in
     rbind (pack_into (CS 4) pos (int l) d) (\<lambda>d.
       Inr (s\<lparr>data_b := put_at (pos + 4) compressed d\<rparr>))))"

text \<open>One turn of the serialisation loop of \<open>append_patches_to_disk\<close> and \<open>unload_patches\<close>: the
  index entry of patch number \<open>i\<close> follows its predecessor and the bytes go to the pool.\<close>

definition store_patch ::
    "senv \<Rightarrow> nat \<times> patch_node \<times> triples \<Rightarrow> (int \<times> int) list \<times> binary_writer \<times> nat
     \<Rightarrow> ((int \<times> int) list \<times> binary_writer \<times> nat) result" where
  "store_patch E x st =
     (case (x, st) of ((i, p, ps), (es, w, cnt)) \<Rightarrow>
        rbind (next_offset i es) (\<lambda>offset.
        rbind (node_serialize (codec E) (ser E) ps p) (\<lambda>b.
        rbind (set_entry i (offset, int (length b)) es) (\<lambda>es.
          Inr (es, write_bytes b w, Suc cnt)))))"

definition append_patches_to_disk ::
    "senv \<Rightarrow> patch_node list \<Rightarrow> triples list \<Rightarrow> 'r storage \<Rightarrow> 'r storage result" where
  "append_patches_to_disk E nodes paths s =
     rbind (have_bytes (patch_index_b s)) (\<lambda>xb.
     rbind (frombuffer_index xb) (\<lambda>es.
     rbind (have_attr (metadata s)) (\<lambda>m.
     rbind (py_assert (length paths = length nodes)) (\<lambda>_.
     let index_offset = nat (current_patches m) in
     rbind (rfold (store_patch E) (enumerate index_offset (zip nodes paths)) (es, new_writer, 0)) (\<lambda>(es, w, cnt).
     let xb = index_bytes es;
         s = s\<lparr>patch_index_b := Some xb,
               metadata := Some (m\<lparr>current_patches := current_patches m + int cnt\<rparr>)\<rparr> in
     rbind (pool_end s) (\<lambda>(pos, current_size).
     let new = getbuffer w;
         d = put_at pos new (extend (pos + length new) (data_b s));
         d = put_at (nat (patch_index_start m)) xb d in
     rbind (pack_into (CS 4) (nat (patch_index_start m) + length xb) (current_size + int (length new)) d) (\<lambda>d.
       Inr (s\<lparr>data_b := d\<rparr>))))))))"

subsection \<open>Objects\<close>

definition initialize :: "nat \<Rightarrow> 'r storage \<Rightarrow> 'r storage" where
  "initialize maxp s =
     s\<lparr>metadata := Some \<lparr>start_time = 0, last_time = 0, max_patches = int maxp, current_patches = 0,
          patch_index_start = 0, is_fragmented = False, map_id = []\<rparr>,
       tree := Some new_path_tree, graph := Some new_patch_graph,
       patch_index_b := Some (index_bytes (replicate maxp (0, 0)))\<rparr>"

definition load_initial_game_state :: "senv \<Rightarrow> 'r storage \<Rightarrow> (val \<times> 'r storage) result" where
  "load_initial_game_state E s =
     rbind (need ValueError (initial_game_state_b s)) (\<lambda>b.
     rbind (deserialize (raw_decode (codec E)) (ser E) b) (\<lambda>v.
       Inr (v, s\<lparr>initial_game_state := Some v\<rparr>)))"

definition load_last_game_state :: "senv \<Rightarrow> 'r storage \<Rightarrow> (val \<times> 'r storage) result" where
  "load_last_game_state E s =
     rbind (need ValueError (last_game_state_b s)) (\<lambda>b.
     case deserialize (raw_decode (codec E)) (ser E) b of
       Inl _ \<Rightarrow> Inl RuntimeError
     | Inr v \<Rightarrow> Inr (v, s\<lparr>last_game_state := Some v\<rparr>))"

text \<open>The three loops of \<open>load_path_tree\<close>.  A hole in the element list would make a node without a
  path element; it does not arise from a tree whose indices are contiguous and is an error here.\<close>

definition create_node ::
    "pathel option list \<Rightarrow> bytes \<Rightarrow> nat \<Rightarrow> 'r path_tree \<Rightarrow> 'r path_tree result" where
  "create_node elements flags idx t =
     (if length elements \<le> idx then Inl IndexError
      else case elements ! idx of
        None \<Rightarrow> Inl TypeError
      | Some pe \<Rightarrow>
          if length flags \<le> idx then Inl IndexError
          else Inr (t\<lparr>idx_to_node := dict_set (idx_to_node t) idx
                 ((new_node None pe idx)\<lparr>is_leaf := flags ! idx \<noteq> 0\<rparr>)\<rparr>))"

definition link_node ::
    "pathel option list \<Rightarrow> int list \<Rightarrow> nat \<Rightarrow> 'r path_tree \<Rightarrow> 'r path_tree result" where
  "link_node elements parents idx t =
     (if length parents \<le> idx then Inl IndexError
      else let parent_idx = parents ! idx in
        if parent_idx \<noteq> -1 \<and> parent_idx \<noteq> 0 then
          if parent_idx < 0 then Inl KeyError
          else rbind (map_node idx (\<lambda>n. n\<lparr>node_parent := Some (nat parent_idx)\<rparr>) t) (\<lambda>t.
            rbind (need TypeError (elements ! idx)) (\<lambda>pe.
              map_node (nat parent_idx) (\<lambda>n. n\<lparr>children := dict_set (children n) pe idx\<rparr>) t))
        else Inr t)"

fun add_fragments ::
    "senv \<Rightarrow> (int \<times> int) list \<Rightarrow> bytes \<Rightarrow> 'r path_tree \<Rightarrow> 'r path_tree result" where
  "add_fragments E [] pool t = Inr t"
| "add_fragments E ((offset, sz) # es) pool t =
     (if sz = 0 then Inr t
      else rbind (extract_tree_nodes (codec E) (py_slice pool offset (offset + sz))) (\<lambda>ts.
           rbind (add_triples ts t) (add_fragments E es pool)))"

definition unpack_path_tree :: "senv \<Rightarrow> bytes \<Rightarrow> 'r path_tree result" where
  "unpack_path_tree E b =
     rbind (unpack_tree E b) (\<lambda>(n, elements, parent_bytes, flags).
     rbind (if length parent_bytes mod 4 = 0
            then Inr (decode_ints (CS 4) (length parent_bytes div 4) parent_bytes) else Inl ValueError) (\<lambda>parents.
     let t = new_path_tree\<lparr>idx_counter := n\<rparr> in
     rbind (rfold (create_node elements flags) [1..<n] t) (\<lambda>t.
       rfold (link_node elements parents) [0..<n] t)))"

definition load_path_tree :: "senv \<Rightarrow> 'r storage \<Rightarrow> 'r storage result" where
  "load_path_tree E s =
     rbind (need ValueError (path_tree_b s)) (\<lambda>b.
     rbind (unpack_path_tree E b) (\<lambda>t.
     rbind (have_attr (metadata s)) (\<lambda>m.
     if \<not> is_fragmented m then Inr (s\<lparr>tree := Some t\<rparr>)
     else
       rbind (have_bytes (patch_index_b s)) (\<lambda>xb.
       rbind (frombuffer_index xb) (\<lambda>es.
       rbind (have_bytes (d_pool_b s)) (\<lambda>pool.
       rbind (add_fragments E es pool t) (\<lambda>t. Inr (s\<lparr>tree := Some t\<rparr>))))))))"

fun load_entries :: "senv \<Rightarrow> (int \<times> int) list \<Rightarrow> bytes \<Rightarrow> patch_graph \<Rightarrow> patch_graph result" where
  "load_entries E [] pool g = Inr g"
| "load_entries E ((offset, sz) # es) pool g =
     (if sz = 0 then Inr g
      else rbind (node_deserialize (codec E) (ser E) (py_slice pool offset (offset + sz))) (\<lambda>(p, _).
           rbind (add_edge_and_vertices p g) (load_entries E es pool)))"

definition load_patches :: "senv \<Rightarrow> 'r storage \<Rightarrow> 'r storage result" where
  "load_patches E s =
     rbind (have_bytes (patch_index_b s)) (\<lambda>xb.
     rbind (frombuffer_index xb) (\<lambda>es.
     rbind (have_bytes (d_pool_b s)) (\<lambda>pool.
     if pool = [] then Inr (s\<lparr>graph := Some new_patch_graph\<rparr>)
     else rbind (load_entries E es pool new_patch_graph) (\<lambda>g. Inr (s\<lparr>graph := Some g\<rparr>)))))"

definition unload_metadata :: "'r storage \<Rightarrow> 'r storage result" where
  "unload_metadata s =
     rbind (have_attr (metadata s)) (\<lambda>m.
     rbind (segment_metadata_serialize m) (\<lambda>b. Inr (s\<lparr>metadata_b := Some b\<rparr>)))"

definition unload_initial_game_state :: "senv \<Rightarrow> val \<Rightarrow> 'r storage \<Rightarrow> 'r storage result" where
  "unload_initial_game_state E v s =
     rbind (serialize (raw_encode (codec E)) (ser E) v) (\<lambda>b.
       Inr (s\<lparr>initial_game_state_b := Some b, initial_game_state := Some v\<rparr>))"

definition unload_last_game_state :: "senv \<Rightarrow> 'r storage \<Rightarrow> 'r storage result" where
  "unload_last_game_state E s =
     rbind (need AssertionError (last_game_state s)) (\<lambda>v.
     rbind (serialize (raw_encode (codec E)) (ser E) v) (\<lambda>b. Inr (s\<lparr>last_game_state_b := Some b\<rparr>)))"

text \<open>The columns \<open>unload_path_tree\<close> fills, node by node.\<close>

definition unload_node ::
    "nat \<times> 'r path_tree_node \<Rightarrow> pathel option list \<times> int list \<times> int list
     \<Rightarrow> (pathel option list \<times> int list \<times> int list) result" where
  "unload_node x cols =
     (case (x, cols) of ((idx, n), (elements, parents, flags)) \<Rightarrow>
        if length elements \<le> idx then Inl IndexError
        else Inr (elements[idx := Some (path_element n)],
                  parents[idx := (case node_parent n of Some k \<Rightarrow> int k | None \<Rightarrow> -1)],
                  flags[idx := (if is_leaf n then 1 else 0)]))"

definition unload_path_tree :: "senv \<Rightarrow> 'r storage \<Rightarrow> 'r storage result" where
  "unload_path_tree E s =
     rbind (have_attr (tree s)) (\<lambda>t.
     let n = idx_counter t in
     rbind (rfold unload_node (idx_to_node t) (replicate n None, replicate n (-1), replicate n 0))
       (\<lambda>(elements, parents, flags).
         Inr (s\<lparr>path_tree_b := Some (pack_tree E (n, elements, concat (map (le_bytes 4) parents),
                 concat (map (le_bytes 1) flags)))\<rparr>)))"

definition unload_patches :: "senv \<Rightarrow> 'r storage \<Rightarrow> 'r storage result" where
  "unload_patches E s =
     rbind (have_attr (graph s)) (\<lambda>g.
     rbind (have_bytes (patch_index_b s)) (\<lambda>xb.
     rbind (frombuffer_index xb) (\<lambda>es.
     rbind (rfold (store_patch E) (enumerate 0 (map (\<lambda>(_, p). (p, [])) (patches g))) (es, new_writer, 0)) (\<lambda>(es, w, cnt).
     rbind (if cnt = 0 then Inr (metadata s)
            else rbind (have_attr (metadata s)) (\<lambda>m.
              Inr (Some (m\<lparr>current_patches := current_patches m + int cnt\<rparr>)))) (\<lambda>md.
       Inr (s\<lparr>patch_index_b := Some (index_bytes es), d_pool_b := Some (getbuffer w), metadata := md\<rparr>))))))"

subsection \<open>Layout\<close>

definition blk :: "bytes \<Rightarrow> bytes" where
  "blk c = le_bytes 4 (int (length c)) @ c"

definition short :: "bytes \<Rightarrow> bool" where
  "short c \<longleftrightarrow> length c < 2 ^ 31"

lemma short_range: "short c \<Longrightarrow> in_range (CS 4) (int (length c))"
  by (simp add: short_def)

lemma length_blk [simp]: "length (blk c) = 4 + length c"
  by (simp add: blk_def)

definition image :: "bytes \<Rightarrow> bytes \<Rightarrow> bytes \<Rightarrow> bytes \<Rightarrow> bytes \<Rightarrow> bytes \<Rightarrow> bytes \<Rightarrow> bytes" where
  "image mb ic tc xb pb lc rest = blk mb @ blk ic @ blk tc @ blk xb @ blk pb @ blk lc @ rest"

lemma block_reads:
  assumes "reads_at r (blk c @ bs)" "short c"
  obtains r1 r2 where "read_int32 r = Inr (int (length c), r1)" "read_bytes (int (length c)) r1 = (c, r2)"
    "reads_at r2 bs"
proof -
  from assms(1) have a: "reads_at r (le_bytes 4 (int (length c)))"
    "reads_at (advance 4 r) (c @ bs)"
    using reads_at_head [of r "le_bytes 4 (int (length c))"] reads_at_tail [of r "le_bytes 4 (int (length c))" "c @ bs"]
    by (simp_all add: blk_def)
  then have "read_int32 r = Inr (int (length c), advance 4 r)"
    using i32.rd_ok [OF short_range [OF assms(2)], of r] by simp
  moreover have "read_bytes (int (length c)) (advance 4 r) = (c, advance (int (length c)) (advance 4 r))"
    using reads_at_head [OF a(2)] by (rule read_bytes_reads)
  moreover have "reads_at (advance (int (length c)) (advance 4 r)) bs"
    using reads_at_tail [OF a(2)] .
  ultimately show ?thesis using that by blast
qed

lemma read_compressed_block:
  assumes "reads_at r (blk c @ bs)" "short c" "decompress E c = Inr b"
  obtains r' where "read_compressed E r = Inr (b, r')" "reads_at r' bs"
proof -
  from block_reads [OF assms(1,2)] obtain r1 r2 where "read_int32 r = Inr (int (length c), r1)"
    "read_bytes (int (length c)) r1 = (c, r2)" "reads_at r2 bs" .
  then show ?thesis using that assms(3) by (simp add: read_compressed_def)
qed

lemma read_image:
  assumes d: "data_b s = image mb ic tc xb pb lc rest"
    and sh: "short mb" "short ic" "short tc" "short xb" "short pb" "short lc"
    and m: "segment_metadata_deserialize mb = Inr m"
    and dec: "decompress E ic = Inr ib" "decompress E tc = Inr tb" "decompress E lc = Inr lb"
  shows "read_all E s = Inr (s\<lparr>metadata_b := Some mb, metadata := Some m, initial_game_state_b := Some ib,
     path_tree_b := Some tb, patch_index_b := Some xb, d_pool_b := Some pb, last_game_state_b := Some lb\<rparr>)"
proof -
  have "reads_at (new_reader (data_b s) 0) (blk mb @ blk ic @ blk tc @ blk xb @ blk pb @ blk lc @ rest)"
    unfolding d image_def reads_at_def new_reader_def by (intro exI [of _ "[]"]) simp
  from block_reads [OF this sh(1)] obtain r1 r2 where
    r1: "read_int32 (new_reader (data_b s) 0) = Inr (int (length mb), r1)"
      "read_bytes (int (length mb)) r1 = (mb, r2)"
      "reads_at r2 (blk ic @ blk tc @ blk xb @ blk pb @ blk lc @ rest)" .
  from read_compressed_block [OF r1(3) sh(2) dec(1)] obtain r3 where
    r3: "read_compressed E r2 = Inr (ib, r3)" "reads_at r3 (blk tc @ blk xb @ blk pb @ blk lc @ rest)" .
  from read_compressed_block [OF r3(2) sh(3) dec(2)] obtain r4 where
    r4: "read_compressed E r3 = Inr (tb, r4)" "reads_at r4 (blk xb @ blk pb @ blk lc @ rest)" .
  from block_reads [OF r4(2) sh(4)] obtain r5 r6 where
    r5: "read_int32 r4 = Inr (int (length xb), r5)" "read_bytes (int (length xb)) r5 = (xb, r6)"
      "reads_at r6 (blk pb @ blk lc @ rest)" .
  from block_reads [OF r5(3) sh(5)] obtain r7 r8 where
    r7: "read_int32 r6 = Inr (int (length pb), r7)" "read_bytes (int (length pb)) r7 = (pb, r8)"
      "reads_at r8 (blk lc @ rest)" .
  from read_compressed_block [OF r7(3) sh(6) dec(3)] obtain r9 where
    r9: "read_compressed E r8 = Inr (lb, r9)" .
  show ?thesis
    by (simp add: read_all_def r1(1,2) r3(1) r4(1) r5(1,2) r7(1,2) r9 load_metadata_def m)
qed

subsection \<open>Writing the whole segment\<close>

lemma bio_write_gap:
  "wpos w = length (wbuf w) + n \<Longrightarrow> bs \<noteq> [] \<Longrightarrow>
   bio_write bs w = \<lparr>wbuf = wbuf w @ replicate n 0 @ bs, wpos = wpos w + length bs\<rparr>"
  by (auto simp: bio_write_def Let_def)

lemma write_compressed_ok:
  assumes "short (compress E b)"
  shows "write_compressed E b w = Inr (bio_write (compress E b) (bio_write (le_bytes 4 (int (length (compress E b)))) w))"
  using i32.wr_ok [OF short_range [OF assms]] by (simp add: write_compressed_def Let_def write_bytes_def)

lemma set_slice_meta:
  "length mb = length z \<Longrightarrow> length h = 4 \<Longrightarrow>
   py_set_slice (h @ z @ rest) 4 (4 + int (length z)) mb = h @ mb @ rest"
  using py_set_slice_nat [of 4 "h @ z @ rest" "length z" mb] by simp

lemma size_in_range: "in_range (CS 4) (int segment_metadata_size)"
  by (simp add: segment_metadata_size_def segment_format_def calcsizes_def)

lemma unpack_size: "unpack_int_from (CS 4) (le_bytes 4 (int n) @ rest) 0 = Inr (int n)" if "n < 2 ^ 31"
  using buffer_at_append [of "le_bytes 4 (int n)" 4 "[]" rest] decode_le_bytes [of "CS 4" "int n"] that
  by (simp add: unpack_int_from_def)

definition index_position :: "bytes \<Rightarrow> bytes \<Rightarrow> nat" where
  "index_position ic tc = 4 + segment_metadata_size + (4 + length ic) + (4 + length tc) + 4"

lemma write_sections:
  assumes sh: "short (compress E ib)" "short (compress E tb)" "short xb" "short pb" "short (compress E lb)"
  shows "rbind (write_int32 (int segment_metadata_size) new_writer) (\<lambda>w.
     rbind (writer_seek (int segment_metadata_size + 4) w) (\<lambda>w.
     rbind (write_compressed E ib w) (\<lambda>w.
     rbind (write_compressed E tb w) (\<lambda>w.
     rbind (write_int32 (int (length xb)) w) (\<lambda>w.
     let pis = writer_tell w; w = write_bytes xb w in
     rbind (write_int32 (int (length pb)) w) (\<lambda>w.
     let w = write_bytes pb w in
     rbind (write_compressed E lb w) (\<lambda>w. K pis w))))))) =
     K (index_position (compress E ib) (compress E tb))
       (bio_write (image (replicate segment_metadata_size 0) (compress E ib) (compress E tb) xb pb (compress E lb) [])
          new_writer)"
proof -
  let ?z = "replicate segment_metadata_size 0" and ?h = "le_bytes 4 (int segment_metadata_size)"
  let ?w1 = "\<lparr>wbuf = ?h, wpos = segment_metadata_size + 4\<rparr>"
  let ?b = "le_bytes 4 (int (length (compress E ib)))"
  have ne: "?b \<noteq> []" by (simp add: numeral_eq_Suc)
  have h: "rbind (write_int32 (int segment_metadata_size) new_writer) (writer_seek (int segment_metadata_size + 4)) = Inr ?w1"
    using i32.wr_ok [OF size_in_range, of new_writer]
    by (simp add: bio_write_appending writer_seek_def nat_add_distrib) (simp add: new_writer_def)
  have b: "bio_write ?b ?w1 = bio_write (blk ?z @ ?b) new_writer"
    using ne by (simp add: bio_write_gap [of ?w1 segment_metadata_size] bio_write_appending blk_def)
      (simp add: new_writer_def)
  let ?pre = "blk ?z @ blk (compress E ib) @ blk (compress E tb) @ le_bytes 4 (int (length xb))"
  have t: "writer_tell (bio_write ?pre new_writer) = index_position (compress E ib) (compress E tb)"
    by (simp add: writer_tell_def bio_write_appending index_position_def) (simp add: new_writer_def)
  note wr = write_compressed_ok [OF sh(1)] write_compressed_ok [OF sh(2)] write_compressed_ok [OF sh(5)]
    i32.wr_ok [OF short_range [OF sh(3)]] i32.wr_ok [OF short_range [OF sh(4)]]
  have pre: "bio_write (le_bytes 4 (int (length xb))) (bio_write (compress E tb) (bio_write (le_bytes 4 (int (length (compress E tb))))
      (bio_write (compress E ib) (bio_write ?b ?w1)))) = bio_write ?pre new_writer"
    unfolding b by (simp add: bio_write_append blk_def)
  show ?thesis
    unfolding rbind_assoc [symmetric] h
    by (simp add: wr pre t [unfolded blk_def append_assoc length_replicate] Let_def write_bytes_def bio_write_append image_def blk_def)
qed

lemma segment_serialize_length: "segment_metadata_serialize m = Inr mb \<Longrightarrow> length mb = segment_metadata_size"
  using segment_serialize_ok [OF segment_serialize_Inr, of m mb]
  by (auto simp: segment_metadata_size_def segment_format_def)

lemma write_all_image:
  assumes some: "initial_game_state_b s = Some ib" "path_tree_b s = Some tb" "patch_index_b s = Some xb"
      "d_pool_b s = Some pb" "last_game_state_b s = Some lb" "metadata s = Some m"
    and sh: "short (compress E ib)" "short (compress E tb)" "short xb" "short pb" "short (compress E lb)"
    and m': "m' = m\<lparr>patch_index_start := int (index_position (compress E ib) (compress E tb))\<rparr>"
    and mb: "segment_metadata_serialize m' = Inr mb"
  shows "write_all E s = Inr (s\<lparr>data_b := image mb (compress E ib) (compress E tb) xb pb (compress E lb) [],
     metadata := Some m'\<rparr>)"
proof -
  let ?z = "replicate segment_metadata_size 0 :: bytes"
  let ?im = "\<lambda>b. image b (compress E ib) (compress E tb) xb pb (compress E lb) []"
  have len: "length mb = segment_metadata_size"
    using segment_serialize_length [OF mb] .
  have small: "segment_metadata_size < 2 ^ 31" using size_in_range by simp
  have g: "getbuffer (bio_write bs new_writer) = bs" for bs
    by (simp add: bio_write_appending getbuffer_def) (simp add: new_writer_def)
  have u: "unpack_int_from (CS 4) (?im ?z) 0 = Inr (int segment_metadata_size)"
    unfolding image_def using unpack_size [OF small] by (simp add: blk_def)
  have "py_set_slice (?im ?z) 4 (4 + int segment_metadata_size) mb = ?im mb"
    using set_slice_meta [of mb ?z "le_bytes 4 (int segment_metadata_size)"] len
    by (simp add: image_def blk_def)
  with u len mb m' show ?thesis
    unfolding write_all_def some need_simps rbind_Inr
      write_sections [OF sh, where K = "\<lambda>pis w. update_metadata (s\<lparr>data_b := getbuffer w,
         metadata := Some (m\<lparr>patch_index_start := int pis\<rparr>)\<rparr>)"]
    by (simp add: g update_metadata_def)
qed


subsection \<open>The patch index as the lengths of the stored patches\<close>

fun offsets :: "int \<Rightarrow> bytes list \<Rightarrow> (int \<times> int) list" where
  "offsets k [] = []"
| "offsets k (b # bs) = (k, int (length b)) # offsets (k + int (length b)) bs"

definition index_of :: "nat \<Rightarrow> bytes list \<Rightarrow> (int \<times> int) list" where
  "index_of maxp bs = offsets 0 bs @ replicate (maxp - length bs) (0, 0)"

lemma length_offsets [simp]: "length (offsets k bs) = length bs"
  by (induction bs arbitrary: k) auto

lemma length_index_of [simp]: "length bs \<le> maxp \<Longrightarrow> length (index_of maxp bs) = maxp"
  by (simp add: index_of_def)

lemma offsets_snoc: "offsets k (bs @ [b]) = offsets k bs @ [(k + int (length (concat bs)), int (length b))]"
  by (induction bs arbitrary: k) auto

lemma offsets_fit:
  "0 \<le> k \<Longrightarrow> k + int (length (concat bs)) < 2 ^ 32 \<Longrightarrow> list_all entry_fits (offsets k bs)"
  by (induction bs arbitrary: k) (auto simp: entry_fits_def)

lemma next_offset_index_of: "length bs \<le> maxp \<Longrightarrow> next_offset (length bs) (index_of maxp bs) = Inr (int (length (concat bs)))"
  by (cases bs rule: rev_cases) (auto simp: next_offset_def index_of_def offsets_snoc nth_append)

lemma set_entry_index_of:
  assumes "length bs < maxp" "int (length (concat bs)) + int (length b) < 2 ^ 32"
  shows "set_entry (length bs) (int (length (concat bs)), int (length b)) (index_of maxp bs) =
    Inr (index_of maxp (bs @ [b]))"
proof -
  have "replicate (maxp - length bs) (0, 0) = (0, 0) # replicate (maxp - Suc (length bs)) (0 :: int, 0 :: int)"
    using assms(1) by (metis Suc_diff_Suc replicate_Suc)
  then have "(index_of maxp bs)[length bs := (int (length (concat bs)), int (length b))] = index_of maxp (bs @ [b])"
    by (simp add: index_of_def offsets_snoc list_update_append)
  then show ?thesis using assms by (simp add: set_entry_def entry_fits_def)
qed

lemma store_patch_next:
  assumes "length bs < maxp" "int (length (concat bs)) + int (length b) < 2 ^ 32"
    "node_serialize (codec E) (ser E) ps p = Inr b"
  shows "store_patch E (length bs, p, ps) (index_of maxp bs, w, cnt) =
    Inr (index_of maxp (bs @ [b]), bio_write b w, Suc cnt)"
  using assms set_entry_index_of [OF assms(1,2)]
  by (simp add: store_patch_def next_offset_index_of write_bytes_def)

lemma store_patches:
  assumes "rmap (\<lambda>(p, ps). node_serialize (codec E) (ser E) ps p) xs = Inr ns"
    "length bs + length xs \<le> maxp" "int (length (concat (bs @ ns))) < 2 ^ 32" "appending w"
  shows "rfold (store_patch E) (enumerate (length bs) xs) (index_of maxp bs, w, cnt) =
    Inr (index_of maxp (bs @ ns), bio_write (concat ns) w, cnt + length xs)"
  using assms
proof (induction xs arbitrary: bs ns w cnt)
  case (Cons x xs)
  obtain p ps where x: "x = (p, ps)" by (cases x)
  from Cons.prems(1) obtain b ns' where b: "node_serialize (codec E) (ser E) ps p = Inr b"
    "rmap (\<lambda>(p, ps). node_serialize (codec E) (ser E) ps p) xs = Inr ns'" "ns = b # ns'"
    by (auto simp: x rbind_eq_Inr_iff)
  have "store_patch E (length bs, p, ps) (index_of maxp bs, w, cnt) = Inr (index_of maxp (bs @ [b]), bio_write b w, Suc cnt)"
    using Cons.prems b by (intro store_patch_next) auto
  with Cons.IH [of ns' "bs @ [b]" "bio_write b w" "Suc cnt"] Cons.prems b show ?case
    by (simp add: x bio_write_append)
qed (simp add: bio_write_appending)

lemma decode_index_bytes: "list_all entry_fits es \<Longrightarrow> decode_entries (length es) (index_bytes es @ rest) = es"
proof (induction es arbitrary: rest)
  case (Cons e es)
  then show ?case
    by (simp add: index_bytes_def entry_bytes_def entry_fits_def le_uint_roundtrip)
qed simp

lemma length_index_bytes [simp]: "length (index_bytes es) = 12 * length es"
  by (induction es) (auto simp: index_bytes_def entry_bytes_def)

lemma frombuffer_index_bytes: "list_all entry_fits es \<Longrightarrow> frombuffer_index (index_bytes es) = Inr es"
  using decode_index_bytes [of es "[]"] by (simp add: frombuffer_index_def)

lemma index_of_fits: "int (length (concat bs)) < 2 ^ 32 \<Longrightarrow> list_all entry_fits (index_of maxp bs)"
  using offsets_fit [of 0 bs] by (auto simp: index_of_def entry_fits_def list_all_iff)

lemma load_entries_offsets:
  assumes "list_all2 (\<lambda>b p. b \<noteq> [] \<and> (\<exists>ps. node_deserialize (codec E) (ser E) b = Inr (p, ps))) bs ps"
  shows "load_entries E (offsets (int (length pre)) bs @ replicate n (0, 0)) (pre @ concat bs @ rest) g =
    rfold add_edge_and_vertices ps g"
  using assms
proof (induction bs ps arbitrary: pre g rule: list_all2_induct)
  case Nil
  then show ?case by (cases n) auto
next
  case (Cons b bs p ps)
  then obtain q where q: "b \<noteq> []" "node_deserialize (codec E) (ser E) b = Inr (p, q)" by blast
  have "py_slice (pre @ b @ concat bs @ rest) (int (length pre)) (int (length pre) + int (length b)) = b"
    by simp
  moreover have "load_entries E (offsets (int (length pre) + int (length b)) bs @ replicate n (0, 0))
      (pre @ b @ concat bs @ rest) = rfold add_edge_and_vertices ps"
    using Cons.IH [of "pre @ b"] by (simp add: fun_eq_iff)
  ultimately show ?case using q by simp
qed


subsection \<open>Changing a segment in place\<close>

lemma put_at_mid:
  "length pre = pos \<Longrightarrow> length old = length new \<Longrightarrow> put_at pos new (pre @ old @ rest) = pre @ new @ rest"
  by (simp add: put_at_def)

lemma put_at_extend:
  "length pre = pos \<Longrightarrow> put_at pos new (extend (pos + length new) (pre @ rest)) = pre @ new @ drop (length new) rest"
  by (auto simp: put_at_def extend_def)

lemma extend_append: "extend (length p + n) (p @ r) = p @ extend n r"
  by (simp add: extend_def)

lemma length_extend: "n \<le> length (extend n r)"
  by (simp add: extend_def)

lemma pack_into_mid:
  "length pre = pos \<Longrightarrow> length old = calcsize c \<Longrightarrow> in_range c v \<Longrightarrow>
   pack_into c pos v (pre @ old @ rest) = Inr (pre @ le_bytes (calcsize c) v @ rest)"
  by (simp add: pack_into_def in_range_pack put_at_mid)

text \<open>A segment on disk: the header, the compressed initial state and path tree, the index of the
  stored patches and their bytes, and whatever follows; the cached metadata and index agree with it.\<close>

definition on_disk :: "segment_metadata \<Rightarrow> bytes \<Rightarrow> bytes \<Rightarrow> bytes \<Rightarrow> bytes list \<Rightarrow> bytes \<Rightarrow> 'r storage \<Rightarrow> bool" where
  "on_disk m mb ic tc bs rest s \<longleftrightarrow>
     data_b s = blk mb @ blk ic @ blk tc @ blk (index_bytes (index_of (nat (max_patches m)) bs)) @ blk (concat bs) @ rest \<and>
     length mb = segment_metadata_size \<and> metadata s = Some m \<and>
     patch_index_b s = Some (index_bytes (index_of (nat (max_patches m)) bs)) \<and>
     patch_index_start m = int (index_position ic tc) \<and> current_patches m = int (length bs) \<and>
     length bs \<le> nat (max_patches m) \<and> short (concat bs)"

lemma short_fits: "short (concat bs) \<Longrightarrow> int (length (concat bs)) < 2 ^ 32"
  by (simp add: short_def)

lemma pool_end_ok:
  assumes "metadata s = Some m" "patch_index_b s = Some xb" "patch_index_start m = int (length pre)"
    "data_b s = pre @ xb' @ blk pb @ rest" "length xb' = length xb" "short pb"
  shows "pool_end s = Inr (length pre + length xb + length pb + 4, int (length pb))"
proof -
  have "unpack_int_from (CS 4) ((pre @ xb') @ le_bytes 4 (int (length pb)) @ pb @ rest) (int (length (pre @ xb'))) =
      Inr (int (length pb))"
    using buffer_at_append [of "le_bytes 4 (int (length pb))" 4 "pre @ xb'" "pb @ rest"]
      decode_le_bytes [OF short_range [OF assms(6)]]
    by (simp add: unpack_int_from_def del: append_assoc)
  then show ?thesis using assms by (simp add: pool_end_def Let_def blk_def nat_add_distrib)
qed

lemma length_layout_head:
  "length mb = segment_metadata_size \<Longrightarrow>
   length (blk mb @ blk ic @ blk tc @ le_bytes 4 n) = index_position ic tc"
  by (simp add: index_position_def)

lemma append_on_disk:
  assumes d: "on_disk m mb ic tc bs rest s"
    and ns: "rmap (\<lambda>(p, ps). node_serialize (codec E) (ser E) ps p) (zip nodes paths) = Inr ns"
    and len: "length paths = length nodes" "length bs + length nodes \<le> nat (max_patches m)"
    and sh: "short (concat (bs @ ns))"
    and m': "m' = m\<lparr>current_patches := current_patches m + int (length nodes)\<rparr>"
  shows "\<exists>s'. append_patches_to_disk E nodes paths s = Inr s' \<and>
    on_disk m' mb ic tc (bs @ ns) (drop (length (concat ns)) rest) s' \<and> last_game_state_b s' = last_game_state_b s \<and>
    last_game_state s' = last_game_state s"
proof -
  let ?N = "nat (max_patches m)" and ?new = "concat ns" and ?rest' = "drop (length (concat ns)) rest"
  define xb xb' where x: "xb = index_bytes (index_of ?N bs)" "xb' = index_bytes (index_of ?N (bs @ ns))"
  define pre where pre: "pre = blk mb @ blk ic @ blk tc @ le_bytes 4 (int (length xb))"
  define s1 where s1: "s1 = s\<lparr>patch_index_b := Some xb', metadata := Some m'\<rparr>"
  define s2 where s2: "s2 = s1\<lparr>data_b := pre @ xb' @ blk (concat (bs @ ns)) @ ?rest'\<rparr>"
  note D = d [unfolded on_disk_def]
  have nl: "length ns = length nodes" using rmap_length [OF ns] len(1) by simp
  have lx: "length xb' = length xb" using D len(2) nl by (simp add: x)
  have lp: "patch_index_start m = int (length pre)"
    using D length_layout_head [of mb ic tc "int (length xb)"] by (simp add: pre)
  have st: "rfold (store_patch E) (enumerate (length bs) (zip nodes paths)) (index_of ?N bs, new_writer, 0) =
      Inr (index_of ?N (bs @ ns), bio_write ?new new_writer, length nodes)"
    using store_patches [OF ns _ short_fits [OF sh] appending_new, of ?N 0] len by simp
  have fb: "frombuffer_index xb = Inr (index_of ?N bs)"
    unfolding x using D by (intro frombuffer_index_bytes index_of_fits short_fits) simp
  have data: "data_b s = pre @ xb @ blk (concat bs) @ rest" using D by (simp add: pre x blk_def)
  let ?pos = "length pre + length xb' + length (concat bs) + 4"
  have pe: "pool_end s1 = Inr (?pos, int (length (concat bs)))"
    by (rule pool_end_ok [of _ m' _ _ xb _ rest]) (use D data lp lx m' in \<open>simp_all add: s1\<close>)
  have g: "getbuffer (bio_write ?new new_writer) = ?new"
    by (simp add: bio_write_appending getbuffer_def) (simp add: new_writer_def)
  have d1: "put_at ?pos ?new (extend (?pos + length ?new) (data_b s)) = pre @ xb @ blk (concat bs) @ ?new @ ?rest'"
    using put_at_extend [of "pre @ xb @ blk (concat bs)" ?pos ?new rest] lx unfolding data by simp
  have d2: "put_at (length pre) xb' (pre @ xb @ blk (concat bs) @ ?new @ ?rest') = pre @ xb' @ blk (concat bs) @ ?new @ ?rest'"
    using lx by (intro put_at_mid) simp_all
  have d3: "pack_into (CS 4) (length pre + length xb') (int (length (concat bs)) + int (length ?new))
      (pre @ xb' @ blk (concat bs) @ ?new @ ?rest') = Inr (data_b s2)"
    using pack_into_mid [of "pre @ xb'" "length pre + length xb'" "le_bytes 4 (int (length (concat bs)))" "CS 4"
        "int (length (concat bs)) + int (length ?new)"] sh
    by (simp add: blk_def short_def s2)
  have "append_patches_to_disk E nodes paths s = Inr s2"
  proof -
    have c: "nat (current_patches m) = length bs" "nat (patch_index_start m) = length pre" using D lp by simp_all
    have i: "patch_index_b s = Some xb" "metadata s = Some m" using D x by simp_all
    have "s\<lparr>patch_index_b := Some xb', metadata := Some (m\<lparr>current_patches := current_patches m + int (length nodes)\<rparr>)\<rparr> = s1"
      by (simp add: s1 m')
    moreover have "data_b s1 = data_b s" "s1\<lparr>data_b := data_b s2\<rparr> = s2" by (simp_all add: s1 s2)
    ultimately show ?thesis
      by (simp only: append_patches_to_disk_def i c need_simps rbind_Inr fb len(1) py_assert_simps simp_thms
          if_True st Let_def prod.case g x(2) [symmetric] pe d1 d2 d3)
  qed
  moreover have "on_disk m' mb ic tc (bs @ ns) ?rest' s2"
    using D len m' nl sh lx unfolding on_disk_def by (simp add: blk_def s2 s1 pre x)
  moreover have "last_game_state_b s2 = last_game_state_b s" "last_game_state s2 = last_game_state s"
    by (simp_all add: s2 s1)
  ultimately show ?thesis by blast
qed


lemma update_metadata_on_disk:
  assumes d: "on_disk m mb ic tc bs rest s" and mb': "segment_metadata_serialize m = Inr mb'"
  shows "\<exists>s'. update_metadata s = Inr s' \<and> on_disk m mb' ic tc bs rest s' \<and>
    last_game_state_b s' = last_game_state_b s \<and> last_game_state s' = last_game_state s"
proof -
  note D = d [unfolded on_disk_def]
  have len: "length mb' = segment_metadata_size" using segment_serialize_length [OF mb'] .
  let ?h = "le_bytes 4 (int segment_metadata_size)"
  define r where r2: "r = blk ic @ blk tc @ blk (index_bytes (index_of (nat (max_patches m)) bs)) @ blk (concat bs) @ rest"
  have r1: "data_b s = ?h @ mb @ r" unfolding r2 using D by (simp add: blk_def [of mb])
  have "unpack_int_from (CS 4) (data_b s) 0 = Inr (int segment_metadata_size)"
    unfolding r1 using size_in_range by (intro unpack_size) simp
  moreover have "py_set_slice (data_b s) 4 (4 + int segment_metadata_size) mb' = blk mb' @ r"
    unfolding r1 using set_slice_meta [of mb' mb ?h r] D len by (simp add: blk_def [of mb'])
  ultimately have "update_metadata s = Inr (s\<lparr>data_b := blk mb' @ r\<rparr>)"
    using D mb' len by (simp add: update_metadata_def)
  moreover have "on_disk m mb' ic tc bs rest (s\<lparr>data_b := blk mb' @ r\<rparr>)"
    using D len unfolding on_disk_def r2 by simp
  ultimately show ?thesis by auto
qed

lemma write_last_on_disk:
  assumes d: "on_disk m mb ic tc bs rest s" and lb: "last_game_state_b s = Some lb" "short (compress E lb)"
  shows "\<exists>s' rest'. write_last_game_state E s = Inr s' \<and> on_disk m mb ic tc bs (blk (compress E lb) @ rest') s' \<and>
    last_game_state s' = last_game_state s"
proof -
  note D = d [unfolded on_disk_def]
  define xb where x: "xb = index_bytes (index_of (nat (max_patches m)) bs)"
  define pre where pre: "pre = blk mb @ blk ic @ blk tc @ le_bytes 4 (int (length xb))"
  let ?lc = "compress E lb" and ?pos = "length pre + length xb + length (concat bs) + 4"
  have lp: "patch_index_start m = int (length pre)"
    using D length_layout_head [of mb ic tc "int (length xb)"] by (simp add: pre)
  have data: "data_b s = (pre @ xb @ blk (concat bs)) @ rest" using D by (simp add: pre x blk_def)
  have pe: "pool_end s = Inr (?pos, int (length (concat bs)))"
    by (rule pool_end_ok [of _ m _ _ xb _ rest]) (use D data lp in \<open>simp_all add: x\<close>)
  let ?p2 = "pre @ xb @ blk (concat bs)"
  define d0 r0 where d0: "d0 = extend (?pos + 4 + length ?lc) (data_b s)" and r: "r0 = extend (4 + length ?lc) rest"
  define r1 r2 r3 where rs: "r1 = take 4 r0" "r2 = take (length ?lc) (drop 4 r0)" "r3 = drop (length ?lc) (drop 4 r0)"
  have r0: "d0 = ?p2 @ r0" using extend_append [of ?p2 "4 + length ?lc" rest] by (simp add: d0 r data ac_simps)
  have "r0 = r1 @ r2 @ r3" unfolding rs append_take_drop_id ..
  moreover have "length r1 = 4" "length r2 = length ?lc"
    using length_extend [of "4 + length ?lc" rest] by (simp_all add: rs r)
  ultimately have r: "r0 = r1 @ r2 @ r3" "length r1 = 4" "length r2 = length ?lc" by blast+
  have "pack_into (CS 4) ?pos (int (length ?lc)) d0 = Inr (?p2 @ le_bytes 4 (int (length ?lc)) @ r2 @ r3)"
    unfolding r0 r(1) using pack_into_mid [of ?p2 ?pos r1 "CS 4" "int (length ?lc)" "r2 @ r3"] r(2) lb(2)
    by (simp add: short_def)
  moreover have "put_at (?pos + 4) ?lc (?p2 @ le_bytes 4 (int (length ?lc)) @ r2 @ r3) = ?p2 @ blk ?lc @ r3"
    using put_at_mid [of "?p2 @ le_bytes 4 (int (length ?lc))" "?pos + 4" r2 ?lc r3] r(3) by (simp add: blk_def)
  ultimately have "write_last_game_state E s = Inr (s\<lparr>data_b := ?p2 @ blk ?lc @ r3\<rparr>)"
    using pe lb(1) by (simp add: write_last_game_state_def Let_def d0 add.assoc del: append_assoc)
  moreover have "on_disk m mb ic tc bs (blk ?lc @ r3) (s\<lparr>data_b := ?p2 @ blk ?lc @ r3\<rparr>)"
    using D unfolding on_disk_def by (simp add: pre x blk_def)
  ultimately show ?thesis by auto
qed

lemma read_on_disk:
  assumes d: "on_disk m mb ic tc bs (blk lc @ rest) s" and mb: "segment_metadata_deserialize mb = Inr m"
    and sh: "short ic" "short tc" "short lc" "12 * nat (max_patches m) < 2 ^ 31"
    and dec: "decompress E ic = Inr ib" "decompress E tc = Inr tb" "decompress E lc = Inr lb"
  shows "read_all E (new_storage (data_b s)) = Inr ((new_storage (data_b s))\<lparr>metadata_b := Some mb,
    metadata := Some m, initial_game_state_b := Some ib, path_tree_b := Some tb,
    patch_index_b := Some (index_bytes (index_of (nat (max_patches m)) bs)),
    d_pool_b := Some (concat bs), last_game_state_b := Some lb\<rparr>)"
proof (rule read_image)
  note D = d [unfolded on_disk_def]
  show "data_b (new_storage (data_b s)) =
      image mb ic tc (index_bytes (index_of (nat (max_patches m)) bs)) (concat bs) lc rest"
    using D by (simp add: new_storage_def image_def)
  show "short mb" using D size_in_range by (simp add: short_def)
  show "short (index_bytes (index_of (nat (max_patches m)) bs))" "short (concat bs)"
    using D sh(4) by (simp_all add: short_def)
qed (use sh mb dec in simp_all)

lemma load_patches_stored:
  assumes "patch_index_b s = Some (index_bytes (index_of maxp bs))" "d_pool_b s = Some (concat bs)" "short (concat bs)"
    and st: "list_all2 (\<lambda>b p. b \<noteq> [] \<and> (\<exists>ps. node_deserialize (codec E) (ser E) b = Inr (p, ps))) bs ps"
    and g: "rfold add_edge_and_vertices ps new_patch_graph = Inr g"
  shows "load_patches E s = Inr (s\<lparr>graph := Some g\<rparr>)"
proof (cases "concat bs = []")
  case True
  with st have "ps = []" by (cases bs) (auto simp: list_all2_Cons1)
  with True g assms show ?thesis
    by (simp add: load_patches_def frombuffer_index_bytes index_of_fits short_fits)
next
  case False
  have "load_entries E (index_of maxp bs) (concat bs) new_patch_graph = Inr g"
    using load_entries_offsets [OF st, of "[]" _ "[]" new_patch_graph] g by (simp add: index_of_def)
  moreover have "frombuffer_index (index_bytes (index_of maxp bs)) = Inr (index_of maxp bs)"
    using assms(3) by (intro frombuffer_index_bytes index_of_fits short_fits)
  ultimately show ?thesis
    using False assms(1,2) by (simp add: load_patches_def del: concat_eq_Nil_conv)
qed


subsection \<open>Properties\<close>

definition lossless :: "senv \<Rightarrow> bool" where
  "lossless E \<longleftrightarrow> (\<forall>b. decompress E (compress E b) = Inr b)"

text \<open>C12: a segment that is written as a whole is read back section by section: the header with the
  position of the patch index filled in, the initial game state, the path tree, the patch index, the
  data pool and the last game state.  The compressor has to be lossless and the sections shorter
  than 2 GiB.\<close>

theorem written_segment_reads_back:
  assumes "initial_game_state_b s = Some ib" and "path_tree_b s = Some tb" and "patch_index_b s = Some xb"
    and "d_pool_b s = Some pb" and "last_game_state_b s = Some lb" and "metadata s = Some m"
    and "lossless E" and "short (compress E ib)" and "short (compress E tb)" and "short xb" and "short pb"
    and "short (compress E lb)"
    and m': "m' = m\<lparr>patch_index_start := int (index_position (compress E ib) (compress E tb))\<rparr>"
    and "int32_fields m'" and "map_id_storable (map_id m')"
  shows "\<exists>s' mb. write_all E s = Inr s' \<and> metadata s' = Some m' \<and>
     read_all E (new_storage (data_b s') :: 'r storage) = Inr ((new_storage (data_b s'))\<lparr>metadata_b := Some mb,
       metadata := Some m', initial_game_state_b := Some ib, path_tree_b := Some tb, patch_index_b := Some xb,
       d_pool_b := Some pb, last_game_state_b := Some lb\<rparr>)"
proof -
  from segment_serialize_ok [OF assms(14)] obtain mb where mb: "segment_metadata_serialize m' = Inr mb" by blast
  let ?im = "image mb (compress E ib) (compress E tb) xb pb (compress E lb) []"
  have w: "write_all E s = Inr (s\<lparr>data_b := ?im, metadata := Some m'\<rparr>)"
    by (rule write_all_image [OF assms(1-6,8-12) m' mb])
  have "short mb" using segment_serialize_length [OF mb] size_in_range by (simp add: short_def)
  then have "read_all E (new_storage ?im :: 'r storage) = Inr ((new_storage ?im)\<lparr>metadata_b := Some mb,
       metadata := Some m', initial_game_state_b := Some ib, path_tree_b := Some tb, patch_index_b := Some xb,
       d_pool_b := Some pb, last_game_state_b := Some lb\<rparr>)"
    using assms(7-12) segment_deserialize_serialized [OF mb assms(15)]
    by (intro read_image [of _ _ "compress E ib" "compress E tb" _ _ "compress E lb" "[]"])
      (simp_all add: new_storage_def lossless_def)
  with w show ?thesis by auto
qed

definition sample_parents :: "int list" where
  "sample_parents = [-1, 0, 1, 1]"

definition sample_elements :: "pathel option list" where
  "sample_elements = [Some (PStr ''root''), Some (PStr ''states''), Some (PInt 1), Some (PStr ''map'')]"

definition sample_senv :: senv where
  "sample_senv = \<lparr>codec = sample_codecs, ser = sample_serializer, compress = (\<lambda>b. 1 # b),
     decompress = (\<lambda>b. Inr (tl b)), pack_tree = (\<lambda>_. [8, 8]),
     unpack_tree = (\<lambda>_. Inr (4, sample_elements, concat (map (le_bytes 4) sample_parents), [0, 0, 1, 1]))\<rparr>"

definition sample_storage :: "nat storage" where
  "sample_storage = (initialize 2 (new_storage []))\<lparr>initial_game_state_b := Some [9], path_tree_b := Some [8, 8],
     d_pool_b := Some [], last_game_state_b := Some [9], tree := Some sample_tree\<rparr>"

lemma replicate_two: "replicate 2 x = [x, x]"
  by (simp add: numeral_2_eq_2)

theorem written_segment_reads_back_witness:
  "\<exists>s' mb. write_all sample_senv sample_storage = Inr s' \<and>
     metadata s' = Some \<lparr>start_time = 0, last_time = 0, max_patches = 2, current_patches = 0,
       patch_index_start = 82, is_fragmented = False, map_id = []\<rparr> \<and>
     read_all sample_senv (new_storage (data_b s') :: nat storage) = Inr ((new_storage (data_b s'))\<lparr>metadata_b := Some mb,
       metadata := Some \<lparr>start_time = 0, last_time = 0, max_patches = 2, current_patches = 0,
       patch_index_start = 82, is_fragmented = False, map_id = []\<rparr>,
       initial_game_state_b := Some [9], path_tree_b := Some [8, 8], patch_index_b := Some (index_bytes [(0, 0), (0, 0)]),
       d_pool_b := Some [], last_game_state_b := Some [9]\<rparr>)"
proof (rule written_segment_reads_back)
  show "metadata sample_storage = Some \<lparr>start_time = 0, last_time = 0, max_patches = 2, current_patches = 0,
       patch_index_start = 0, is_fragmented = False, map_id = []\<rparr>"
    by (simp add: sample_storage_def initialize_def)
qed (simp_all add: sample_storage_def initialize_def lossless_def sample_senv_def short_def index_position_def
    segment_metadata_size_def segment_format_def int32_fields_def map_id_storable_def utf8_encode_def replicate_two)

lemma link_node_root:
  assumes "link_node elements parents idx t = Inr t'" "\<exists>r. node_at t 0 = Some r \<and> children r = []"
  shows "\<exists>r. node_at t' 0 = Some r \<and> children r = []"
  using assms
  by (auto simp: link_node_def Let_def map_node_def rbind_eq_Inr_iff node_at_def split: if_splits)

lemma create_node_root:
  assumes "create_node elements flags idx t = Inr t'" "0 < idx"
  shows "node_at t' 0 = node_at t 0"
  using assms by (auto simp: create_node_def node_at_def split: if_splits option.splits)

lemma create_nodes_root:
  "rfold (create_node elements flags) idxs t = Inr t' \<Longrightarrow> 0 \<notin> set idxs \<Longrightarrow> node_at t' 0 = node_at t 0"
  by (induction idxs arbitrary: t) (auto simp: rbind_eq_Inr_iff dest!: create_node_root)

lemma link_nodes_root:
  "rfold (link_node elements parents) idxs t = Inr t' \<Longrightarrow> \<exists>r. node_at t 0 = Some r \<and> children r = [] \<Longrightarrow>
   \<exists>r. node_at t' 0 = Some r \<and> children r = []"
  by (induction idxs arbitrary: t) (auto simp: rbind_eq_Inr_iff dest!: link_node_root)

lemma unpack_root_childless:
  assumes "unpack_path_tree E b = Inr t"
  shows "\<exists>r. node_at t 0 = Some r \<and> children r = []"
proof -
  from assms obtain n elements parents flags t1 where
    t1: "rfold (create_node elements flags) [1..<n] (new_path_tree\<lparr>idx_counter := n\<rparr>) = Inr t1"
      "rfold (link_node elements parents) [0..<n] t1 = Inr t"
    by (auto simp: unpack_path_tree_def rbind_eq_Inr_iff Let_def split: if_splits)
  from create_nodes_root [OF t1(1)] have "\<exists>r. node_at t1 0 = Some r \<and> children r = []"
    by (simp add: new_path_tree_def node_at_def new_node_def)
  then show ?thesis by (rule link_nodes_root [OF t1(2)])
qed

text \<open>C31: the tree that \<open>load_path_tree\<close> rebuilds for a segment that is not fragmented has no path
  at all below its root, whatever tree was stored: the nodes whose parent is the root are not linked.\<close>

theorem collapsed_tree_unreachable:
  assumes "load_path_tree E s = Inr s'" and "metadata s = Some m" and "\<not> is_fragmented m"
  shows "\<exists>t. tree s' = Some t \<and> (\<forall>p. path_exists p t \<longleftrightarrow> p = [])"
proof -
  from assms obtain b t where t: "unpack_path_tree E b = Inr t" "s' = s\<lparr>tree := Some t\<rparr>"
    by (auto simp: load_path_tree_def rbind_eq_Inr_iff)
  from unpack_root_childless [OF t(1)] obtain r where r: "node_at t 0 = Some r" "children r = []" by blast
  have "path_exists p t \<longleftrightarrow> p = []" for p
    using r by (cases p) (simp_all add: path_exists_def node_at_def get_child_def walk.simps)
  with t(2) show ?thesis by simp
qed

lemma sample_parent_bytes:
  "decode_ints (CS 4) 4 (concat (map (le_bytes 4) sample_parents)) = sample_parents"
  using decode_ints_le_bytes [of "CS 4" sample_parents "[]"] by (simp add: sample_parents_def numeral_eq_Suc)

lemma sample_tree_unpacks: "\<exists>t. unpack_path_tree sample_senv b = Inr (t :: nat path_tree)"
proof -
  have c: "\<exists>t t'. rfold (create_node sample_elements [0, 0, 1, 1]) [1, 2, 3] (new_path_tree\<lparr>idx_counter := 4\<rparr>) = Inr t \<and>
      rfold (link_node sample_elements sample_parents) [0, 1, 2, 3] t = Inr (t' :: nat path_tree)"
    by (simp add: path_tree_eval create_node_def link_node_def map_node_def sample_elements_def sample_parents_def)
  have "[1..<4] = [1, 2, 3 :: nat]" "[0..<4] = [0, 1, 2, 3 :: nat]" by (simp_all add: upt_rec)
  moreover have "length (concat (map (le_bytes 4) sample_parents)) = 16" by (simp add: sample_parents_def)
  ultimately show ?thesis
    using c by (auto simp: unpack_path_tree_def sample_senv_def sample_parent_bytes Let_def simp del: upt.simps)
qed

lemma sample_tree_loads:
  "\<exists>s'. rbind (unload_path_tree sample_senv sample_storage) (load_path_tree sample_senv) = Inr s'"
proof -
  have "\<exists>b. unload_path_tree sample_senv sample_storage = Inr (sample_storage\<lparr>path_tree_b := Some b\<rparr>)"
    by (simp add: unload_path_tree_def sample_storage_def initialize_def path_tree_eval unload_node_def) blast
  with sample_tree_unpacks show ?thesis
    by (auto simp: load_path_tree_def sample_storage_def initialize_def rbind_def split: sum.splits)
      (metis Inl_Inr_False)
qed

theorem collapsed_tree_unreachable_witness:
  "\<exists>s s' t. unload_path_tree sample_senv sample_storage = Inr s \<and> load_path_tree sample_senv s = Inr s' \<and>
     tree s' = Some t \<and> path_exists [PStr ''states''] sample_tree \<and> \<not> path_exists [PStr ''states''] t"
proof -
  from sample_tree_loads obtain s s' where s: "unload_path_tree sample_senv sample_storage = Inr s"
    "load_path_tree sample_senv s = Inr s'" by (auto simp: rbind_eq_Inr_iff)
  then have "metadata s = metadata sample_storage"
    by (auto simp: unload_path_tree_def rbind_eq_Inr_iff Let_def)
  then have "metadata s = Some \<lparr>start_time = 0, last_time = 0, max_patches = 2, current_patches = 0,
      patch_index_start = 0, is_fragmented = False, map_id = []\<rparr>"
    by (simp add: sample_storage_def initialize_def)
  from collapsed_tree_unreachable [OF s(2) this] s show ?thesis by (auto simp: path_tree_eval)
qed

end
