(* ===== verification/Times.thy ===== *)
theory Times
  imports Prelude "HOL-Library.Log_Nat"
begin

text \<open>
  Times and their conversions (\<open>utils/helper.py\<close>).

  A \<open>datetime\<close> in UTC is the number of microseconds since the epoch, which is the resolution of
  Python's type.  The conversions of the program go through \<open>float\<close>: \<open>double\<close> rounds a rational
  to 53 significant bits, ties to even, as every IEEE double operation on numbers of normal
  magnitude does, and the conversions are written with one \<open>double\<close> per float operation.  The
  theorem of this theory is that the nanosecond keys of a timeline file lose nothing: every
  microsecond time between 1970 and 2038 comes back.
\<close>

subsection \<open>Double precision\<close>

definition round_half_even :: "rat \<Rightarrow> int" where
  "round_half_even q =
     (let f = \<lfloor>q\<rfloor>; r = q - of_int f in
      if r < 1 / 2 \<or> r = 1 / 2 \<and> even f then f else f + 1)"

text \<open>The exponent of the leading bit of a positive number.\<close>

definition exponent :: "rat \<Rightarrow> int" where
  "exponent q =
     (let (n, d) = quotient_of q; e = int (floorlog 2 (nat n)) - int (floorlog 2 (nat d))
      in if 2 powi e \<le> q then e else e - 1)"

definition double :: "rat \<Rightarrow> rat" where
  "double q =
     (if q = 0 then 0
      else let u = 2 powi (exponent \<bar>q\<bar> - 52) in of_int (round_half_even (q / u)) * u)"

definition trunc :: "rat \<Rightarrow> int" where
  "trunc q = (if 0 \<le> q then \<lfloor>q\<rfloor> else \<lceil>q\<rceil>)"

subsection \<open>Conversions\<close>

type_synonym datetime = int

text \<open>\<open>dt.timestamp()\<close> and \<open>datetime.fromtimestamp(t, tz=UTC)\<close>: the seconds as a float, and the
  whole and fractional seconds of a float, the latter rounded to microseconds.\<close>

definition timestamp :: "datetime \<Rightarrow> rat" where
  "timestamp t = double (of_int t / 10 ^ 6)"

definition fromtimestamp :: "rat \<Rightarrow> datetime" where
  "fromtimestamp q = trunc q * 10 ^ 6 + round_half_even (double ((q - of_int (trunc q)) * 10 ^ 6))"

definition dt_seconds :: "datetime \<Rightarrow> int" where
  "dt_seconds t = trunc (timestamp t)"

definition dt_to_ns :: "datetime option \<Rightarrow> int" where
  "dt_to_ns dt = (case dt of None \<Rightarrow> -1 | Some t \<Rightarrow> trunc (double (timestamp t * 10 ^ 9)))"

definition ns_to_dt :: "int \<Rightarrow> datetime option" where
  "ns_to_dt ns = (if ns = -1 then None else Some (fromtimestamp (double (of_int ns / 10 ^ 9))))"

definition unix_ms_to_datetime :: "int option \<Rightarrow> datetime option" where
  "unix_ms_to_datetime ms = map_option (\<lambda>n. fromtimestamp (double (double (of_int n) / 1000))) ms"

definition datetime_to_unix_ms :: "datetime \<Rightarrow> int" where
  "datetime_to_unix_ms t = trunc (double (timestamp t * 1000))"

text \<open>\<open>unix_to_datetime\<close> looks at the length of the decimal form of a non-negative number.\<close>

definition unix_to_datetime :: "nat option \<Rightarrow> datetime option" where
  "unix_to_datetime ts =
     (case ts of
        None \<Rightarrow> None
      | Some n \<Rightarrow>
          if 10 ^ 9 \<le> n \<and> n < 10 ^ 10 then Some (fromtimestamp (of_nat n))
          else if 10 ^ 12 \<le> n \<and> n < 10 ^ 13 then Some (fromtimestamp (double (of_nat n / 1000)))
          else None)"

subsection \<open>Rounding errors\<close>

lemma round_error: "\<bar>of_int (round_half_even q) - q\<bar> \<le> 1 / 2"
proof -
  have "of_int \<lfloor>q\<rfloor> \<le> q" "q < of_int \<lfloor>q\<rfloor> + 1" by linarith+
  then show ?thesis by (simp add: round_half_even_def Let_def abs_if) linarith
qed

lemma round_near: "\<bar>q - of_int n\<bar> < 1 / 2 \<Longrightarrow> round_half_even q = n"
proof -
  assume "\<bar>q - of_int n\<bar> < 1 / 2"
  with round_error [of q] have "\<bar>of_int (round_half_even q) - (of_int n :: rat)\<bar> < 1" by linarith
  then have "\<bar>round_half_even q - n\<bar> < 1" by (metis of_int_abs of_int_diff of_int_less_1_iff)
  then show ?thesis by simp
qed

lemma exponent_le:
  assumes "0 < q"
  shows "2 powi (exponent q) \<le> q"
proof -
  obtain n d where nd: "quotient_of q = (n, d)" by (cases "quotient_of q")
  have q: "q = of_int n / of_int d" and d: "0 < d"
    using quotient_of_div [OF nd] quotient_of_denom_pos [OF nd] by auto
  with assms have n: "0 < n" by (simp add: zero_less_divide_iff)
  let ?a = "floorlog 2 (nat n)" and ?b = "floorlog 2 (nat d)"
  have a: "0 < ?a" "2 ^ (?a - 1) \<le> nat n" and b: "nat d < 2 ^ ?b"
    using floorlog_bounds [of "nat n" 2] floorlog_bounds [of "nat d" 2] n d floorlog_eq_zero_iff [of 2 "nat n"]
    by auto
  have "(2 :: rat) ^ (?a - 1) \<le> of_int n" using a(2) n
    by (metis nat_le_iff of_int_le_iff of_int_numeral of_int_power of_nat_numeral of_nat_power zle_int nat_0_le less_imp_le)
  moreover have "of_int d \<le> (2 :: rat) ^ ?b" using b d
    by (metis less_imp_le nat_0_le of_int_le_iff of_int_numeral of_int_power of_nat_numeral of_nat_power zle_int)
  ultimately have "2 ^ (?a - 1) / 2 ^ ?b \<le> q"
    unfolding q using n d by (intro frac_le) simp_all
  moreover have "(2 :: rat) powi (int ?a - int ?b - 1) = 2 ^ (?a - 1) / 2 ^ ?b"
  proof -
    have "int ?a - int ?b - 1 = int (?a - 1) - int ?b" using a(1) by simp
    moreover have "(2 :: rat) powi (int (?a - 1) - int ?b) = 2 powi int (?a - 1) / 2 powi int ?b"
      by (rule power_int_diff) simp
    ultimately show ?thesis by (simp only: power_int_of_nat)
  qed
  ultimately have "2 powi (int ?a - int ?b - 1) \<le> q" by simp
  then show ?thesis unfolding exponent_def nd Let_def prod.case by (simp split: if_split)
qed

lemma double_error:
  assumes "\<bar>q\<bar> < 2 powi k"
  shows "\<bar>double q - q\<bar> \<le> 2 powi (k - 54)"
proof (cases "q = 0")
  case False
  define u :: rat where u: "u = 2 powi (exponent \<bar>q\<bar> - 52)"
  have u0: "0 < u" by (simp add: u)
  have "(2 :: rat) powi (exponent \<bar>q\<bar>) < 2 powi k" using exponent_le [of "\<bar>q\<bar>"] False assms by simp
  then have "exponent \<bar>q\<bar> < k" using power_int_increasing [of k "exponent \<bar>q\<bar>" "2 :: rat"] by (simp add: not_le [symmetric])
      (metis linorder_not_less)
  then have "u \<le> 2 powi (k - 53)" unfolding u by (intro power_int_increasing) auto
  moreover have "(2 :: rat) powi (k - 53) = 2 * 2 powi (k - 54)"
    using power_int_add [of "2 :: rat" "k - 54" 1] by (simp add: algebra_simps)
  ultimately have "u / 2 \<le> 2 powi (k - 54)" by simp
  moreover have "\<bar>double q - q\<bar> = \<bar>of_int (round_half_even (q / u)) - q / u\<bar> * u"
  proof -
    have "double q - q = (of_int (round_half_even (q / u)) - q / u) * u"
      using False u0 by (simp add: double_def u [symmetric] Let_def left_diff_distrib)
    then show ?thesis using u0 by (simp add: abs_mult)
  qed
  moreover have "\<dots> \<le> 1 / 2 * u" using round_error u0 by (intro mult_right_mono) auto
  ultimately show ?thesis by simp
qed (simp add: double_def)

lemma double_nonneg: "0 \<le> q \<Longrightarrow> 0 \<le> double q"
  by (auto simp: double_def Let_def round_half_even_def)

lemma round_int: "round_half_even (of_int n) = n"
  by (rule round_near) simp

lemma double_int:
  assumes "\<bar>n\<bar> < 2 ^ 53"
  shows "double (of_int n) = of_int n"
proof (cases "n = 0")
  case False
  define e where e: "e = exponent \<bar>of_int n :: rat\<bar>"
  have "(2 :: rat) powi e \<le> \<bar>of_int n\<bar>" unfolding e using False by (intro exponent_le) simp
  also have "\<bar>of_int n :: rat\<bar> < of_int (2 ^ 53)" using assms by (metis of_int_abs of_int_less_iff)
  finally have "(2 :: rat) powi e < 2 powi 53" by (simp add: power_int_def)
  then have "e < 53" using power_int_increasing [of 53 e "2 :: rat"] by (metis linorder_not_less one_le_numeral)
  then have u: "(2 :: rat) powi (e - 52) = 1 / 2 ^ nat (52 - e)"
    by (cases "e = 52") (simp_all add: power_int_def nat_diff_distrib field_simps)
  have "(of_int n :: rat) / 2 powi (e - 52) = of_int (n * 2 ^ nat (52 - e))" by (simp add: u)
  then show ?thesis using False by (simp add: double_def e [symmetric] round_int del: of_int_mult)
      (simp add: u)
qed (simp add: double_def)

lemma timestamp_near: "0 \<le> t \<Longrightarrow> t < 2 ^ 31 * 10 ^ 6 \<Longrightarrow> \<bar>timestamp t - of_int t / 10 ^ 6\<bar> \<le> 1 / 2 ^ 23"
  using double_error [of "of_int t / 10 ^ 6" 31] by (simp add: timestamp_def power_int_def field_simps)

lemma dt_seconds_div:
  assumes "0 \<le> t" "t < 2 ^ 31 * 10 ^ 6"
  shows "dt_seconds t = t div 10 ^ 6"
proof -
  define s r where sr: "s = t div 10 ^ 6" "r = t mod 10 ^ 6"
  have t: "t = s * 10 ^ 6 + r" "0 \<le> r" "r < 10 ^ 6" "0 \<le> s" "s < 2 ^ 31" using assms by (simp_all add: sr)
  have e: "\<bar>timestamp t - (of_int s + of_int r / 10 ^ 6)\<bar> \<le> 1 / 2 ^ 23"
    using timestamp_near [OF assms] by (simp add: t(1) add_divide_distrib)
  have "\<lfloor>timestamp t\<rfloor> = s"
  proof (cases "r = 0")
    case True
    with t have "timestamp t = double (of_int s)" by (simp add: timestamp_def)
    with t(4,5) show ?thesis by (simp add: double_int)
  next
    case False
    with t have "(of_int 1 :: rat) \<le> of_int r" "of_int r \<le> (of_int 999999 :: rat)"
      unfolding of_int_le_iff by simp_all
    then have "(1 :: rat) / 10 ^ 6 \<le> of_int r / 10 ^ 6" "of_int r / 10 ^ 6 \<le> (1 - 1 / 10 ^ 6 :: rat)"
      by simp_all
    moreover have "(1 :: rat) / 2 ^ 23 < 1 / 10 ^ 6" by simp
    ultimately have "of_int s \<le> timestamp t" "timestamp t < of_int s + 1"
      using e unfolding abs_le_iff by linarith+
    then show ?thesis by (rule floor_unique)
  qed
  with t(4) show ?thesis
    using double_nonneg [of "of_int t / 10 ^ 6"] assms(1) by (simp add: dt_seconds_def trunc_def sr timestamp_def)
qed

lemma dt_to_ns_range:
  assumes "0 \<le> t" "t < 2 ^ 31 * 10 ^ 6"
  shows "0 \<le> dt_to_ns (Some t)" "dt_to_ns (Some t) < 2 ^ 62"
proof -
  have t: "0 \<le> of_int t / (10 ^ 6 :: rat)" "of_int t / (10 ^ 6 :: rat) < 2 ^ 31" using assms by simp_all
  have ts: "\<bar>timestamp t * 10 ^ 9\<bar> < 2 ^ 61"
    using timestamp_near [OF assms] t by (simp add: abs_if split: if_splits)
  have p: "0 \<le> double (timestamp t * 10 ^ 9)" unfolding timestamp_def using t by (intro double_nonneg mult_nonneg_nonneg) simp_all
  have "double (timestamp t * 10 ^ 9) < 2 ^ 62"
    using double_error [of "timestamp t * 10 ^ 9" 61] ts by (simp add: power_int_def abs_if split: if_splits)
  with p show "0 \<le> dt_to_ns (Some t)" "dt_to_ns (Some t) < 2 ^ 62"
    by (simp_all add: dt_to_ns_def trunc_def floor_less_iff)
qed

lemma ns_roundtrip:
  assumes "\<And>t. dt = Some t \<Longrightarrow> 0 \<le> t \<and> t < 2 ^ 31 * 10 ^ 6"
  shows "ns_to_dt (dt_to_ns dt) = dt"
proof (cases dt)
  case (Some t)
  with assms have t: "0 \<le> t" "t < 2 ^ 31 * 10 ^ 6" by auto
  define x :: rat where x: "x = of_int t / 10 ^ 6"
  have x0: "0 \<le> x" "x < 2 ^ 31" using t by (simp_all add: x)
  have e1: "\<bar>timestamp t - x\<bar> \<le> 1 / 2 ^ 23" using timestamp_near [OF t] by (simp add: x)
  have ts: "\<bar>timestamp t * 10 ^ 9\<bar> < 2 ^ 61" using e1 x0 by (simp add: abs_if split: if_splits)
  have e2: "\<bar>double (timestamp t * 10 ^ 9) - timestamp t * 10 ^ 9\<bar> \<le> 2 ^ 7"
    using double_error [of "timestamp t * 10 ^ 9" 61] ts by (simp add: power_int_def)
  define n where n: "n = dt_to_ns dt"
  have e3: "\<bar>of_int n - double (timestamp t * 10 ^ 9)\<bar> \<le> 1"
    unfolding n dt_to_ns_def trunc_def Some option.case by (simp add: abs_if) linarith
  have e4: "\<bar>of_int n / 10 ^ 9 - x\<bar> \<le> 1 / 2 ^ 23 + 129 / 10 ^ 9"
    using e1 e2 e3 by (simp add: abs_if split: if_splits)
  have "0 \<le> timestamp t" unfolding timestamp_def using x0 x by (intro double_nonneg) simp
  then have "0 \<le> double (timestamp t * 10 ^ 9)" by (intro double_nonneg) simp
  then have n0: "0 \<le> n" by (simp add: n dt_to_ns_def trunc_def Some)
  define z where z: "z = double (of_int n / 10 ^ 9)"
  have z0: "0 \<le> z" unfolding z using n0 by (intro double_nonneg) simp
  have "\<bar>of_int n / (10 :: rat) ^ 9\<bar> < 2 ^ 32" using e4 x0 by (simp add: abs_if split: if_splits)
  then have e5: "\<bar>z - of_int n / 10 ^ 9\<bar> \<le> 1 / 2 ^ 22"
    using double_error [of "of_int n / 10 ^ 9" 32] by (simp add: z power_int_def field_simps)
  define f where f: "f = (z - of_int \<lfloor>z\<rfloor>) * 10 ^ 6"
  have "of_int \<lfloor>z\<rfloor> \<le> z" "z < of_int \<lfloor>z\<rfloor> + 1" by linarith+
  then have "0 \<le> f" "f < 10 ^ 6" by (simp_all add: f)
  then have e6: "\<bar>double f - f\<bar> \<le> 1 / 2 ^ 34"
    using double_error [of f 20] by (simp add: power_int_def field_simps)
  have "\<bar>double f - of_int (t - \<lfloor>z\<rfloor> * 10 ^ 6)\<bar> \<le> \<bar>double f - f\<bar> + \<bar>z - x\<bar> * 10 ^ 6"
    by (simp add: f x abs_if)
  also have "\<bar>z - x\<bar> \<le> 1 / 2 ^ 22 + (1 / 2 ^ 23 + 129 / 10 ^ 9)" using e4 e5 by linarith
  finally have "\<bar>double f - of_int (t - \<lfloor>z\<rfloor> * 10 ^ 6)\<bar> < 1 / 2" using e6 by simp
  then have "round_half_even (double f) = t - \<lfloor>z\<rfloor> * 10 ^ 6" by (rule round_near)
  then have "fromtimestamp z = t" using z0 by (simp add: fromtimestamp_def trunc_def f)
  then show ?thesis unfolding n [symmetric] ns_to_dt_def using n0 Some by (simp add: z)
qed (simp add: ns_to_dt_def dt_to_ns_def)

subsection \<open>Properties\<close>

text \<open>a time written as a nanosecond key is read back unchanged: for every microsecond from the
  epoch up to 2038 the three float roundings of \<open>dt_to_ns\<close> and \<open>ns_to_dt\<close> together stay below half
  a microsecond; an absent time stays absent.\<close>

lemma ns_key_roundtrip:
  assumes "\<And>t. dt = Some t \<Longrightarrow> 0 \<le> t \<and> t < 2 ^ 31 * 10 ^ 6"
  shows "ns_to_dt (dt_to_ns dt) = dt"
  using assms by (rule ns_roundtrip)

lemma ns_key_roundtrip_witness: "ns_to_dt (dt_to_ns (Some 1700000000123457)) = Some 1700000000123457"
  by (rule ns_key_roundtrip) simp

end
