(* ===== verification/Utils.thy ===== *)
theory Utils
  imports Prelude
begin

text \<open>
  The two-way dictionary (\<open>utils/bidict.py\<close>) and the rectangles of the map
  (\<open>utils/rect.py\<close>).

  A \<open>Bidict\<close> keeps two dicts; the theorem says that every sequence of its operations leaves them
  inverse to each other.  The coordinates of a rectangle are exact rationals: the rounding of
  float sums is not modelled.  Two of its methods name a class that the module imports for type
  checking only, and raise \<open>NameError\<close>; they have no definition here.
\<close>

subsection \<open>The two dicts\<close>

record ('k, 'v) bidict =
  forward :: "('k, 'v) dict"
  reverse :: "('v, 'k) dict"

definition new_bidict :: "('k, 'v) bidict" where
  "new_bidict = \<lparr>forward = [], reverse = []\<rparr>"

definition bidict_setitem :: "'k \<Rightarrow> 'v \<Rightarrow> ('k, 'v) bidict \<Rightarrow> ('k, 'v) bidict result" where
  "bidict_setitem k v b =
     (if k \<in> set (dict_keys (forward b)) \<or> v \<in> set (dict_keys (reverse b)) then Inl ValueError
      else Inr \<lparr>forward = dict_set (forward b) k v, reverse = dict_set (reverse b) v k\<rparr>)"

definition remove_by_key :: "'k \<Rightarrow> ('k, 'v) bidict \<Rightarrow> ('k, 'v) bidict result" where
  "remove_by_key k b =
     rbind (dict_pop (forward b) k) (\<lambda>(v, f).
     rbind (dict_pop (reverse b) v) (\<lambda>(_, r). Inr \<lparr>forward = f, reverse = r\<rparr>))"

definition remove_by_value :: "'v \<Rightarrow> ('k, 'v) bidict \<Rightarrow> ('k, 'v) bidict result" where
  "remove_by_value v b =
     rbind (dict_pop (reverse b) v) (\<lambda>(k, r).
     rbind (dict_pop (forward b) k) (\<lambda>(_, f). Inr \<lparr>forward = f, reverse = r\<rparr>))"

definition get_key :: "'v \<Rightarrow> bool \<Rightarrow> ('k, 'v) bidict \<Rightarrow> 'k option result" where
  "get_key v raise_exception b =
     (case dict_get (reverse b) v of
        Some k \<Rightarrow> Inr (Some k)
      | None \<Rightarrow> if raise_exception then Inl KeyError else Inr None)"

definition bidict_getitem :: "'k \<Rightarrow> ('k, 'v) bidict \<Rightarrow> 'v result" where
  "bidict_getitem k b = dict_lookup (forward b) k"

definition inverse_dicts :: "('k, 'v) bidict \<Rightarrow> bool" where
  "inverse_dicts b \<longleftrightarrow> (\<forall>k v. dict_get (forward b) k = Some v \<longleftrightarrow> dict_get (reverse b) v = Some k)"

text \<open>The states a client can bring about; an operation that raises leaves the object as it was.\<close>

inductive bidict_reachable :: "('k, 'v) bidict \<Rightarrow> bool" where
  new: "bidict_reachable new_bidict"
| set_item: "bidict_reachable b \<Longrightarrow> bidict_setitem k v b = Inr b' \<Longrightarrow> bidict_reachable b'"
| by_key: "bidict_reachable b \<Longrightarrow> remove_by_key k b = Inr b' \<Longrightarrow> bidict_reachable b'"
| by_value: "bidict_reachable b \<Longrightarrow> remove_by_value v b = Inr b' \<Longrightarrow> bidict_reachable b'"

lemma dict_pop_Inr:
  "dict_pop d k = Inr (v, d') \<longleftrightarrow> dict_get d k = Some v \<and> d' = dict_del d k"
  by (auto simp: dict_pop_def split: option.splits)

lemma setitem_inverse: "inverse_dicts b \<Longrightarrow> bidict_setitem k v b = Inr b' \<Longrightarrow> inverse_dicts b'"
  by (auto simp: inverse_dicts_def bidict_setitem_def dict_get_not_None_iff [symmetric] split: if_splits)

lemma by_key_inverse: "inverse_dicts b \<Longrightarrow> remove_by_key k b = Inr b' \<Longrightarrow> inverse_dicts b'"
  by (auto simp: inverse_dicts_def remove_by_key_def rbind_eq_Inr_iff dict_pop_Inr split: if_splits)
    (metis option.inject)

lemma by_value_inverse: "inverse_dicts b \<Longrightarrow> remove_by_value v b = Inr b' \<Longrightarrow> inverse_dicts b'"
  by (auto simp: inverse_dicts_def remove_by_value_def rbind_eq_Inr_iff dict_pop_Inr split: if_splits)
    (metis option.inject)

lemma reachable_inverse: "bidict_reachable b \<Longrightarrow> inverse_dicts b"
proof (induction rule: bidict_reachable.induct)
  case new
  show ?case by (simp add: inverse_dicts_def new_bidict_def)
qed (auto intro: setitem_inverse by_key_inverse by_value_inverse)

text \<open>C34: in every state of a \<open>Bidict\<close> that its operations can reach, looking a key up gives a value
  exactly when looking that value up gives the key, and the removals raise exactly for what is
  absent.\<close>

theorem bidict_inverse:
  assumes "bidict_reachable b"
  shows "(bidict_getitem k b = Inr v \<longleftrightarrow> get_key v True b = Inr (Some k)) \<and>
     (remove_by_key k b = Inl KeyError \<longleftrightarrow> bidict_getitem k b = Inl KeyError) \<and>
     (remove_by_value v b = Inl KeyError \<longleftrightarrow> get_key v False b = Inr None)"
proof -
  have inv: "dict_get (forward b) k = Some v \<longleftrightarrow> dict_get (reverse b) v = Some k" for k v
    using reachable_inverse [OF assms] by (simp add: inverse_dicts_def)
  have "remove_by_key k b = Inl KeyError \<longleftrightarrow> dict_get (forward b) k = None"
  proof (cases "dict_get (forward b) k")
    case (Some w)
    moreover from Some have "dict_get (reverse b) w = Some k" by (simp only: inv)
    ultimately show ?thesis by (simp add: remove_by_key_def dict_pop_def)
  qed (simp add: remove_by_key_def dict_pop_def)
  moreover have "remove_by_value v b = Inl KeyError \<longleftrightarrow> dict_get (reverse b) v = None"
  proof (cases "dict_get (reverse b) v")
    case (Some w)
    moreover from Some have "dict_get (forward b) w = Some v" by (simp only: inv)
    ultimately show ?thesis by (simp add: remove_by_value_def dict_pop_def)
  qed (simp add: remove_by_value_def dict_pop_def)
  moreover have "bidict_getitem k b = Inr v \<longleftrightarrow> dict_get (forward b) k = Some v"
    "bidict_getitem k b = Inl KeyError \<longleftrightarrow> dict_get (forward b) k = None"
    "get_key v True b = Inr (Some k) \<longleftrightarrow> dict_get (reverse b) v = Some k"
    "get_key v False b = Inr None \<longleftrightarrow> dict_get (reverse b) v = None"
    by (simp_all add: bidict_getitem_def get_key_def dict_lookup_def split: option.split)
  ultimately show ?thesis using inv by metis
qed

theorem bidict_inverse_witness:
  "\<exists>b. bidict_setitem (1 :: nat) (2 :: nat) new_bidict = Inr b \<and> bidict_getitem 1 b = Inr 2 \<and> get_key 2 True b = Inr (Some 1)"
proof -
  obtain b where b: "bidict_setitem (1 :: nat) (2 :: nat) new_bidict = Inr b"
    by (simp add: bidict_setitem_def new_bidict_def)
  have "bidict_getitem 1 b = Inr 2" using b by (auto simp: bidict_setitem_def new_bidict_def bidict_getitem_def split: if_splits)
  with bidict_inverse [OF set_item [OF new b], of 1 2] b show ?thesis by simp
qed

subsection \<open>Rectangles\<close>

record rect =
  rx :: rat
  ry :: rat
  width :: rat
  height :: rat

type_synonym point = "rat \<times> rat"

definition Rect :: "rat \<Rightarrow> rat \<Rightarrow> rat \<Rightarrow> rat \<Rightarrow> rect" where
  "Rect a b w h = \<lparr>rx = a, ry = b, width = w, height = h\<rparr>"

definition rect_contains :: "point \<Rightarrow> rect \<Rightarrow> bool" where
  "rect_contains p r \<longleftrightarrow>
     \<not> (fst p > rx r + width r \<or> fst p < rx r \<or> snd p > ry r + height r \<or> snd p < ry r)"

definition intersection :: "rect \<Rightarrow> rect \<Rightarrow> rect option" where
  "intersection r other =
     (let a = max (rx r) (rx other);
          c = min (rx r + width r) (rx other + width other) in
      if a \<le> c then
        let e = max (ry r) (ry other);
            b = min (ry r + height r) (ry other + height other) in
        if e \<le> b then Some (Rect a e (c - a) (b - e)) else None
      else None)"

definition intersects :: "rect \<Rightarrow> rect \<Rightarrow> bool" where
  "intersects r other \<longleftrightarrow>
     \<not> (rx other > rx r + width r \<or> rx other + width other < rx r \<or>
        ry other > ry r + height r \<or> ry other + height other < ry r)"

definition difference :: "rect \<Rightarrow> rect \<Rightarrow> rect list" where
  "difference r b =
     (if width b \<le> 0 \<or> height b \<le> 0 \<or> \<not> intersects r b then [r]
      else
        let d = rx r + width r; g = ry r + height r; h = rx b + width b; f = ry b + height b;
            (a, c, e) = (if ry b > ry r
              then ([Rect (rx r) (ry r) (width r) (ry b - ry r)], ry b, height r - (ry b - ry r))
              else ([], ry r, height r));
            (a, e) = (if f < g then (a @ [Rect (rx r) f (width r) (g - f)], f - c) else (a, e));
            a = (if rx b > rx r then a @ [Rect (rx r) c (rx b - rx r) e] else a)
        in if h < d then a @ [Rect h c (d - h) e] else a)"

definition union :: "rect option \<Rightarrow> rect \<Rightarrow> rect" where
  "union other r =
     (case other of
        None \<Rightarrow> r
      | Some o' \<Rightarrow>
          if width r = 0 \<or> height r = 0 then o'
          else if width o' > 0 \<and> height o' > 0 then
            let a = max (rx r + width r) (rx o' + width o'); c = max (ry r + height r) (ry o' + height o');
                x = min (rx r) (rx o'); y = min (ry r) (ry o')
            in Rect x y (a - x) (c - y)
          else r)"

definition rect_reset :: "rect \<Rightarrow> rect" where
  "rect_reset r = Rect 0 0 0 0"

definition add_coord :: "rat \<Rightarrow> rat \<Rightarrow> rat \<Rightarrow> rat \<times> rat" where
  "add_coord x w b =
     (if x = 0 \<and> w = 0 then (b, w)
      else if b < x then (b, w + (x - b))
      else if b > x + w then (x, b - x)
      else (x, w))"

definition add_point :: "rat \<Rightarrow> rat \<Rightarrow> rect \<Rightarrow> rect" where
  "add_point b a r =
     (let (x, w) = add_coord (rx r) (width r) b; (y, h) = add_coord (ry r) (height r) a in Rect x y w h)"

definition pad :: "rat \<Rightarrow> rat \<Rightarrow> rect \<Rightarrow> rect" where
  "pad b a r = Rect (rx r - b) (ry r - a) (width r + (b + b)) (height r + (a + a))"

definition rect_equals :: "rect option \<Rightarrow> rect \<Rightarrow> bool" where
  "rect_equals other r \<longleftrightarrow> (case other of None \<Rightarrow> False | Some o' \<Rightarrow>
     rx r = rx o' \<and> ry r = ry o' \<and> width r = width o' \<and> height r = height o')"

text \<open>Without a second factor the first one is overwritten with \<open>None\<close>, and the product raises.\<close>

definition rect_scale :: "rat \<Rightarrow> rat option \<Rightarrow> rect \<Rightarrow> rect result" where
  "rect_scale x_scale y_scale r =
     (case y_scale of
        None \<Rightarrow> Inl TypeError
      | Some s \<Rightarrow> Inr (Rect (rx r * x_scale) (ry r * s) (width r * x_scale) (height r * s)))"

definition rect_translate :: "rat \<Rightarrow> rat \<Rightarrow> rect \<Rightarrow> rect" where
  "rect_translate dx dy r = r\<lparr>rx := rx r + dx, ry := ry r + dy\<rparr>"

definition rect_is_empty :: "rect \<Rightarrow> bool" where
  "rect_is_empty r \<longleftrightarrow> width r \<le> 0 \<or> height r \<le> 0"

text \<open>The points of a rectangle without its right and upper edge: neighbours share no point.\<close>

definition inside :: "point \<Rightarrow> rect \<Rightarrow> bool" where
  "inside p r \<longleftrightarrow> rx r \<le> fst p \<and> fst p < rx r + width r \<and> ry r \<le> snd p \<and> snd p < ry r + height r"

lemmas rect_defs = Rect_def inside_def intersects_def Let_def

text \<open>C35: the pieces of \<open>difference\<close> are a partition of the rectangle less the other one: every point
  that is in the first and not in the second is in exactly one piece, and no other point is in any.\<close>

theorem rect_difference_partition:
  "length (filter (inside p) (difference a b)) = (if inside p a \<and> \<not> inside p b then 1 else 0)"
proof (cases "width b \<le> 0 \<or> height b \<le> 0 \<or> \<not> intersects a b")
  case True
  then show ?thesis by (auto simp: difference_def rect_defs)
next
  case False
  show ?thesis
    by (cases "ry b > ry a"; cases "ry b + height b < ry a + height a"; cases "rx b > rx a";
        cases "rx b + width b < rx a + width a")
      (use False in \<open>auto simp: difference_def rect_defs\<close>)
qed

text \<open>\<open>intersection\<close> is the set of common points, and is \<open>None\<close> exactly when there is none for
  rectangles that are not inverted; \<open>intersects\<close> agrees with it.\<close>

lemma rect_intersection_common:
  "(case intersection a b of
      Some r \<Rightarrow> \<forall>p. rect_contains p r \<longleftrightarrow> rect_contains p a \<and> rect_contains p b
    | None \<Rightarrow> \<forall>p. \<not> (rect_contains p a \<and> rect_contains p b)) \<and>
   (0 \<le> width a \<and> 0 \<le> height a \<and> 0 \<le> width b \<and> 0 \<le> height b \<longrightarrow> (intersects a b \<longleftrightarrow> intersection a b \<noteq> None))"
  by (auto simp: intersection_def rect_contains_def rect_defs)

lemma rect_intersection_common_witness:
  "(\<forall>p. rect_contains p (Rect 1 1 1 1) \<longleftrightarrow> rect_contains p (Rect 0 0 2 2) \<and> rect_contains p (Rect 1 1 2 2)) \<and>
   intersects (Rect 0 0 2 2) (Rect 1 1 2 2)"
proof -
  have i: "intersection (Rect 0 0 2 2) (Rect 1 1 2 2) = Some (Rect 1 1 1 1)"
    by (simp add: intersection_def Rect_def Let_def)
  have "0 \<le> width (Rect 0 0 2 2) \<and> 0 \<le> height (Rect 0 0 2 2) \<and> 0 \<le> width (Rect 1 1 2 2) \<and> 0 \<le> height (Rect 1 1 2 2)"
    by (simp add: Rect_def)
  with rect_intersection_common [of "Rect 0 0 2 2" "Rect 1 1 2 2", unfolded i] show ?thesis by simp
qed

end
