(* ===== verification/Segment.thy ===== *)
theory Segment
  imports Storage Bipatch Times
begin

text \<open>
  Replay segments (\<open>replay/replay_segment.py\<close>): the bookkeeping around the storage of one interval
  of the game, the recording of patches and the queue of patches that wait to be appended.

  The initial game state is kept as the value it was deserialised to; \<open>apply_patch\<close> works on
  shared mutable objects and is modelled in the theory \<open>Playing\<close>.  \<open>PathTree.precompute\<close>,
  which only fills caches for the Steiner tree, has no effect on this state.  The end-to-end
  theorem says that what is queued, appended and closed in append mode is what a reader of the
  file loads: the same patches in the graph and the same path tree.
\<close>

subsection \<open>State\<close>

record 'r segment =
  seg_game_id :: "int option"
  seg_player_id :: "int option"
  seg_version :: int
  storage_of :: "'r storage"
  op_counter :: nat
  seg_max_patches :: "nat option"
  append_que :: "(patch_node list \<times> triples list) list"
  seg_game_state :: "val option"
  current_time :: "datetime option"

definition new_segment ::
    "bytes \<Rightarrow> int \<Rightarrow> int option \<Rightarrow> int option \<Rightarrow> nat option \<Rightarrow> 'r segment" where
  "new_segment data version game_id player_id maxp =
     \<lparr>seg_game_id = game_id, seg_player_id = player_id, seg_version = version, storage_of = new_storage data,
      op_counter = 0, seg_max_patches = maxp, append_que = [], seg_game_state = None, current_time = None\<rparr>"

definition get_binary :: "'r segment \<Rightarrow> bytes" where
  "get_binary g = data_b (storage_of g)"

definition seg_set_last_game_state :: "val \<Rightarrow> 'r segment \<Rightarrow> 'r segment" where
  "seg_set_last_game_state v g = g\<lparr>storage_of := (storage_of g)\<lparr>last_game_state := Some v\<rparr>\<rparr>"

definition seg_get_last_game_state :: "'r segment \<Rightarrow> val option" where
  "seg_get_last_game_state g = last_game_state (storage_of g)"

definition set_max_patches :: "nat \<Rightarrow> 'r segment \<Rightarrow> 'r segment" where
  "set_max_patches n g = g\<lparr>seg_max_patches := Some n\<rparr>"

definition reset_op_counter :: "'r segment \<Rightarrow> 'r segment" where
  "reset_op_counter g = g\<lparr>op_counter := 0\<rparr>"

text \<open>An operation of the storage, run on the storage of a segment.\<close>

definition on_storage :: "('r storage \<Rightarrow> 'r storage result) \<Rightarrow> 'r segment \<Rightarrow> 'r segment result" where
  "on_storage f g = rbind (f (storage_of g)) (\<lambda>s. Inr (g\<lparr>storage_of := s\<rparr>))"

definition seg_metadata :: "'r segment \<Rightarrow> segment_metadata result" where
  "seg_metadata g = have_attr (metadata (storage_of g))"

definition set_metadata_fields :: "(segment_metadata \<Rightarrow> segment_metadata) \<Rightarrow> 'r storage \<Rightarrow> 'r storage result" where
  "set_metadata_fields f s = rbind (have_attr (metadata s)) (\<lambda>m. Inr (s\<lparr>metadata := Some (f m)\<rparr>))"

subsection \<open>Checks and times\<close>

definition get_start_time :: "'r segment \<Rightarrow> datetime result" where
  "get_start_time g = rbind (seg_metadata g) (\<lambda>m. Inr (start_time m * 10 ^ 6))"

definition get_last_time :: "'r segment \<Rightarrow> datetime result" where
  "get_last_time g = rbind (seg_metadata g) (\<lambda>m. Inr (last_time m * 10 ^ 6))"

definition validate_game :: "int option \<Rightarrow> int option \<Rightarrow> 'r segment \<Rightarrow> unit result" where
  "validate_game game_id player_id g =
     (if seg_game_id g \<noteq> game_id \<or> seg_player_id g \<noteq> player_id then Inl ValueError else Inr ())"

definition validate_max_patches :: "int \<Rightarrow> 'r segment \<Rightarrow> unit result" where
  "validate_max_patches add g =
     rbind (seg_metadata g) (\<lambda>m. if current_patches m + add \<ge> max_patches m then Inl IndexError else Inr ())"

definition validate_structure :: "'r segment \<Rightarrow> unit result option" where
  "validate_structure g =
     (case tree (storage_of g) of
        None \<Rightarrow> Some (Inl AttributeError)
      | Some t \<Rightarrow>
          (case validate_idx_to_node_mapping t of
             None \<Rightarrow> None
           | Some (Inl e) \<Rightarrow> Some (Inl e)
           | Some (Inr _) \<Rightarrow> (case validate_tree_structure t of None \<Rightarrow> None | Some _ \<Rightarrow> Some (Inr ()))))"

subsection \<open>Loading and collapsing\<close>

definition load_everything :: "senv \<Rightarrow> 'r segment \<Rightarrow> 'r segment result" where
  "load_everything E g =
     rbind (on_storage (read_all E) g) (\<lambda>g.
     rbind (on_storage load_metadata g) (\<lambda>g.
     rbind (load_initial_game_state E (storage_of g)) (\<lambda>(v, s).
     rbind (on_storage (load_path_tree E) (g\<lparr>storage_of := s, seg_game_state := Some v\<rparr>)) (\<lambda>g.
     rbind (on_storage (load_patches E) g) (\<lambda>g.
     rbind (have_attr (tree (storage_of g))) (\<lambda>_.
     rbind (on_storage (\<lambda>s. rbind (have_attr (graph s)) (\<lambda>pg.
       rbind (finalize pg) (\<lambda>pg. Inr (s\<lparr>graph := Some pg\<rparr>)))) g) (\<lambda>g.
     rbind (get_start_time g) (\<lambda>t. Inr (g\<lparr>current_time := Some t\<rparr>)))))))))"

definition load_append_mode :: "senv \<Rightarrow> 'r segment \<Rightarrow> 'r segment result" where
  "load_append_mode E g =
     rbind (on_storage (read_append_mode_from_disk E) g) (\<lambda>g.
     rbind (on_storage load_metadata g) (\<lambda>g.
     rbind (load_last_game_state E (storage_of g)) (\<lambda>(_, s).
       on_storage (load_path_tree E) (g\<lparr>storage_of := s\<rparr>))))"

definition collapse_append_mode :: "senv \<Rightarrow> 'r segment \<Rightarrow> 'r segment result" where
  "collapse_append_mode E g =
     rbind (validate_max_patches 0 g) (\<lambda>_.
     rbind (on_storage update_metadata g) (\<lambda>g.
     rbind (on_storage (unload_last_game_state E) g) (\<lambda>g.
       on_storage (write_last_game_state E) g)))"

definition collapse_all :: "senv \<Rightarrow> 'r segment \<Rightarrow> 'r segment result" where
  "collapse_all E g =
     rbind (validate_max_patches 0 g) (\<lambda>_.
     rbind (on_storage (set_metadata_fields (\<lambda>m. m\<lparr>is_fragmented := False\<rparr>)) g) (\<lambda>g.
     rbind (on_storage unload_metadata g) (\<lambda>g.
     rbind (on_storage (unload_path_tree E) g) (\<lambda>g.
     rbind (on_storage (unload_patches E) g) (\<lambda>g.
     rbind (on_storage (unload_last_game_state E) g) (\<lambda>g.
       on_storage (write_all E) g))))))"

subsection \<open>Recording\<close>

definition record_initial_game_state ::
    "senv \<Rightarrow> val \<Rightarrow> datetime \<Rightarrow> int option \<Rightarrow> int option \<Rightarrow> 'r segment \<Rightarrow> 'r segment result" where
  "record_initial_game_state E game_state time_stamp game_id player_id g =
     rbind (validate_game game_id player_id g) (\<lambda>_.
     rbind (on_storage (set_metadata_fields (\<lambda>m. m\<lparr>start_time := dt_seconds time_stamp,
       last_time := dt_seconds time_stamp\<rparr>)) g) (\<lambda>g.
       on_storage (unload_initial_game_state E game_state) g))"

definition create_nodes_from_bireplay_patch ::
    "'r path_tree \<Rightarrow> bireplay_patch \<Rightarrow> int \<Rightarrow> int \<Rightarrow> patch_node \<times> patch_node" where
  "create_nodes_from_bireplay_patch t rp from_ts to_ts =
     (let f = forward_patch rp; b = backward_patch rp;
          forward_path_ids = map (\<lambda>p. path_list_to_idx p t) (paths f);
          backward_path_ids = map (\<lambda>p. path_list_to_idx p t) (paths b)
      in (new_patch_node from_ts to_ts (op_types f) forward_path_ids (patch_values f) None,
          new_patch_node to_ts from_ts (op_types b) backward_path_ids (patch_values b) None))"

definition record_patch_in_rw_mode ::
    "datetime \<Rightarrow> int option \<Rightarrow> int option \<Rightarrow> bireplay_patch \<Rightarrow> 'r segment \<Rightarrow> 'r segment result" where
  "record_patch_in_rw_mode time_stamp game_id player_id rp g =
     rbind (validate_game game_id player_id g) (\<lambda>_.
     rbind (validate_max_patches 2 g) (\<lambda>_.
     rbind (seg_metadata g) (\<lambda>m.
     let s = storage_of g; from_ts = last_time m; to_ts = dt_seconds time_stamp in
     rbind (have_attr (tree s)) (\<lambda>t.
     rbind (fill_with_paths (paths (forward_patch rp)) t) (\<lambda>(t, _).
     let (fwd, bwd) = create_nodes_from_bireplay_patch t rp from_ts to_ts in
     rbind (have_attr (graph s)) (\<lambda>pg.
     rbind (add_edge_and_vertices fwd pg) (\<lambda>pg.
     rbind (add_edge_and_vertices bwd pg) (\<lambda>pg.
     rbind (finalize pg) (\<lambda>pg.
       Inr (g\<lparr>storage_of := s\<lparr>tree := Some t, graph := Some pg,
         metadata := Some (m\<lparr>current_patches := current_patches m + 2, last_time := to_ts\<rparr>)\<rparr>\<rparr>))))))))))"

definition que_append_patch ::
    "datetime \<Rightarrow> int option \<Rightarrow> int option \<Rightarrow> bireplay_patch option \<Rightarrow> 'r segment \<Rightarrow> 'r segment result" where
  "que_append_patch time_stamp game_id player_id replay_patch g =
     (case replay_patch of
        None \<Rightarrow> Inr g
      | Some rp \<Rightarrow>
          rbind (validate_game game_id player_id g) (\<lambda>_.
          rbind (validate_max_patches 2 g) (\<lambda>_.
          rbind (seg_metadata g) (\<lambda>m.
          let s = storage_of g; from_ts = last_time m; to_ts = dt_seconds time_stamp in
          rbind (have_attr (tree s)) (\<lambda>t.
          rbind (fill_with_paths (paths (forward_patch rp)) t) (\<lambda>(t, new_nodes).
          rbind (rmap (node_triple t) new_nodes) (\<lambda>new_paths.
          let (fwd, bwd) = create_nodes_from_bireplay_patch t rp from_ts to_ts in
            Inr (g\<lparr>storage_of := s\<lparr>tree := Some t,
                   metadata := Some (m\<lparr>is_fragmented := True, last_time := to_ts\<rparr>)\<rparr>,
                 append_que := append_que g @ [([fwd, bwd], [new_paths, []])]\<rparr>))))))))"

definition execute_append_que :: "senv \<Rightarrow> 'r segment \<Rightarrow> 'r segment result" where
  "execute_append_que E g =
     (let all_nodes = concat (map fst (append_que g)); all_new_paths = concat (map snd (append_que g));
          g = g\<lparr>append_que := []\<rparr>
      in if all_nodes \<noteq> [] then on_storage (append_patches_to_disk E all_nodes all_new_paths) g else Inr g)"


subsection \<open>What a segment has recorded\<close>

text \<open>The patches that lie on disk, with the new tree nodes each carries.\<close>

definition stored :: "senv \<Rightarrow> bytes list \<Rightarrow> (patch_node \<times> triples) list \<Rightarrow> bool" where
  "stored E bs pts \<longleftrightarrow> list_all2 (\<lambda>b (p, ts). b \<noteq> [] \<and> node_deserialize (codec E) (ser E) b = Inr (p, ts) \<and>
     extract_tree_nodes (codec E) b = Inr ts) bs pts"

definition storable :: "senv \<Rightarrow> patch_node \<times> triples \<Rightarrow> bool" where
  "storable E x \<longleftrightarrow> (case x of (p, ts) \<Rightarrow> node_storable p \<and> blobs_ok (codec E) (ser E) ts p \<and>
     list_all (serial_ok (ser E)) (node_values p))"

definition queued :: "'r segment \<Rightarrow> (patch_node \<times> triples) list" where
  "queued g = zip (concat (map fst (append_que g))) (concat (map snd (append_que g)))"

text \<open>A segment in append mode: its data hold the patches \<open>pts\<close>, and the tree in memory is the base
  tree of the file extended by the nodes of the patches on disk and of those in the queue.\<close>

definition recording ::
    "senv \<Rightarrow> segment_metadata \<Rightarrow> bytes \<Rightarrow> bytes \<Rightarrow> bytes \<Rightarrow> 'r path_tree \<Rightarrow> bytes list \<Rightarrow> (patch_node \<times> triples) list
     \<Rightarrow> bytes \<Rightarrow> 'r segment \<Rightarrow> bool" where
  "recording E m mb ic tc base bs pts rest g \<longleftrightarrow>
     on_disk m mb ic tc bs rest (storage_of g) \<and> stored E bs pts \<and>
     list_all (\<lambda>(ns, ps). length ps = length ns) (append_que g) \<and>
     (\<exists>t. tree (storage_of g) = Some t \<and> tree_wf t \<and>
        add_triples (concat (map snd (pts @ queued g))) base = Inr t)"

lemma add_triples_append: "add_triples (a @ b) t = rbind (add_triples a t) (add_triples b)"
  unfolding add_triples_def rfold_append by (rule arg_cong2 [of _ _ _ _ rbind]) (auto simp: add_triples_def)

lemma add_fragments_offsets:
  fixes t :: "'r path_tree"
  assumes "stored E bs pts"
  shows "add_fragments E (offsets (int (length pre)) bs @ replicate n (0, 0)) (pre @ concat bs @ rest) t =
    add_triples (concat (map snd pts)) t"
  using assms unfolding stored_def
proof (induction bs pts arbitrary: pre t rule: list_all2_induct)
  case Nil
  then show ?case by (cases n) (simp_all add: add_triples_def)
next
  case (Cons b bs x pts)
  obtain p ts where x: "x = (p, ts)" by (cases x)
  have "py_slice (pre @ b @ concat bs @ rest) (int (length pre)) (int (length pre) + int (length b)) = b"
    by simp
  moreover have "add_fragments E (offsets (int (length pre) + int (length b)) bs @ replicate n (0, 0))
      (pre @ b @ concat bs @ rest) = (add_triples (concat (map snd pts)) :: 'r path_tree \<Rightarrow> _)"
    by (rule ext) (use Cons.IH [of "pre @ b"] in simp)
  ultimately show ?case using Cons(1) by (simp add: x add_triples_append)
qed

lemma stored_append: "stored E bs pts \<Longrightarrow> stored E bs' pts' \<Longrightarrow> stored E (bs @ bs') (pts @ pts')"
  by (simp add: stored_def list_all2_appendI)

lemma node_bytes_not_empty: "concat (map field_enc (node_fields p npb pb cb)) \<noteq> []"
  by (simp add: node_fields_def numeral_eq_Suc)

lemma storable_stored:
  assumes "storable E (p, ts)" "node_serialize (codec E) (ser E) ts p = Inr b"
  shows "b \<noteq> [] \<and> node_deserialize (codec E) (ser E) b = Inr (p, ts) \<and> extract_tree_nodes (codec E) b = Inr ts"
proof -
  from assms(1) have s: "node_storable p" "blobs_ok (codec E) (ser E) ts p" "list_all (serial_ok (ser E)) (node_values p)"
    by (simp_all add: storable_def)
  from node_blobs [OF s] obtain bs npb pb cb where "node_serialize (codec E) (ser E) ts p = Inr bs"
    "bs = concat (map field_enc (node_fields p npb pb cb))" "node_deserialize (codec E) (ser E) bs = Inr (p, ts)"
    "extract_tree_nodes (codec E) bs = Inr ts" by blast
  with assms(2) node_bytes_not_empty [of p npb pb cb] show ?thesis by (auto simp del: concat_eq_Nil_conv)
qed

lemma stored_new:
  assumes "rmap (\<lambda>(p, ts). node_serialize (codec E) (ser E) ts p) xs = Inr ns" "list_all (storable E) xs"
  shows "stored E ns xs"
  using assms
proof (induction xs arbitrary: ns)
  case (Cons x xs)
  obtain p ts where x: "x = (p, ts)" by (cases x)
  from Cons.prems(1) obtain b ns' where "node_serialize (codec E) (ser E) ts p = Inr b" "ns = b # ns'"
    "rmap (\<lambda>(p, ts). node_serialize (codec E) (ser E) ts p) xs = Inr ns'" by (auto simp: x rbind_eq_Inr_iff)
  with Cons storable_stored [of E p ts b] show ?case by (simp add: stored_def x)
qed (simp add: stored_def)

lemma length_que: "list_all (\<lambda>(ns, ps). length ps = length ns) q \<Longrightarrow> length (concat (map snd q)) = length (concat (map fst q))"
  by (induction q) auto

lemma queued_snoc:
  "list_all (\<lambda>(ns, ps). length ps = length ns) (append_que g) \<Longrightarrow>
   queued (g\<lparr>storage_of := s, append_que := append_que g @ [(ns, ps)]\<rparr>) = queued g @ zip ns ps"
  by (simp add: queued_def length_que)

lemma on_disk_cong:
  assumes "on_disk m mb ic tc bs rest s" "max_patches m' = max_patches m" "patch_index_start m' = patch_index_start m"
    "current_patches m' = current_patches m"
  shows "on_disk m' mb ic tc bs rest (s\<lparr>tree := t, metadata := Some m'\<rparr>)"
  using assms by (simp add: on_disk_def)

lemma que_recording:
  assumes rec: "recording E m mb ic tc base bs pts rest g"
    and ids: "seg_game_id g = game_id" "seg_player_id g = player_id" and room: "current_patches m + 2 < max_patches m"
    and m': "m' = m\<lparr>is_fragmented := True, last_time := dt_seconds time_stamp\<rparr>"
  shows "\<exists>g' t ts. que_append_patch time_stamp game_id player_id (Some rp) g = Inr g' \<and>
    recording E m' mb ic tc base bs pts rest g' \<and> tree (storage_of g') = Some t \<and>
    append_que g' = append_que g @ [(case create_nodes_from_bireplay_patch t rp (last_time m) (dt_seconds time_stamp) of
      (fwd, bwd) \<Rightarrow> ([fwd, bwd], [ts, []]))] \<and>
    last_game_state (storage_of g') = last_game_state (storage_of g)"
proof -
  let ?s = "storage_of g"
  from rec obtain t where t: "tree ?s = Some t" "tree_wf t" "add_triples (concat (map snd (pts @ queued g))) base = Inr t"
    and d: "on_disk m mb ic tc bs rest ?s" and st: "stored E bs pts"
    and q: "list_all (\<lambda>(ns, ps). length ps = length ns) (append_que g)" by (auto simp: recording_def)
  from fill_paths_ok [OF filled_refl [OF t(2)], of "paths (forward_patch rp)"] obtain t' added where
    f: "fill_with_paths (paths (forward_patch rp)) t = Inr (t', added)" "filled t t' added"
    by (auto simp: fill_with_paths_def)
  then obtain ts where ts: "rmap (node_triple t') added = Inr ts" "add_triples ts t = Inr t'" "tree_wf t'"
    by (auto simp: filled_def grows_def)
  obtain fwd bwd where n: "create_nodes_from_bireplay_patch t' rp (last_time m) (dt_seconds time_stamp) = (fwd, bwd)"
    by (cases "create_nodes_from_bireplay_patch t' rp (last_time m) (dt_seconds time_stamp)")
  let ?g = "g\<lparr>storage_of := ?s\<lparr>tree := Some t', metadata := Some m'\<rparr>,
    append_que := append_que g @ [([fwd, bwd], [ts, []])]\<rparr>"
  have m: "metadata ?s = Some m" using d by (simp add: on_disk_def)
  have "que_append_patch time_stamp game_id player_id (Some rp) g = Inr ?g"
    using ids room by (simp add: que_append_patch_def validate_game_def validate_max_patches_def seg_metadata_def
        m t(1) f(1) ts(1) n Let_def m')
  moreover have tr: "add_triples (concat (map snd pts) @ concat (map snd (queued g)) @ ts) base = Inr t'"
    using t(3) ts(2) add_triples_append [of "concat (map snd (pts @ queued g))" ts base] by simp
  moreover have "recording E m' mb ic tc base bs pts rest ?g"
    using on_disk_cong [OF d, of m' "Some t'"] st q ts(3) tr
    by (simp add: recording_def m' queued_snoc [OF q])
  ultimately show ?thesis by (auto simp: n)
qed

lemma execute_recording:
  assumes rec: "recording E m mb ic tc base bs pts rest g"
    and ns: "rmap (\<lambda>(p, ts). node_serialize (codec E) (ser E) ts p) (queued g) = Inr ns"
    and sto: "list_all (storable E) (queued g)"
    and room: "length bs + length (queued g) \<le> nat (max_patches m)" and sh: "short (concat (bs @ ns))"
    and m': "m' = m\<lparr>current_patches := current_patches m + int (length (queued g))\<rparr>"
  shows "\<exists>g' rest'. execute_append_que E g = Inr g' \<and> append_que g' = [] \<and> tree (storage_of g') = tree (storage_of g) \<and>
    recording E m' mb ic tc base (bs @ ns) (pts @ queued g) rest' g' \<and>
    last_game_state (storage_of g') = last_game_state (storage_of g)"
proof -
  let ?N = "concat (map fst (append_que g))" and ?P = "concat (map snd (append_que g))"
  from rec obtain t where t: "tree (storage_of g) = Some t" "tree_wf t"
      "add_triples (concat (map snd (pts @ queued g))) base = Inr t"
    and d: "on_disk m mb ic tc bs rest (storage_of g)" and st: "stored E bs pts"
    and q: "list_all (\<lambda>(ns, ps). length ps = length ns) (append_que g)" by (auto simp: recording_def)
  have len: "length ?P = length ?N" "length (queued g) = length ?N" using length_que [OF q] by (simp_all add: queued_def)
  have st': "stored E (bs @ ns) (pts @ queued g)" by (rule stored_append [OF st stored_new [OF ns sto]])
  show ?thesis
  proof (cases "?N = []")
    case True
    then have "queued g = []" unfolding queued_def by (simp only: zip_Nil)
    moreover from this have "ns = []" using ns by simp
    moreover have "queued (g\<lparr>append_que := []\<rparr>) = []" by (simp add: queued_def)
    ultimately have "recording E m' mb ic tc base (bs @ ns) (pts @ queued g) rest (g\<lparr>append_que := []\<rparr>)"
      using d st t m' by (simp add: recording_def)
    then show ?thesis using True by (auto simp: execute_append_que_def Let_def)
  next
    case False
    from append_on_disk [OF d ns [unfolded queued_def] len(1)] room sh m' len obtain s' where
      s': "append_patches_to_disk E ?N ?P (storage_of g) = Inr s'"
        "on_disk m' mb ic tc (bs @ ns) (drop (length (concat ns)) rest) s'"
        "last_game_state s' = last_game_state (storage_of g)" by auto
    then have tr: "tree s' = tree (storage_of g)"
      by (auto simp: append_patches_to_disk_def rbind_eq_Inr_iff Let_def)
    have "recording E m' mb ic tc base (bs @ ns) (pts @ queued g) (drop (length (concat ns)) rest)
        (g\<lparr>append_que := [], storage_of := s'\<rparr>)"
      using s' st' t tr by (simp add: recording_def queued_def)
    then show ?thesis using False s' tr by (auto simp: execute_append_que_def on_storage_def Let_def)
  qed
qed


lemma collapse_recording:
  assumes rec: "recording E m mb ic tc base bs pts rest g" and room: "current_patches m < max_patches m"
    and mb': "segment_metadata_serialize m = Inr mb'"
    and v: "last_game_state (storage_of g) = Some v" "serialize (raw_encode (codec E)) (ser E) v = Inr lb"
      "short (compress E lb)"
  shows "\<exists>g' rest'. collapse_append_mode E g = Inr g' \<and>
    recording E m mb' ic tc base bs pts (blk (compress E lb) @ rest') g' \<and> tree (storage_of g') = tree (storage_of g)"
proof -
  from rec have d: "on_disk m mb ic tc bs rest (storage_of g)" by (simp add: recording_def)
  then have m: "metadata (storage_of g) = Some m" by (simp add: on_disk_def)
  from update_metadata_on_disk [OF d mb'] obtain s1 where s1: "update_metadata (storage_of g) = Inr s1"
    "on_disk m mb' ic tc bs rest s1" "last_game_state s1 = last_game_state (storage_of g)" by blast
  let ?s2 = "s1\<lparr>last_game_state_b := Some lb\<rparr>"
  have u: "unload_last_game_state E s1 = Inr ?s2" using s1(3) v by (simp add: unload_last_game_state_def)
  have "on_disk m mb' ic tc bs rest ?s2" using s1(2) by (simp add: on_disk_def)
  from write_last_on_disk [OF this _ v(3)] obtain s3 rest' where s3: "write_last_game_state E ?s2 = Inr s3"
    "on_disk m mb' ic tc bs (blk (compress E lb) @ rest') s3" by auto
  have tr: "tree s1 = tree (storage_of g)" "tree s3 = tree ?s2"
    using s1(1) s3(1) by (auto simp: update_metadata_def write_last_game_state_def rbind_eq_Inr_iff Let_def)
  have "collapse_append_mode E g = Inr (g\<lparr>storage_of := s3\<rparr>)"
    using room s1 u s3 m by (simp add: collapse_append_mode_def validate_max_patches_def seg_metadata_def on_storage_def)
  moreover have "queued (g\<lparr>storage_of := s3\<rparr>) = queued g" by (simp add: queued_def)
  ultimately show ?thesis using rec s3(2) tr by (auto simp: recording_def)
qed

lemma load_recording:
  fixes g :: "'r segment"
  assumes rec: "recording E m mb ic tc base bs pts (blk lc @ rest) g" and q: "append_que g = []"
    and m: "segment_metadata_deserialize mb = Inr m" "is_fragmented m"
    and sh: "short ic" "short tc" "short lc" "12 * nat (max_patches m) < 2 ^ 31"
    and dec: "decompress E ic = Inr ib" "decompress E tc = Inr tb" "decompress E lc = Inr lb"
    and base: "unpack_path_tree E tb = Inr base" and v: "deserialize (raw_decode (codec E)) (ser E) ib = Inr v"
    and pg: "rfold add_edge_and_vertices (map fst pts) new_patch_graph = Inr pg" "finalize pg = Inr pg'"
  shows "\<exists>g'. load_everything E (new_segment (get_binary g) ver gid pid maxp) = Inr g' \<and>
    tree (storage_of g') = tree (storage_of g) \<and> graph (storage_of g') = Some pg' \<and>
    metadata (storage_of g') = Some m \<and> seg_game_state g' = Some v \<and> current_time g' = Some (start_time m * 10 ^ 6)"
proof -
  from rec q obtain t where t: "tree (storage_of g) = Some t" "add_triples (concat (map snd pts)) base = Inr t"
    and d: "on_disk m mb ic tc bs (blk lc @ rest) (storage_of g)" and st: "stored E bs pts"
    by (auto simp: recording_def queued_def)
  let ?data = "data_b (storage_of g)" and ?maxp = "nat (max_patches m)"
  let ?s1 = "(new_storage ?data :: 'r storage)\<lparr>metadata_b := Some mb, metadata := Some m, initial_game_state_b := Some ib,
    path_tree_b := Some tb, patch_index_b := Some (index_bytes (index_of ?maxp bs)),
    d_pool_b := Some (concat bs), last_game_state_b := Some lb\<rparr>"
  have r: "read_all E (new_storage ?data) = Inr ?s1" by (rule read_on_disk [OF d m(1) sh dec])
  let ?s2 = "?s1\<lparr>initial_game_state := Some v\<rparr>"
  have fits: "frombuffer_index (index_bytes (index_of ?maxp bs)) = Inr (index_of ?maxp bs)"
    using d by (intro frombuffer_index_bytes index_of_fits short_fits) (simp add: on_disk_def)
  have "add_fragments E (index_of ?maxp bs) (concat bs) base = Inr t"
    using add_fragments_offsets [OF st, of "[]" _ "[]" base] t(2) by (simp add: index_of_def)
  then have lt: "load_path_tree E ?s2 = Inr (?s2\<lparr>tree := Some t\<rparr>)"
    using base m(2) fits by (simp add: load_path_tree_def have_attr_def have_bytes_def)
  have "load_patches E (?s2\<lparr>tree := Some t\<rparr>) = Inr (?s2\<lparr>tree := Some t, graph := Some pg\<rparr>)"
  proof (rule load_patches_stored [where maxp = ?maxp and bs = bs and ps = "map fst pts"])
    show "short (concat bs)" using d by (simp add: on_disk_def)
    show "list_all2 (\<lambda>b p. b \<noteq> [] \<and> (\<exists>ps. node_deserialize (codec E) (ser E) b = Inr (p, ps))) bs (map fst pts)"
      using st unfolding stored_def list_all2_map2 by (rule list_all2_mono) auto
  qed (simp_all add: pg(1))
  then have lp: "load_patches E (?s2\<lparr>tree := Some t\<rparr>) = Inr (?s2\<lparr>tree := Some t, graph := Some pg\<rparr>)" .
  have lm: "load_metadata ?s1 = Inr ?s1" using m(1) by (simp add: load_metadata_def new_storage_def)
  have li: "load_initial_game_state E ?s1 = Inr (v, ?s2)" using v by (simp add: load_initial_game_state_def)
  define s1 where s1: "s1 = ?s1"
  have f: "metadata s1 = Some m" by (simp add: s1)
  show ?thesis
    using r lt lp lm li pg(2) t(1) f unfolding s1 [symmetric]
    by (simp add: load_everything_def new_segment_def get_binary_def on_storage_def get_start_time_def seg_metadata_def)
qed


subsection \<open>A fresh segment\<close>

lemma index_of_Nil: "index_of n [] = replicate n (0, 0)"
  by (simp add: index_of_def)

definition root_columns :: packed_tree where
  "root_columns = (1, [Some (PStr ''root'')], le_bytes 4 (-1), [1])"

lemma unload_new_tree:
  assumes "tree s = Some new_path_tree"
  shows "unload_path_tree E s = Inr (s\<lparr>path_tree_b := Some (pack_tree E root_columns)\<rparr>)"
  using assms by (simp add: unload_path_tree_def new_path_tree_def unload_node_def new_node_def root_columns_def)

lemma unpack_root_columns:
  assumes "unpack_tree E b = Inr root_columns"
  shows "unpack_path_tree E b = Inr new_path_tree"
  using assms decode_le_bytes [of "CS 4" "-1"]
  by (simp add: unpack_path_tree_def root_columns_def link_node_def new_path_tree_def)

lemma finalize_new: "\<exists>pg. finalize new_patch_graph = Inr pg"
  using build_ok [of "[]"] by auto

text \<open>Collapsing a segment that holds nothing yet and loading it again leaves it in append mode, with
  an empty pool and the empty tree.\<close>

lemma fresh_segment_recording:
  fixes g :: "'r segment"
  assumes s: "metadata (storage_of g) = Some m" "tree (storage_of g) = Some new_path_tree" "graph (storage_of g) = Some new_patch_graph"
      "patch_index_b (storage_of g) = Some (index_bytes (index_of (nat (max_patches m)) []))"
      "initial_game_state_b (storage_of g) = Some ib" "last_game_state (storage_of g) = Some v" "append_que g = []"
    and m: "current_patches m = 0" "0 < max_patches m" "12 * nat (max_patches m) < 2 ^ 31" "int32_fields m" "map_id_storable (map_id m)"
      "index_position (compress E ib) (compress E (pack_tree E root_columns)) < 2 ^ 31"
    and E: "lossless E" "unpack_tree E (pack_tree E root_columns) = Inr root_columns"
      "serialize (raw_encode (codec E)) (ser E) v = Inr lb" "deserialize (raw_decode (codec E)) (ser E) ib = Inr v0"
    and sh: "short (compress E ib)" "short (compress E (pack_tree E root_columns))" "short (compress E lb)"
    and m': "m' = m\<lparr>is_fragmented := False,
      patch_index_start := int (index_position (compress E ib) (compress E (pack_tree E root_columns)))\<rparr>"
  shows "\<exists>g1 g2 mb. collapse_all E g = Inr g1 \<and> load_everything E g1 = Inr g2 \<and>
    recording E m' mb (compress E ib) (compress E (pack_tree E root_columns)) new_path_tree [] []
      (blk (compress E lb)) g2 \<and> append_que g2 = [] \<and> last_game_state (storage_of g2) = Some v \<and>
    seg_game_id g2 = seg_game_id g \<and> seg_player_id g2 = seg_player_id g \<and> seg_version g2 = seg_version g"
proof -
  let ?tb = "pack_tree E root_columns" and ?xb = "index_bytes (index_of (nat (max_patches m)) [])"
  let ?m0 = "m\<lparr>is_fragmented := False\<rparr>"
  have i32: "int32_fields ?m0" "int32_fields m'" using m(4,6) by (simp_all add: int32_fields_def m')
  from segment_serialize_ok [OF i32(1)] obtain mb0 where mb0: "segment_metadata_serialize ?m0 = Inr mb0" by blast
  from segment_serialize_ok [OF i32(2)] obtain mb where mb: "segment_metadata_serialize m' = Inr mb" by blast
  have fb: "frombuffer_index ?xb = Inr (index_of (nat (max_patches m)) [])"
    by (intro frombuffer_index_bytes index_of_fits) simp
  define s1 where s1: "s1 = (storage_of g)\<lparr>metadata_b := Some mb0, path_tree_b := Some ?tb,
     patch_index_b := Some ?xb, d_pool_b := Some [], metadata := Some ?m0, last_game_state_b := Some lb\<rparr>"
  define s2 where s2: "s2 = s1\<lparr>data_b := image mb (compress E ib) (compress E ?tb) ?xb [] (compress E lb) [], metadata := Some m'\<rparr>"
  have w: "write_all E s1 = Inr s2" unfolding s2
    by (rule write_all_image [OF _ _ _ _ _ _ sh(1,2) _ _ sh(3) _ mb])
      (use s m(3) m' in \<open>simp_all add: s1 short_def\<close>)
  have c: "collapse_all E g = Inr (g\<lparr>storage_of := s2\<rparr>)"
    using s m(1,2) mb0 fb E(3) w
    by (simp add: collapse_all_def validate_max_patches_def seg_metadata_def on_storage_def set_metadata_fields_def
        unload_metadata_def unload_new_tree unload_patches_def new_patch_graph_def getbuffer_def new_writer_def
        unload_last_game_state_def s1)
  have sd: "segment_metadata_deserialize mb = Inr m'" using segment_deserialize_serialized [OF mb] m(5) by (simp add: m')
  define s3 where s3: "s3 = s2\<lparr>metadata_b := Some mb, metadata := Some m', initial_game_state_b := Some ib,
     path_tree_b := Some ?tb, patch_index_b := Some ?xb, d_pool_b := Some [], last_game_state_b := Some lb\<rparr>"
  have "short mb" using segment_serialize_length [OF mb] size_in_range by (simp add: short_def)
  moreover have "short ?xb" using m(3) by (simp add: short_def)
  ultimately have r: "read_all E s2 = Inr s3" unfolding s3
    using sh sd E(1)
    by (intro read_image [of _ _ "compress E ib" "compress E ?tb" _ _ "compress E lb" "[]"])
      (simp_all add: s2 lossless_def short_def [of "[]"])
  have lm: "load_metadata s3 = Inr s3" using sd by (cases s2) (simp add: load_metadata_def s3)
  let ?s4 = "s3\<lparr>initial_game_state := Some v0\<rparr>"
  have li: "load_initial_game_state E s3 = Inr (v0, ?s4)" using E(4) by (simp add: load_initial_game_state_def s3)
  have up: "unpack_path_tree E ?tb = Inr (new_path_tree :: 'r path_tree)" by (rule unpack_root_columns [OF E(2)])
  have lt: "load_path_tree E ?s4 = Inr (?s4\<lparr>tree := Some (new_path_tree :: 'r path_tree)\<rparr>)"
    using up by (simp add: load_path_tree_def s3 m')
  let ?s6 = "?s4\<lparr>tree := Some (new_path_tree :: 'r path_tree), graph := Some new_patch_graph\<rparr>"
  have lp: "load_patches E (?s4\<lparr>tree := Some (new_path_tree :: 'r path_tree)\<rparr>) = Inr ?s6"
    using fb by (simp add: load_patches_def s3)
  from finalize_new obtain pg where pg: "finalize new_patch_graph = Inr pg" ..
  let ?g2 = "g\<lparr>storage_of := ?s4\<lparr>tree := Some (new_path_tree :: 'r path_tree), graph := Some pg\<rparr>,
    seg_game_state := Some v0, current_time := Some (start_time m * 10 ^ 6)\<rparr>"
  have "metadata s3 = Some m'" "start_time m' = start_time m" by (simp_all add: s3 m')
  then have "load_everything E (g\<lparr>storage_of := s2\<rparr>) = Inr ?g2"
    using r lm li lt lp pg
    by (simp add: load_everything_def on_storage_def get_start_time_def seg_metadata_def)
  moreover have "on_disk m' mb (compress E ib) (compress E ?tb) [] (blk (compress E lb)) (storage_of ?g2)"
    using segment_serialize_length [OF mb] m(1) m'
    by (simp add: on_disk_def s3 s2 image_def short_def)
  then have "recording E m' mb (compress E ib) (compress E ?tb) new_path_tree [] [] (blk (compress E lb)) ?g2"
    using s(7) by (simp add: recording_def stored_def queued_def tree_wf_new add_triples_def)
  moreover have "last_game_state s3 = Some v" using s(6) by (simp add: s3 s2 s1)
  ultimately show ?thesis using c s(7) by (intro exI [of _ "g\<lparr>storage_of := s2\<rparr>"] exI [of _ ?g2] exI [of _ mb]) simp
qed

subsection \<open>Properties\<close>

text \<open>C16: queueing a patch on a segment in append mode that has room for it succeeds and keeps the
  invariant: the tree in memory is the tree a reader would rebuild from the file and the queue, and
  the queue ends with the forward and the backward node of the patch.\<close>

theorem que_append_keeps_recording:
  assumes "recording E m mb ic tc base bs pts rest g"
    and "seg_game_id g = game_id" and "seg_player_id g = player_id" and "current_patches m + 2 < max_patches m"
  shows "\<exists>g' t ts. que_append_patch time_stamp game_id player_id (Some rp) g = Inr g' \<and>
    recording E (m\<lparr>is_fragmented := True, last_time := dt_seconds time_stamp\<rparr>) mb ic tc base bs pts rest g' \<and>
    tree (storage_of g') = Some t \<and>
    append_que g' = append_que g @ [(case create_nodes_from_bireplay_patch t rp (last_time m) (dt_seconds time_stamp) of
      (fwd, bwd) \<Rightarrow> ([fwd, bwd], [ts, []]))]"
  using que_recording [OF assms refl, of time_stamp rp] by blast

text \<open>C4: what is queued is what is loaded.  After \<open>execute_append_que\<close> and \<open>collapse_append_mode\<close>, a
  reader that loads the bytes of the segment has the same path tree, the graph of all the patches,
  old and new, the metadata with the new count and the initial game state.\<close>

theorem appended_patches_load:
  assumes rec: "recording E m mb ic tc base bs pts rest g" and fr: "is_fragmented m"
    and m': "m' = m\<lparr>current_patches := current_patches m + int (length (queued g))\<rparr>"
    and room: "current_patches m' < max_patches m'" and i32: "int32_fields m'" and mid: "map_id_storable (map_id m')"
    and mx: "12 * nat (max_patches m) < 2 ^ 31"
    and sto: "list_all (storable E) (queued g)"
    and ns: "rmap (\<lambda>(p, ts). node_serialize (codec E) (ser E) ts p) (queued g) = Inr ns" and sh: "short (concat (bs @ ns))"
    and lst: "last_game_state (storage_of g) = Some v" "serialize (raw_encode (codec E)) (ser E) v = Inr lb"
      "short (compress E lb)"
    and E: "lossless E" "decompress E ic = Inr ib" "decompress E tc = Inr tb" "short ic" "short tc"
      "unpack_path_tree E tb = Inr base" "deserialize (raw_decode (codec E)) (ser E) ib = Inr v0"
    and pg: "rbind (rfold add_edge_and_vertices (map fst (pts @ queued g)) new_patch_graph) finalize = Inr pg"
  shows "\<exists>g1 g2 g3. execute_append_que E g = Inr g1 \<and> collapse_append_mode E g1 = Inr g2 \<and>
    load_everything E (new_segment (get_binary g2) ver gid pid maxp) = Inr g3 \<and>
    tree (storage_of g3) = tree (storage_of g) \<and> graph (storage_of g3) = Some pg \<and>
    metadata (storage_of g3) = Some m' \<and> seg_game_state g3 = Some v0"
proof -
  have "int (length bs) = current_patches m" using rec by (simp add: recording_def on_disk_def)
  then have "length bs + length (queued g) \<le> nat (max_patches m)" using room m' by simp
  from execute_recording [OF rec ns sto this sh m'] obtain g1 r1 where
    g1: "execute_append_que E g = Inr g1" "append_que g1 = []" "tree (storage_of g1) = tree (storage_of g)"
      "recording E m' mb ic tc base (bs @ ns) (pts @ queued g) r1 g1"
      "last_game_state (storage_of g1) = Some v" using lst(1) by auto
  from segment_serialize_ok [OF i32] obtain mb' where mb': "segment_metadata_serialize m' = Inr mb'" by blast
  from collapse_recording [OF g1(4) room mb' g1(5) lst(2,3)] obtain g2 r2 where
    g2: "collapse_append_mode E g1 = Inr g2"
      "recording E m' mb' ic tc base (bs @ ns) (pts @ queued g) (blk (compress E lb) @ r2) g2"
      "tree (storage_of g2) = tree (storage_of g1)" by blast
  then have q2: "append_que g2 = []" using g1(2)
    by (auto simp: collapse_append_mode_def on_storage_def rbind_eq_Inr_iff)
  from pg obtain pg0 where pg0: "rfold add_edge_and_vertices (map fst (pts @ queued g)) new_patch_graph = Inr pg0"
    "finalize pg0 = Inr pg" by (auto simp: rbind_eq_Inr_iff)
  have "decompress E (compress E lb) = Inr lb" using E(1) by (simp add: lossless_def)
  moreover have "is_fragmented m'" "12 * nat (max_patches m') < 2 ^ 31" using fr mx m' by simp_all
  ultimately show ?thesis
    using load_recording [OF g2(2) q2 segment_deserialize_serialized [OF mb' mid] _ E(4,5) lst(3) _ E(2,3) _ E(6,7) pg0,
        of lb ver gid pid maxp] g1(1,3) g2(1,3) by auto
qed

definition recorder_codecs :: codecs where
  "recorder_codecs =
     \<lparr>pack_paths = \<lambda>ts. Inr (if ts = [] then [0] else [7]),
      unpack_paths = \<lambda>b. Inr (if b = [0] then [] else [(1, 0, PStr ''a'')]),
      pack_prims = \<lambda>vs. Inr (if vs = [] then [0] else [8]),
      unpack_prims = \<lambda>b. Inr (if b = [0] then [] else [VInt 5]),
      raw_encode = \<lambda>r. Inr (if r = RList [] then [0] else [1]),
      raw_decode = \<lambda>b. Inr (if b = [0] then RList [] else RList [RNone])\<rparr>"

definition recorder_env :: senv where
  "recorder_env = \<lparr>codec = recorder_codecs, ser = sample_serializer, compress = (\<lambda>b. 1 # b),
     decompress = (\<lambda>b. Inr (tl b)), pack_tree = (\<lambda>_. [8]),
     unpack_tree = (\<lambda>_. Inr (1, [Some (PStr ''root'')], le_bytes 4 (-1), [1]))\<rparr>"

definition sample_meta :: segment_metadata where
  "sample_meta = \<lparr>start_time = 100, last_time = 100, max_patches = 10, current_patches = 0,
     patch_index_start = int (index_position [1, 1] [1, 8]), is_fragmented = False, map_id = []\<rparr>"

definition sample_segment :: "nat segment" where
  "sample_segment = (new_segment (blk (replicate segment_metadata_size 0) @ blk [1, 1] @ blk [1, 8] @
       blk (index_bytes (index_of 10 [])) @ blk []) 217 (Some 1) (Some 2) None)
     \<lparr>storage_of := (new_storage (blk (replicate segment_metadata_size 0) @ blk [1, 1] @ blk [1, 8] @
       blk (index_bytes (index_of 10 [])) @ blk []))
       \<lparr>metadata := Some sample_meta, patch_index_b := Some (index_bytes (index_of 10 [])),
        tree := Some new_path_tree, last_game_state := Some VNone\<rparr>\<rparr>"

lemma sample_recording:
  "recording recorder_env sample_meta (replicate segment_metadata_size 0) [1, 1] [1, 8] new_path_tree [] [] [] sample_segment"
  by (simp add: recording_def on_disk_def stored_def sample_segment_def new_segment_def queued_def tree_wf_new
      add_triples_def sample_meta_def short_def new_storage_def)

definition sample_patch :: bireplay_patch where
  "sample_patch = rp_add [PStr ''a''] (VInt 5) new_bipatch"

theorem que_append_keeps_recording_witness:
  "\<exists>g'. que_append_patch 160000000 (Some 1) (Some 2) (Some sample_patch) sample_segment = Inr g' \<and>
     recording recorder_env (sample_meta\<lparr>is_fragmented := True, last_time := dt_seconds 160000000\<rparr>)
       (replicate segment_metadata_size 0) [1, 1] [1, 8] new_path_tree [] [] [] g'"
proof -
  have "seg_game_id sample_segment = Some 1" "seg_player_id sample_segment = Some 2"
    "current_patches sample_meta + 2 < max_patches sample_meta"
    by (simp_all add: sample_segment_def new_segment_def sample_meta_def)
  from que_append_keeps_recording [OF sample_recording this, of 160000000 sample_patch] show ?thesis by blast
qed


definition sample_forward :: patch_node where
  "sample_forward = new_patch_node 100 160 [ADD_OPERATION] [Some 1] [VInt 5] None"

definition sample_backward :: patch_node where
  "sample_backward = new_patch_node 160 100 [REMOVE_OPERATION] [Some 1] [VNone] None"

lemma sample_seconds: "dt_seconds 160000000 = 160"
  by (simp add: dt_seconds_div)

lemma sample_que:
  obtains g where
    "recording recorder_env (sample_meta\<lparr>is_fragmented := True, last_time := 160\<rparr>)
       (replicate segment_metadata_size 0) [1, 1] [1, 8] new_path_tree [] [] [] (g :: nat segment)"
    "queued g = [(sample_forward, [(1, 0, PStr ''a'')]), (sample_backward, [])]"
    "last_game_state (storage_of g) = Some VNone"
proof -
  let ?g = "\<lambda>t. sample_segment\<lparr>storage_of := (storage_of sample_segment)\<lparr>tree := Some t,
      metadata := Some (sample_meta\<lparr>is_fragmented := True, last_time := 160\<rparr>)\<rparr>,
    append_que := [([sample_forward, sample_backward], [[(1, 0, PStr ''a'')], []])]\<rparr>"
  have "\<exists>t. que_append_patch 160000000 (Some 1) (Some 2) (Some sample_patch) sample_segment = Inr (?g t)"
    by (simp add: que_append_patch_def validate_game_def validate_max_patches_def seg_metadata_def sample_segment_def
        new_segment_def sample_meta_def sample_patch_def rp_add_def new_bipatch_def empty_patch_def append_op_def
        appendleft_op_def path_tree_eval node_triple_def create_nodes_from_bireplay_patch_def sample_seconds
        sample_forward_def sample_backward_def) blast
  then obtain t where t: "que_append_patch 160000000 (Some 1) (Some 2) (Some sample_patch) sample_segment = Inr (?g t)" ..
  have ids: "seg_game_id sample_segment = Some 1" "seg_player_id sample_segment = Some 2"
    "current_patches sample_meta + 2 < max_patches sample_meta"
    by (simp_all add: sample_segment_def new_segment_def sample_meta_def)
  from que_recording [OF sample_recording ids refl, of 160000000 sample_patch] t
  have "recording recorder_env (sample_meta\<lparr>is_fragmented := True, last_time := 160\<rparr>)
       (replicate segment_metadata_size 0) [1, 1] [1, 8] new_path_tree [] [] [] (?g t)" by (auto simp: sample_seconds)
  then show ?thesis by (rule that) (simp_all add: queued_def sample_segment_def)
qed

lemma sample_nodes_storable:
  "storable recorder_env (sample_forward, [(1, 0, PStr ''a'')])" "storable recorder_env (sample_backward, [])"
  by (simp_all add: storable_def node_storable_def blobs_ok_def recorder_env_def recorder_codecs_def sample_forward_def
      sample_backward_def new_patch_node_def compute_cost_def is_primitive_def op_codes serialize_def)

lemma sample_nodes_bytes:
  obtains b c where "rmap (\<lambda>(p, ts). node_serialize (codec recorder_env) (ser recorder_env) ts p)
      [(sample_forward, [(1, 0, PStr ''a'')]), (sample_backward, [])] = Inr [b, c]"
    "short (concat [b, c])"
proof -
  let ?K = "codec recorder_env" and ?s = "ser recorder_env"
  have st: "node_storable sample_forward" "node_storable sample_backward"
    using sample_nodes_storable by (simp_all add: storable_def)
  have "node_serialize ?K ?s [(1, 0, PStr ''a'')] sample_forward = Inr (concat (map field_enc (node_fields sample_forward [7] [8] [0])))"
    by (rule node_serialize_fields [OF st(1)])
      (simp_all add: recorder_env_def recorder_codecs_def sample_forward_def new_patch_node_def is_primitive_def serialize_def)
  moreover have "node_serialize ?K ?s [] sample_backward = Inr (concat (map field_enc (node_fields sample_backward [0] [0] [1])))"
    by (rule node_serialize_fields [OF st(2)])
      (simp_all add: recorder_env_def recorder_codecs_def sample_backward_def new_patch_node_def is_primitive_def serialize_def)
  moreover have "short (concat [concat (map field_enc (node_fields sample_forward [7] [8] [0])),
      concat (map field_enc (node_fields sample_backward [0] [0] [1]))])"
    by (simp add: short_def node_fields_def sample_forward_def sample_backward_def new_patch_node_def path_numbers_def
        value_types_def)
  ultimately show ?thesis by (intro that) simp_all
qed

theorem appended_patches_load_witness:
  "\<exists>g g1 g2 g3 pg. queued (g :: nat segment) = [(sample_forward, [(1, 0, PStr ''a'')]), (sample_backward, [])] \<and>
     execute_append_que recorder_env g = Inr g1 \<and> collapse_append_mode recorder_env g1 = Inr g2 \<and>
     load_everything recorder_env (new_segment (get_binary g2) 217 (Some 1) (Some 2) None) = Inr g3 \<and>
     tree (storage_of g3) = tree (storage_of g) \<and> graph (storage_of g3) = Some pg \<and>
     seg_game_state g3 = Some (VList ''list'' [VNone])"
proof -
  from sample_que obtain g :: "nat segment" where g: "recording recorder_env (sample_meta\<lparr>is_fragmented := True, last_time := 160\<rparr>)
       (replicate segment_metadata_size 0) [1, 1] [1, 8] new_path_tree [] [] [] g"
    and q: "queued g = [(sample_forward, [(1, 0, PStr ''a'')]), (sample_backward, [])]"
    and l: "last_game_state (storage_of g) = Some VNone" by blast
  from sample_nodes_bytes obtain b c where bc: "rmap (\<lambda>(p, ts). node_serialize (codec recorder_env) (ser recorder_env) ts p)
      [(sample_forward, [(1, 0, PStr ''a'')]), (sample_backward, [])] = Inr [b, c]" "short (concat [b, c])" by blast
  have "\<forall>p \<in> set [sample_forward, sample_backward]. 0 < node_cost p"
    by (simp add: sample_forward_def sample_backward_def new_patch_node_def compute_cost_def)
  from build_ok [OF this] obtain pg where
    pg: "rbind (rfold add_edge_and_vertices [sample_forward, sample_backward] new_patch_graph) finalize = Inr pg" by blast
  have u: "unpack_path_tree recorder_env [8] = Inr (new_path_tree :: nat path_tree)"
    by (simp add: unpack_path_tree_def recorder_env_def link_node_def new_path_tree_def decode_le_bytes [of "CS 4" "-1", simplified])
  have "\<exists>g1 g2 g3. execute_append_que recorder_env g = Inr g1 \<and> collapse_append_mode recorder_env g1 = Inr g2 \<and>
    load_everything recorder_env (new_segment (get_binary g2) 217 (Some 1) (Some 2) None) = Inr g3 \<and>
    tree (storage_of g3) = tree (storage_of g) \<and> graph (storage_of g3) = Some pg \<and>
    metadata (storage_of g3) = Some (sample_meta\<lparr>is_fragmented := True, last_time := 160, current_patches := 2\<rparr>) \<and>
    seg_game_state g3 = Some (VList ''list'' [VNone])"
    by (rule appended_patches_load [OF g _ _ _ _ _ _ _ bc(1) [folded q] _ l, where lb = "[1]" and ib = "[1]" and tb = "[8]"])
      (use bc(2) sample_nodes_storable pg u in \<open>simp_all add: q sample_meta_def int32_fields_def map_id_storable_def
        utf8_encode_def recorder_env_def recorder_codecs_def serialize_def deserialize_def lossless_def short_def
        index_position_def segment_metadata_size_def segment_format_def from_raw.simps\<close>)
  with q show ?thesis by blast
qed

end
