(* ===== verification/Timeline.thy ===== *)
theory Timeline
  imports Segment "HOL-Library.Option_ord" "HOL-Library.Product_Lexorder"
begin

text \<open>
  The timeline of a replay file (\<open>replay/replay_timeline.py\<close>): the segments by interval, the file
  format around them, and the routing of patches to the open segment.

  The file is its bytes, or absent; zstd is a parameter (\<open>zcompress\<close>, \<open>zdecompress\<close>).  A segment
  is found and changed through its key, because the code's local variable is the object in the
  dict.  Not modelled: the static map data (JSON files) and linking objects to the interface.
\<close>

subsection \<open>State\<close>

datatype tl_mode = Read_mode | Append_mode | Metadata_mode

type_synonym seg_key = "datetime \<times> datetime option"

record tenv =
  senv_of :: senv
  zcompress :: "bytes \<Rightarrow> bytes"
  zdecompress :: "bytes \<Rightarrow> bytes result"

record 'r timeline =
  mode :: tl_mode
  is_open :: bool
  disk :: "bytes option"
  segments :: "(seg_key, 'r segment) dict"
  game_id :: "int option"
  player_id :: "int option"
  latest_version :: int
  time_stamp_cache :: "datetime list"
  tl_last_time :: "datetime option"
  timeline_meta :: "timeline_metadata option"

definition new_timeline :: "bytes option \<Rightarrow> tl_mode \<Rightarrow> int option \<Rightarrow> int option \<Rightarrow> 'r timeline" where
  "new_timeline file md gid pid =
     \<lparr>mode = md, is_open = False, disk = file, segments = [], game_id = gid, player_id = pid,
      latest_version = -1, time_stamp_cache = [], tl_last_time = None, timeline_meta = None\<rparr>"

definition REPLAY_MAGIC :: bytes where
  "REPLAY_MAGIC = map of_char ''RPLYZSTD''"

definition REPLAY_VERSION :: int where "REPLAY_VERSION = 3"

definition DEFAULT_MAX_PATCHES :: nat where "DEFAULT_MAX_PATCHES = 10000"

definition header_format :: "code list" where
  "header_format = [CS 8, CS 8, CS 4, CU 8]"

subsection \<open>Order of the segments\<close>

text \<open>\<open>sorted\<close> on the keys compares the ends of two intervals only when they start at the same time,
  and raises when one of these ends is \<open>None\<close>.\<close>

definition key_clash :: "seg_key \<Rightarrow> seg_key \<Rightarrow> bool" where
  "key_clash k l \<longleftrightarrow> fst k = fst l \<and> (snd k = None) \<noteq> (snd l = None)"

definition sorted_items :: "(seg_key \<times> 'a) list \<Rightarrow> (seg_key \<times> 'a) list result" where
  "sorted_items d =
     (if list_ex (\<lambda>k. list_ex (key_clash k) (map fst d)) (map fst d) then Inl TypeError
      else Inr (sort_key fst d))"

fun check_neighbours :: "seg_key list \<Rightarrow> unit result" where
  "check_neighbours ((s, e) # (s', e') # ks) =
     (case e of
        None \<Rightarrow> Inl ValueError
      | Some prev_end \<Rightarrow> if s' < prev_end then Inl ValueError else check_neighbours ((s', e') # ks))"
| "check_neighbours _ = Inr ()"

definition validate_segments_non_overlapping :: "'r timeline \<Rightarrow> unit result" where
  "validate_segments_non_overlapping tln =
     (if segments tln = [] then Inr ()
      else rbind (sorted_items (segments tln)) (\<lambda>d. check_neighbours (map fst d)))"

subsection \<open>The file\<close>

definition read_exact :: "int \<Rightarrow> bytes \<Rightarrow> (bytes \<times> bytes) result" where
  "read_exact n bs = (if int (length bs) < n then Inl EOFError else Inr (take (nat n) bs, drop (nat n) bs))"

text \<open>The segment loop of \<open>read_from_disk\<close>.  The writer never writes a start of \<open>-1\<close>, the code for an
  absent time; it is an error here.\<close>

function parse_segments ::
    "int option \<Rightarrow> int option \<Rightarrow> bytes \<Rightarrow> (seg_key, 'r segment) dict \<Rightarrow> (seg_key, 'r segment) dict result" where
  "parse_segments gid pid bs result =
     (if bs = [] then Inr result
      else if length bs < calcsizes header_format then Inl EOFError
      else
        case unpack_items header_format (take (calcsizes header_format) bs) of
          [SI start_ns, SI end_ns, SI ver, SI sz] \<Rightarrow>
            rbind (read_exact sz (drop (calcsizes header_format) bs)) (\<lambda>(payload, rest).
              case ns_to_dt start_ns of
                None \<Rightarrow> Inl TypeError
              | Some start \<Rightarrow>
                  parse_segments gid pid rest
                    (dict_set result (start, ns_to_dt end_ns) (new_segment payload ver gid pid None)))
        | _ \<Rightarrow> Inl StructError)"
  by pat_completeness auto
termination
  by (relation "measure (\<lambda>(_, _, bs, _). length bs)") (auto simp: read_exact_def header_format_def split: if_splits)

definition read_from_disk :: "tenv \<Rightarrow> 'r timeline \<Rightarrow> 'r timeline result" where
  "read_from_disk Z tln =
     rbind (py_assert (\<not> is_open tln)) (\<lambda>_.
     rbind (need FileNotFoundError (disk tln)) (\<lambda>file.
     case zdecompress Z file of
       Inl _ \<Rightarrow> Inl RuntimeError
     | Inr bs \<Rightarrow>
         rbind (read_exact (int (length REPLAY_MAGIC)) bs) (\<lambda>(magic, bs).
         if magic \<noteq> REPLAY_MAGIC then Inl ValueError
         else
         rbind (read_exact 4 bs) (\<lambda>(v, bs).
         if le_uint v \<noteq> REPLAY_VERSION then Inl ValueError
         else
         rbind (read_exact (int timeline_metadata_size) bs) (\<lambda>(meta_bytes, bs).
         rbind (timeline_metadata_deserialize meta_bytes) (\<lambda>m.
         rbind (parse_segments (game_id tln) (player_id tln) bs []) (\<lambda>segs.
         let tln = tln\<lparr>timeline_meta := Some m, segments := segs\<rparr> in
         rbind (validate_segments_non_overlapping tln) (\<lambda>_.
           Inr (tln\<lparr>latest_version := (if segs = [] then -1
             else Max (set (map (\<lambda>(_, g). seg_version g) segs)))\<rparr>)))))))))"

definition segment_record :: "seg_key \<times> 'r segment \<Rightarrow> bytes result" where
  "segment_record x =
     (case x of ((start, fin), g) \<Rightarrow>
        rbind (struct_pack header_format [SI (dt_to_ns (Some start)), SI (dt_to_ns fin), SI (seg_version g),
                 SI (int (length (get_binary g)))])
          (\<lambda>header. Inr (header @ get_binary g)))"

definition write_to_disk :: "tenv \<Rightarrow> 'r timeline \<Rightarrow> 'r timeline result" where
  "write_to_disk Z tln =
     rbind (sorted_items (segments tln)) (\<lambda>ordered_items.
     rbind (validate_segments_non_overlapping tln) (\<lambda>_.
     let m = (case timeline_meta tln of
                None \<Rightarrow> \<lparr>game_ended = False, start_of_game = 0, end_of_game = 0,
                  tm_game_id = (case game_id tln of Some i \<Rightarrow> i | None \<Rightarrow> 0),
                  tm_player_id = (case player_id tln of Some i \<Rightarrow> i | None \<Rightarrow> 0),
                  scenario_id = 0, day_of_game = 0, speed = 0, segment_count = int (length ordered_items)\<rparr>
              | Some m \<Rightarrow> m\<lparr>segment_count := int (length ordered_items)\<rparr>) in
     rbind (timeline_metadata_serialize m) (\<lambda>mb.
     rbind (rmap segment_record ordered_items) (\<lambda>records.
       Inr (tln\<lparr>timeline_meta := Some m,
         disk := Some (zcompress Z (REPLAY_MAGIC @ le_bytes 4 REPLAY_VERSION @ mb @ concat records))\<rparr>)))))"

subsection \<open>Finding segments\<close>

definition find_open_segment :: "int \<Rightarrow> 'r timeline \<Rightarrow> (seg_key \<times> 'r segment) option" where
  "find_open_segment version tln =
     List.find (\<lambda>(k, g). snd k = None \<and> seg_version g = version) (segments tln)"

definition covers :: "datetime \<Rightarrow> seg_key \<Rightarrow> bool" where
  "covers time k \<longleftrightarrow> fst k < time \<and> (case snd k of None \<Rightarrow> True | Some e \<Rightarrow> e \<ge> time)"

definition find_segment :: "datetime \<Rightarrow> 'r timeline \<Rightarrow> 'r segment option" where
  "find_segment time tln = map_option snd (List.find (\<lambda>(k, _). covers time k) (segments tln))"

fun last_key_loop :: "(seg_key \<times> 'a) list \<Rightarrow> datetime \<Rightarrow> (seg_key \<times> 'a) option \<Rightarrow> (seg_key \<times> 'a) option" where
  "last_key_loop [] latest found = found"
| "last_key_loop (x # xs) latest found =
     (if fst (fst x) > latest then last_key_loop xs (fst (fst x)) (Some x) else last_key_loop xs latest found)"

definition find_last_key_segment :: "'r timeline \<Rightarrow> (seg_key \<times> 'r segment) option" where
  "find_last_key_segment tln = last_key_loop (segments tln) 0 None"

definition find_last_segment :: "'r timeline \<Rightarrow> 'r segment option" where
  "find_last_segment tln = map_option snd (last_key_loop (segments tln) 0 None)"

fun first_loop :: "(seg_key \<times> 'a) list \<Rightarrow> datetime \<Rightarrow> 'a option \<Rightarrow> 'a option" where
  "first_loop [] earliest found = found"
| "first_loop (x # xs) earliest found =
     (if fst (fst x) < earliest then first_loop xs (fst (fst x)) (Some (snd x)) else first_loop xs earliest found)"

definition find_first_segment :: "'r timeline \<Rightarrow> 'r segment option result" where
  "find_first_segment tln =
     rbind (have_attr (find_last_segment tln)) (\<lambda>g.
     rbind (get_last_time g) (\<lambda>first. Inr (first_loop (segments tln) first None)))"

definition tl_get_start_time :: "'r timeline \<Rightarrow> datetime result" where
  "tl_get_start_time tln = rbind (find_first_segment tln) (\<lambda>x. rbind (have_attr x) get_start_time)"

definition tl_get_last_time :: "'r timeline \<Rightarrow> datetime result" where
  "tl_get_last_time tln = rbind (have_attr (find_last_segment tln)) get_last_time"

subsection \<open>Opening and closing\<close>

definition each_segment :: "('r segment \<Rightarrow> 'r segment result) \<Rightarrow> 'r timeline \<Rightarrow> 'r timeline result" where
  "each_segment f tln =
     rbind (rmap (\<lambda>(k, g). rbind (f g) (\<lambda>g. Inr (k, g))) (segments tln)) (\<lambda>d. Inr (tln\<lparr>segments := d\<rparr>))"

definition tl_open :: "tenv \<Rightarrow> 'r timeline \<Rightarrow> 'r timeline result" where
  "tl_open Z tln =
     (if is_open tln then Inr tln
      else
        rbind (if disk tln = None
               then (if mode tln = Append_mode then Inr tln else Inl FileNotFoundError)
               else read_from_disk Z tln) (\<lambda>tln.
        rbind (case mode tln of
                 Append_mode \<Rightarrow>
                   (case find_last_key_segment tln of
                      None \<Rightarrow> Inr tln
                    | Some (k, g) \<Rightarrow> rbind (load_append_mode (senv_of Z) g) (\<lambda>g.
                        Inr (tln\<lparr>segments := dict_set (segments tln) k g\<rparr>)))
               | Read_mode \<Rightarrow> each_segment (load_everything (senv_of Z)) tln
               | Metadata_mode \<Rightarrow>
                   each_segment (\<lambda>g. rbind (on_storage read_metadata_from_disk g) (on_storage load_metadata)) tln) (\<lambda>tln.
          Inr (tln\<lparr>is_open := True\<rparr>))))"

definition tl_close :: "tenv \<Rightarrow> 'r timeline \<Rightarrow> 'r timeline result" where
  "tl_close Z tln =
     (if \<not> is_open tln then Inr tln
      else
        rbind (if mode tln = Append_mode
               then each_segment (\<lambda>g. if metadata (storage_of g) = None then Inr g
                                      else collapse_append_mode (senv_of Z) g) tln
               else Inr tln) (\<lambda>tln.
        rbind (write_to_disk Z tln) (\<lambda>tln. Inr (tln\<lparr>is_open := False\<rparr>))))"

definition set_mode :: "tenv \<Rightarrow> tl_mode \<Rightarrow> 'r timeline \<Rightarrow> 'r timeline result" where
  "set_mode Z md tln =
     (if md = mode tln then Inr tln
      else if is_open tln then rbind (tl_close Z tln) (\<lambda>tln. tl_open Z (tln\<lparr>mode := md\<rparr>))
      else Inr (tln\<lparr>mode := md\<rparr>))"

definition tl_set_last_game_state :: "val \<Rightarrow> 'r timeline \<Rightarrow> 'r timeline result" where
  "tl_set_last_game_state v tln =
     rbind (need TypeError (find_open_segment (latest_version tln) tln)) (\<lambda>(k, g).
       Inr (tln\<lparr>segments := dict_set (segments tln) k (seg_set_last_game_state v g)\<rparr>))"

definition tl_get_last_game_state :: "'r timeline \<Rightarrow> val option" where
  "tl_get_last_game_state tln =
     (case find_open_segment (latest_version tln) tln of None \<Rightarrow> None | Some (_, g) \<Rightarrow> seg_get_last_game_state g)"

definition to_unix_seconds :: "datetime option \<Rightarrow> int" where
  "to_unix_seconds dt = (case dt of None \<Rightarrow> 0 | Some t \<Rightarrow> dt_seconds t)"

definition set_metadata ::
    "bool \<Rightarrow> datetime option \<Rightarrow> datetime option \<Rightarrow> int \<Rightarrow> int option \<Rightarrow> int \<Rightarrow> 'r timeline \<Rightarrow> 'r timeline" where
  "set_metadata ended sog eog scenario day spd tln =
     tln\<lparr>timeline_meta := Some \<lparr>game_ended = ended, start_of_game = to_unix_seconds sog, end_of_game = to_unix_seconds eog,
        tm_game_id = (case game_id tln of Some i \<Rightarrow> i | None \<Rightarrow> 0),
        tm_player_id = (case player_id tln of Some i \<Rightarrow> i | None \<Rightarrow> 0),
        scenario_id = scenario, day_of_game = (case day of Some d \<Rightarrow> d | None \<Rightarrow> 0), speed = spd,
        segment_count = int (length (segments tln))\<rparr>\<rparr>"

definition set_day_of_game :: "int \<Rightarrow> 'r timeline \<Rightarrow> 'r timeline" where
  "set_day_of_game d tln = tln\<lparr>timeline_meta := map_option (\<lambda>m. m\<lparr>day_of_game := d\<rparr>) (timeline_meta tln)\<rparr>"

definition set_game_ended :: "bool \<Rightarrow> 'r timeline \<Rightarrow> 'r timeline" where
  "set_game_ended b tln = tln\<lparr>timeline_meta := map_option (\<lambda>m. m\<lparr>game_ended := b\<rparr>) (timeline_meta tln)\<rparr>"

definition set_game_end :: "datetime option \<Rightarrow> 'r timeline \<Rightarrow> 'r timeline" where
  "set_game_end e tln = tln\<lparr>timeline_meta := map_option (\<lambda>m. m\<lparr>end_of_game := to_unix_seconds e\<rparr>) (timeline_meta tln)\<rparr>"

subsection \<open>Recording\<close>

definition close_segment :: "seg_key \<Rightarrow> datetime \<Rightarrow> 'r timeline \<Rightarrow> 'r timeline result" where
  "close_segment k close_timestamp tln =
     rbind (dict_pop (segments tln) k) (\<lambda>(g, d).
       Inr (tln\<lparr>segments := dict_set d (fst k, Some close_timestamp) g\<rparr>))"

definition close_last_segment :: "'r timeline \<Rightarrow> 'r timeline result" where
  "close_last_segment tln =
     (case find_last_key_segment tln of
        None \<Rightarrow> Inr tln
      | Some (k, g) \<Rightarrow> rbind (get_last_time g) (\<lambda>t. close_segment k t tln))"

definition create_segment ::
    "senv \<Rightarrow> val option \<Rightarrow> int \<Rightarrow> datetime \<Rightarrow> string option \<Rightarrow> 'r timeline \<Rightarrow> 'r timeline result" where
  "create_segment E current_game_state version from_time mid tln =
     rbind (py_assert (mode tln = Append_mode)) (\<lambda>_.
     rbind (need AssertionError current_game_state) (\<lambda>v.
     rbind (close_last_segment tln) (\<lambda>tln.
     let g = seg_set_last_game_state v
               (new_segment [] version (game_id tln) (player_id tln) (Some DEFAULT_MAX_PATCHES));
         g = g\<lparr>storage_of := initialize DEFAULT_MAX_PATCHES (storage_of g)\<rparr> in
     rbind (case mid of None \<Rightarrow> Inr g
            | Some i \<Rightarrow> on_storage (set_metadata_fields (\<lambda>m. m\<lparr>map_id := i\<rparr>)) g) (\<lambda>g.
     rbind (record_initial_game_state E v from_time (game_id tln) (player_id tln) g) (\<lambda>g.
     rbind (collapse_all E g) (\<lambda>g.
     rbind (load_everything E g) (\<lambda>g.
       Inr (tln\<lparr>segments := dict_set (segments tln) (from_time, None) g, time_stamp_cache := []\<rparr>))))))))"

definition extend_segment :: "senv \<Rightarrow> 'r segment \<Rightarrow> 'r segment result" where
  "extend_segment E g =
     rbind (seg_metadata g) (\<lambda>m.
     rbind (collapse_all E g) (\<lambda>g.
       load_append_mode E (set_max_patches (nat (current_patches m * 2)) g)))"

text \<open>The retry loop: an \<open>IndexError\<close> of the segment extends it, and the loop ends after the given
  number of attempts without an error.\<close>

fun append_retry ::
    "senv \<Rightarrow> nat \<Rightarrow> datetime \<Rightarrow> int option \<Rightarrow> int option \<Rightarrow> bireplay_patch option \<Rightarrow> 'r segment \<Rightarrow> 'r segment result" where
  "append_retry E 0 ts gid pid rp g = Inr g"
| "append_retry E (Suc n) ts gid pid rp g =
     (case que_append_patch ts gid pid rp g of
        Inr g' \<Rightarrow> Inr g'
      | Inl e \<Rightarrow> if e = IndexError then rbind (extend_segment E g) (append_retry E n ts gid pid rp) else Inl e)"

definition tl_que_append_patch ::
    "senv \<Rightarrow> int \<Rightarrow> datetime \<Rightarrow> bireplay_patch option \<Rightarrow> val option \<Rightarrow> string option \<Rightarrow> 'r timeline \<Rightarrow> 'r timeline result" where
  "tl_que_append_patch E version to_time_stamp replay_patch current_game_state mid tln =
     rbind (py_assert (mode tln = Append_mode)) (\<lambda>_.
     rbind (case find_open_segment version tln of
              Some (k, _) \<Rightarrow> Inr (tln, k)
            | None \<Rightarrow> rbind (create_segment E current_game_state version to_time_stamp mid tln) (\<lambda>tln.
                Inr (tln, (to_time_stamp, None)))) (\<lambda>(tln, k).
     rbind (dict_lookup (segments tln) k) (\<lambda>g.
     rbind (append_retry E 2 to_time_stamp (game_id tln) (player_id tln) replay_patch g) (\<lambda>g.
       Inr (tln\<lparr>segments := dict_set (segments tln) k g, tl_last_time := Some to_time_stamp\<rparr>)))))"

definition tl_execute_append_que :: "senv \<Rightarrow> 'r timeline \<Rightarrow> 'r timeline result" where
  "tl_execute_append_que E tln =
     rbind (py_assert (mode tln = Append_mode)) (\<lambda>_. each_segment (execute_append_que E) tln)"

subsection \<open>Queries\<close>

definition segment_times :: "'r segment \<Rightarrow> int list result" where
  "segment_times g = rbind (have_attr (graph (storage_of g))) (\<lambda>pg. Inr (time_stamps_cache pg))"

definition get_timestamp_cache :: "'r timeline \<Rightarrow> (datetime list \<times> 'r timeline) result" where
  "get_timestamp_cache tln =
     (if time_stamp_cache tln \<noteq> [] then Inr (time_stamp_cache tln, tln)
      else rbind (rmap (\<lambda>(_, g). segment_times g) (segments tln)) (\<lambda>tss.
        let cache = sort (map (\<lambda>x. x * 10 ^ 6) (rev (remdups (rev (concat tss)))))
        in Inr (cache, tln\<lparr>time_stamp_cache := cache\<rparr>)))"

definition get_segments_metadata :: "'r timeline \<Rightarrow> (seg_key, segment_metadata) dict" where
  "get_segments_metadata tln =
     concat (map (\<lambda>(k, g). case metadata (storage_of g) of None \<Rightarrow> [] | Some m \<Rightarrow> [(k, m)]) (segments tln))"


subsection \<open>Reading what was written\<close>

definition key_storable :: "seg_key \<Rightarrow> bool" where
  "key_storable k \<longleftrightarrow> 0 \<le> fst k \<and> fst k < 2 ^ 31 * 10 ^ 6 \<and>
     (case snd k of None \<Rightarrow> True | Some e \<Rightarrow> 0 \<le> e \<and> e < 2 ^ 31 * 10 ^ 6)"

definition reread :: "int option \<Rightarrow> int option \<Rightarrow> seg_key \<times> 'r segment \<Rightarrow> seg_key \<times> 'r segment" where
  "reread gid pid x = (fst x, new_segment (get_binary (snd x)) (seg_version (snd x)) gid pid None)"

lemma key_storable_times:
  "key_storable (s, e) \<Longrightarrow> ns_to_dt (dt_to_ns (Some s)) = Some s" "key_storable (s, e) \<Longrightarrow> ns_to_dt (dt_to_ns e) = e"
  by (rule ns_roundtrip, auto simp: key_storable_def)+

lemma header_faithful:
  "struct_pack header_format [SI a, SI b, SI c, SI d] = Inr h \<Longrightarrow>
   list_all2 faithful header_format [SI a, SI b, SI c, SI d]"
  by (auto simp: header_format_def rbind_eq_Inr_iff pack_int_def split: if_splits)

lemma parse_record:
  assumes r: "segment_record ((s, e), g) = Inr r" and k: "key_storable (s, e)"
  shows "parse_segments gid pid (r @ rest) result =
    parse_segments gid pid rest (dict_set result (s, e) (new_segment (get_binary g) (seg_version g) gid pid None))"
proof -
  let ?vs = "[SI (dt_to_ns (Some s)), SI (dt_to_ns e), SI (seg_version g), SI (int (length (get_binary g)))]"
  from r obtain h where h: "struct_pack header_format ?vs = Inr h" "r = h @ get_binary g"
    by (auto simp: segment_record_def rbind_eq_Inr_iff)
  from struct_roundtrip [OF header_faithful [OF h(1)]] h(1)
  have u: "length h = 28" "unpack_items header_format (h @ []) = ?vs"
    by (auto simp: header_format_def)
  have c: "calcsizes header_format = 28" by (simp add: header_format_def)
  have "r @ rest \<noteq> []" using u(1) h(2) by auto
  then show ?thesis
    using u key_storable_times [OF k] h(2)
    by (subst parse_segments.simps) (simp add: c read_exact_def)
qed

lemma parse_records:
  assumes "rmap segment_record d = Inr rs" "list_all (key_storable \<circ> fst) d" "distinct (map fst (result @ d))"
  shows "parse_segments gid pid (concat rs) result = Inr (result @ map (reread gid pid) d)"
  using assms
proof (induction d arbitrary: rs result)
  case Nil
  then show ?case by (simp add: parse_segments.simps)
next
  case (Cons x d)
  obtain s e g where x: "x = ((s, e), g)" by (cases x) auto
  from Cons.prems(1) obtain r rs' where r: "segment_record ((s, e), g) = Inr r" "rmap segment_record d = Inr rs'"
    "rs = r # rs'" by (auto simp: x rbind_eq_Inr_iff)
  let ?n = "new_segment (get_binary g) (seg_version g) gid pid None"
  have k: "key_storable (s, e)" using Cons.prems(2) by (simp add: x)
  have f: "dict_set result (s, e) ?n = result @ [((s, e), ?n)]"
    using Cons.prems(3) by (intro dict_set_fresh) (auto simp: x)
  show ?case
    using Cons.IH [OF r(2), of "result @ [((s, e), ?n)]"] Cons.prems(2,3) parse_record [OF r(1) k, of gid pid "concat rs'" result]
    by (simp add: f r(3) x reread_def)
qed

lemma timeline_serialize_int32: "timeline_metadata_serialize m = Inr mb \<Longrightarrow> timeline_int32 m"
  by (auto simp: timeline_metadata_serialize_def timeline_format_def timeline_int32_def numeral_eq_Suc
      rbind_eq_Inr_iff pack_int_def split: if_splits)

lemma sorted_items_map_fst:
  assumes "sorted_items d = Inr d'"
  shows "mset d' = mset d" "sorted (map fst d')" "sorted_items d' = Inr d'"
proof -
  have d': "d' = sort_key fst d" and c: "\<not> list_ex (\<lambda>k. list_ex (key_clash k) (map fst d)) (map fst d)"
    using assms by (auto simp: sorted_items_def split: if_splits)
  show "mset d' = mset d" "sorted (map fst d')" by (simp_all add: d')
  then have "sort_key fst d' = d'" by (simp add: sort_key_id_if_sorted)
  moreover have "set (map fst d') = set (map fst d)" by (simp add: d')
  ultimately show "sorted_items d' = Inr d'" using c by (simp add: sorted_items_def list_ex_iff)
qed

lemma sorted_items_keys:
  assumes "sorted_items d = Inr d" "map fst d' = map fst d"
  shows "sorted_items d' = Inr d'"
proof -
  have "sorted (map fst d)" by (rule sorted_items_map_fst(2) [OF assms(1)])
  then have "sort_key fst d' = d'" by (simp add: sort_key_id_if_sorted flip: assms(2))
  moreover have "\<not> list_ex (\<lambda>k. list_ex (key_clash k) (map fst d')) (map fst d')"
    using assms by (auto simp: sorted_items_def split: if_splits)
  ultimately show ?thesis by (simp add: sorted_items_def)
qed


subsection \<open>Intervals\<close>

definition before :: "seg_key \<Rightarrow> seg_key \<Rightarrow> bool" where
  "before k l \<longleftrightarrow> (case snd k of None \<Rightarrow> False | Some e \<Rightarrow> e \<le> fst l)"

definition apart :: "seg_key set \<Rightarrow> bool" where
  "apart K \<longleftrightarrow> (\<forall>k \<in> K. \<forall>l \<in> K. \<not> key_clash k l \<and> (k < l \<longrightarrow> before k l))"

lemma check_neighbours_iff:
  "sorted (map fst ks) \<Longrightarrow> check_neighbours ks = Inr () \<longleftrightarrow> sorted_wrt before ks"
proof (induction ks rule: check_neighbours.induct)
  case (1 s e s' e' ks)
  have "before (s, e) k" if "before (s, e) (s', e')" "k \<in> set ks" for k
    using that "1.prems" by (force simp: before_def split: option.splits)
  then have "sorted_wrt before ((s, e) # (s', e') # ks) \<longleftrightarrow> before (s, e) (s', e') \<and> sorted_wrt before ((s', e') # ks)"
    by auto
  with 1 show ?case by (cases e) (auto simp: before_def)
qed auto

lemma sorted_wrt_pairs:
  fixes ks :: "'a::linorder list"
  assumes "sorted ks" "distinct ks"
  shows "sorted_wrt P ks \<longleftrightarrow> (\<forall>k \<in> set ks. \<forall>l \<in> set ks. k < l \<longrightarrow> P k l)"
  using assms
proof (induction ks)
  case (Cons k ks)
  then have "k < l" if "l \<in> set ks" for l using that by (auto simp: order.strict_iff_order)
  with Cons show ?case by (auto dest: less_asym)
qed simp

lemma find_SomeD: "List.find P xs = Some x \<Longrightarrow> x \<in> set xs \<and> P x"
  by (induction xs) (auto split: if_splits)

lemma sorted_keys_starts: "sorted ks \<Longrightarrow> sorted (map fst (ks :: seg_key list))"
  by (induction ks) (auto simp: less_eq_prod_def)

lemma validate_iff:
  assumes "dict_wf (segments tln)"
  shows "validate_segments_non_overlapping tln = Inr () \<longleftrightarrow> apart (fst ` set (segments tln))"
proof -
  let ?d = "segments tln"
  show ?thesis
  proof (cases "list_ex (\<lambda>k. list_ex (key_clash k) (map fst ?d)) (map fst ?d)")
    case True
    then have "\<not> apart (fst ` set ?d)" by (force simp: apart_def list_ex_iff)
    moreover have "?d \<noteq> []" using True by auto
    ultimately show ?thesis using True by (simp add: validate_segments_non_overlapping_def sorted_items_def)
  next
    case False
    let ?ks = "map fst (sort_key fst ?d)"
    have s: "sorted ?ks" "distinct ?ks" "set ?ks = fst ` set ?d"
      using assms by (simp_all add: distinct_map)
    then have "check_neighbours ?ks = Inr () \<longleftrightarrow> (\<forall>k \<in> fst ` set ?d. \<forall>l \<in> fst ` set ?d. k < l \<longrightarrow> before k l)"
      using check_neighbours_iff [OF sorted_keys_starts [OF s(1)]] sorted_wrt_pairs [OF s(1,2), of before] by simp
    with False show ?thesis
      by (auto simp: validate_segments_non_overlapping_def sorted_items_def apart_def list_ex_iff)
  qed
qed

lemma apart_covers: "apart K \<Longrightarrow> k \<in> K \<Longrightarrow> l \<in> K \<Longrightarrow> covers t k \<Longrightarrow> covers t l \<Longrightarrow> k = l"
  by (cases k l rule: linorder_cases) (force simp: apart_def before_def covers_def split: option.splits)+

lemma last_key_loop_cases:
  "last_key_loop xs t f = f \<and> (\<forall>y \<in> set xs. fst (fst y) \<le> t) \<or>
   (\<exists>x \<in> set xs. last_key_loop xs t f = Some x \<and> t < fst (fst x) \<and> (\<forall>y \<in> set xs. fst (fst y) \<le> fst (fst x)))"
proof (induction xs arbitrary: t f)
  case (Cons x xs)
  show ?case
  proof (cases "t < fst (fst x)")
    case True
    then show ?thesis using Cons.IH [of "fst (fst x)" "Some x"] by (elim disjE bexE) auto
  next
    case False
    then show ?thesis using Cons.IH [of t f] by (elim disjE bexE) auto
  qed
qed simp

lemma last_key_loop_spec:
  assumes "\<forall>x \<in> set xs. t < fst (fst x)" "xs \<noteq> []"
  shows "\<exists>x. last_key_loop xs t f = Some x \<and> x \<in> set xs \<and> (\<forall>y \<in> set xs. fst (fst y) \<le> fst (fst x))"
  using last_key_loop_cases [of xs t f] assms by (cases xs) (auto simp: not_le [symmetric] simp del: last_key_loop.simps)

subsection \<open>Properties\<close>

definition zlossless :: "tenv \<Rightarrow> bool" where
  "zlossless Z \<longleftrightarrow> (\<forall>b. zdecompress Z (zcompress Z b) = Inr b)"

text \<open>C11: a timeline that \<open>_write_to_disk\<close> wrote is read back: the same metadata, and the same segments
  with their intervals, versions and bytes, in the order of their intervals.  The times have to lie
  before 2038 and zstd has to be lossless.\<close>

theorem timeline_reads_back:
  assumes w: "write_to_disk Z tln = Inr tln'" and z: "zlossless Z" and wf: "dict_wf (segments tln)"
    and k: "list_all (key_storable \<circ> fst) (segments tln)"
  shows "\<exists>r. read_from_disk Z (new_timeline (disk tln') md gid pid) = Inr r \<and>
     segments r = map (reread gid pid) (sort_key fst (segments tln)) \<and> timeline_meta r = timeline_meta tln'"
proof -
  from w obtain d m mb rs where w':
    "sorted_items (segments tln) = Inr d" "validate_segments_non_overlapping tln = Inr ()"
    "timeline_metadata_serialize m = Inr mb" "rmap segment_record d = Inr rs" "timeline_meta tln' = Some m"
    "disk tln' = Some (zcompress Z (REPLAY_MAGIC @ le_bytes 4 REPLAY_VERSION @ mb @ concat rs))"
    by (auto simp: write_to_disk_def rbind_eq_Inr_iff Let_def)
  have d: "d = sort_key fst (segments tln)" using w'(1) by (simp add: sorted_items_def split: if_splits)
  have dm: "distinct (map fst d)" "list_all (key_storable \<circ> fst) d"
    using wf k by (simp_all add: d distinct_map list_all_iff)
  from timeline_serialize_ok [OF timeline_serialize_int32 [OF w'(3)]] w'(3)
  have mb: "length mb = timeline_metadata_size" "timeline_metadata_deserialize mb = Inr m" by auto
  have p: "parse_segments gid pid (concat rs) [] = Inr (map (reread gid pid) d)"
    using parse_records [OF w'(4) dm(2), of "[]" gid pid] dm(1) by simp
  let ?t = "(new_timeline (disk tln') md gid pid)\<lparr>timeline_meta := Some m, segments := map (reread gid pid) d\<rparr>"
  have mf: "map fst (map (reread gid pid) d) = map fst d" by (simp add: reread_def comp_def)
  have "fst ` set (map (reread gid pid) d) = fst ` set (segments tln)"
    by (simp add: d reread_def image_image)
  moreover have "dict_wf (segments ?t)" using dm(1) mf by (simp del: map_map)
  ultimately have v: "validate_segments_non_overlapping ?t = Inr ()"
    using w'(2) validate_iff [OF wf] validate_iff [of ?t] by simp
  have "le_uint (le_bytes 4 REPLAY_VERSION) = REPLAY_VERSION" by (simp add: le_uint_roundtrip REPLAY_VERSION_def)
  then show ?thesis
    using z mb p v w'(5,6) d
    by (simp add: read_from_disk_def new_timeline_def zlossless_def read_exact_def REPLAY_MAGIC_def)
qed

text \<open>C24: in a timeline whose segments do not overlap, \<open>find_segment\<close> finds the one segment whose
  interval contains the time after its start and up to its end, and nothing else.\<close>

theorem find_segment_unique:
  assumes "validate_segments_non_overlapping tln = Inr ()" and "dict_wf (segments tln)"
  shows "find_segment time tln = Some g \<longleftrightarrow> (\<exists>k. (k, g) \<in> set (segments tln) \<and> covers time k)"
proof
  assume "find_segment time tln = Some g"
  then show "\<exists>k. (k, g) \<in> set (segments tln) \<and> covers time k"
    by (auto simp: find_segment_def dest!: find_SomeD)
next
  assume "\<exists>k. (k, g) \<in> set (segments tln) \<and> covers time k"
  then obtain k where k: "(k, g) \<in> set (segments tln)" "covers time k" by blast
  have "List.find (\<lambda>(k, _). covers time k) (segments tln) \<noteq> None"
  proof
    assume "List.find (\<lambda>(k, _). covers time k) (segments tln) = None"
    with k show False by (cases k) (auto simp: find_None_iff)
  qed
  then obtain l h where l: "List.find (\<lambda>(k, _). covers time k) (segments tln) = Some (l, h)" by auto
  then have "(l, h) \<in> set (segments tln)" "covers time l"
    by (auto dest!: find_SomeD)
  moreover from this k have "l = k"
    using apart_covers [OF assms(1) [unfolded validate_iff [OF assms(2)]]] by (metis fst_conv image_eqI)
  ultimately have "h = g" using k(1) assms(2) by (metis map_of_is_SomeI option.inject)
  with l show "find_segment time tln = Some g" by (simp add: find_segment_def)
qed


definition sample_tenv :: tenv where
  "sample_tenv = \<lparr>senv_of = recorder_env, zcompress = (\<lambda>b. 40 # b), zdecompress = (\<lambda>b. Inr (tl b))\<rparr>"

definition sample_timeline :: "nat timeline" where
  "sample_timeline = (new_timeline None Append_mode (Some 1) (Some 2))
     \<lparr>segments := [((2000000, None), new_segment [5, 6] 217 (Some 1) (Some 2) None),
                  ((1000000, Some 2000000), new_segment [7] 216 (Some 1) (Some 2) None)]\<rparr>"

lemma sample_timeline_wf: "dict_wf (segments sample_timeline)"
  by (simp add: sample_timeline_def)

lemma sample_timeline_apart: "validate_segments_non_overlapping sample_timeline = Inr ()"
  unfolding validate_iff [OF sample_timeline_wf]
  by (auto simp: sample_timeline_def apart_def key_clash_def before_def less_prod_def)

lemma key_ns_range:
  "key_storable k \<Longrightarrow> in_range (CS 8) (dt_to_ns (Some (fst k)))" "key_storable k \<Longrightarrow> in_range (CS 8) (dt_to_ns (snd k))"
proof -
  have r: "in_range (CS 8) (dt_to_ns (Some t))" if "0 \<le> t" "t < 2 ^ 31 * 10 ^ 6" for t
    using dt_to_ns_range [OF that] by simp
  show "key_storable k \<Longrightarrow> in_range (CS 8) (dt_to_ns (Some (fst k)))" unfolding key_storable_def by (intro r) simp_all
  show "in_range (CS 8) (dt_to_ns (snd k))" if "key_storable k"
  proof (cases "snd k")
    case (Some e)
    with that show ?thesis unfolding key_storable_def Some by (intro r) simp_all
  qed (simp add: dt_to_ns_def)
qed

lemma segment_record_ok:
  "key_storable k \<Longrightarrow> in_range (CS 4) (seg_version g) \<Longrightarrow> int (length (get_binary g)) < 2 ^ 64 \<Longrightarrow>
   \<exists>r. segment_record (k, g) = Inr r"
  using key_ns_range [of k] by (cases k) (simp add: segment_record_def header_format_def pack_int_def)

lemma sample_timeline_written: "\<exists>t. write_to_disk sample_tenv sample_timeline = Inr t"
proof -
  have k: "key_storable (1000000, Some 2000000)" "key_storable (2000000, None)"
    by (simp_all add: key_storable_def)
  let ?a = "new_segment [7] 216 (Some 1) (Some 2) None :: nat segment"
  let ?b = "new_segment [5, 6] 217 (Some 1) (Some 2) None :: nat segment"
  have s: "sorted_items (segments sample_timeline) = Inr [((1000000, Some 2000000), ?a), ((2000000, None), ?b)]"
    by (simp add: sorted_items_def sample_timeline_def key_clash_def sort_key_def)
  obtain ra rb where "segment_record ((1000000, Some 2000000), ?a) = Inr ra" "segment_record ((2000000, None), ?b) = Inr rb"
    using segment_record_ok [OF k(1), of ?a] segment_record_ok [OF k(2), of ?b]
    by (auto simp: new_segment_def get_binary_def new_storage_def)
  moreover have "\<exists>mb. timeline_metadata_serialize \<lparr>game_ended = False, start_of_game = 0, end_of_game = 0,
      tm_game_id = 1, tm_player_id = 2, scenario_id = 0, day_of_game = 0, speed = 0, segment_count = 2\<rparr> = Inr mb"
    using timeline_serialize_ok [of "\<lparr>game_ended = False, start_of_game = 0, end_of_game = 0,
      tm_game_id = 1, tm_player_id = 2, scenario_id = 0, day_of_game = 0, speed = 0, segment_count = 2\<rparr>"]
    by (auto simp: timeline_int32_def)
  ultimately show ?thesis
    by (auto simp: write_to_disk_def s sample_timeline_apart) (auto simp: sample_timeline_def new_timeline_def)
qed

theorem timeline_reads_back_witness:
  "\<exists>t r. write_to_disk sample_tenv sample_timeline = Inr t \<and>
     read_from_disk sample_tenv (new_timeline (disk t) Read_mode (Some 1) (Some 2)) = Inr r \<and>
     segments r = [((1000000, Some 2000000), new_segment [7] 216 (Some 1) (Some 2) None),
                   ((2000000, None), new_segment [5, 6] 217 (Some 1) (Some 2) None :: nat segment)]"
proof -
  from sample_timeline_written obtain t where t: "write_to_disk sample_tenv sample_timeline = Inr t" ..
  have "zlossless sample_tenv" by (simp add: zlossless_def sample_tenv_def)
  moreover have "list_all (key_storable \<circ> fst) (segments sample_timeline)"
    by (simp add: sample_timeline_def key_storable_def)
  ultimately obtain r where "read_from_disk sample_tenv (new_timeline (disk t) Read_mode (Some 1) (Some 2)) = Inr r"
    "segments r = map (reread (Some 1) (Some 2)) (sort_key fst (segments sample_timeline))"
    using timeline_reads_back [OF t _ sample_timeline_wf, of Read_mode "Some 1" "Some 2"] by blast
  with t show ?thesis
    by (auto simp: sample_timeline_def sort_key_def reread_def new_segment_def get_binary_def new_storage_def)
qed

theorem find_segment_unique_witness:
  "find_segment 1500000 sample_timeline = Some (new_segment [7] 216 (Some 1) (Some 2) None)"
proof -
  have "((1000000, Some 2000000), new_segment [7] 216 (Some 1) (Some 2) None) \<in> set (segments sample_timeline)"
    by (simp add: sample_timeline_def)
  moreover have "covers 1500000 (1000000, Some 2000000)" by (simp add: covers_def)
  ultimately show ?thesis
    using find_segment_unique [OF sample_timeline_apart sample_timeline_wf] by blast
qed

text \<open>The timelines the recorder builds: distinct start times after the epoch and disjoint intervals.\<close>

definition timeline_ok :: "'r timeline \<Rightarrow> bool" where
  "timeline_ok tln \<longleftrightarrow> distinct (map (fst \<circ> fst) (segments tln)) \<and> (\<forall>x \<in> set (segments tln). 0 < fst (fst x)) \<and>
     validate_segments_non_overlapping tln = Inr ()"

lemma timeline_ok_wf: "timeline_ok tln \<Longrightarrow> dict_wf (segments tln)"
  by (auto simp: timeline_ok_def distinct_map intro: inj_on_imageI2)

lemma apart_starts:
  assumes "\<And>k l. k \<in> K \<Longrightarrow> l \<in> K \<Longrightarrow> fst k = fst l \<Longrightarrow> k = l"
  shows "apart K \<longleftrightarrow> (\<forall>k \<in> K. \<forall>l \<in> K. fst k < fst l \<longrightarrow> before k l)"
  using assms by (auto simp: apart_def key_clash_def less_prod_def')


lemma distinct_starts:
  assumes "distinct (map (fst \<circ> fst) d)" "k \<in> fst ` set d" "l \<in> fst ` set d" "fst k = fst l"
  shows "k = l"
proof -
  from assms(2,3) obtain x y where xy: "x \<in> set d" "y \<in> set d" "k = fst x" "l = fst y" by blast
  then have "(fst \<circ> fst) x = (fst \<circ> fst) y" using assms(4) by simp
  then have "x = y" using assms(1) xy by (auto simp only: distinct_map inj_on_def)
  then show ?thesis using xy by simp
qed

lemma timeline_ok_starts:
  assumes "timeline_ok tln" "k \<in> fst ` set (segments tln)" "l \<in> fst ` set (segments tln)" "fst k = fst l"
  shows "k = l"
  using assms distinct_starts [of "segments tln" k l] by (simp add: timeline_ok_def)

lemma timeline_ok_before:
  assumes "timeline_ok tln" "k \<in> fst ` set (segments tln)" "l \<in> fst ` set (segments tln)" "fst k < fst l"
  shows "before k l"
  using assms validate_iff [OF timeline_ok_wf [OF assms(1)]] timeline_ok_starts [OF assms(1)]
    apart_starts [of "fst ` set (segments tln)"] by (auto simp: timeline_ok_def)

lemma timeline_okI:
  assumes "distinct (map (fst \<circ> fst) d)" "\<And>k. k \<in> fst ` set d \<Longrightarrow> 0 < fst k"
    "\<And>k l. k \<in> fst ` set d \<Longrightarrow> l \<in> fst ` set d \<Longrightarrow> fst k < fst l \<Longrightarrow> before k l"
  shows "timeline_ok (tln\<lparr>segments := d\<rparr>)"
proof -
  have wf: "dict_wf d" using assms(1) by (auto simp: distinct_map intro: inj_on_imageI2)
  have "apart (fst ` set d)"
    using assms(3) by (subst apart_starts [OF distinct_starts [OF assms(1)]]) blast+
  then show ?thesis using assms(1,2) validate_iff [of "tln\<lparr>segments := d\<rparr>"] wf
    by (auto simp: timeline_ok_def)
qed

lemma close_last_ok:
  assumes ok: "timeline_ok tln" and c: "close_last_segment tln = Inr tln1"
    and from_time: "\<And>x. x \<in> set (segments tln) \<Longrightarrow> fst (fst x) < t0"
    and lst: "\<And>x t. x \<in> set (segments tln) \<Longrightarrow> get_last_time (snd x) = Inr t \<Longrightarrow> t \<le> t0"
  shows "timeline_ok tln1 \<and> (\<forall>k \<in> fst ` set (segments tln1). fst k < t0 \<and> (\<exists>e. snd k = Some e \<and> e \<le> t0))"
proof (cases "segments tln = []")
  case True
  with c ok show ?thesis by (simp add: close_last_segment_def find_last_key_segment_def)
next
  case False
  let ?d = "segments tln"
  have "\<forall>x \<in> set ?d. 0 < fst (fst x)" using ok by (simp add: timeline_ok_def)
  from last_key_loop_spec [OF this False, of None] obtain k g where
    k: "find_last_key_segment tln = Some (k, g)" "(k, g) \<in> set ?d" "\<forall>y \<in> set ?d. fst (fst y) \<le> fst k"
    by (auto simp: find_last_key_segment_def)
  from c k(1) obtain t where t: "get_last_time g = Inr t" "close_segment k t tln = Inr tln1"
    by (auto simp: close_last_segment_def rbind_eq_Inr_iff)
  have wf: "dict_wf ?d" by (rule timeline_ok_wf [OF ok])
  have g: "dict_get ?d k = Some g" using k(2) wf by simp
  let ?r = "dict_del ?d k" and ?n = "(fst k, Some t)"
  have r: "set ?r = {x \<in> set ?d. fst x \<noteq> k}" by (auto simp: AList.delete_eq)
  have rs: "fst l < fst k" if "l \<in> fst ` set ?r" for l
    using that r k timeline_ok_starts [OF ok, of l k] by (force simp: order.strict_iff_order)
  from rs [of ?n] have fresh: "?n \<notin> fst ` set ?r" by fastforce
  have d1: "tln1 = tln\<lparr>segments := ?r @ [(?n, g)]\<rparr>"
    using t(2) g fresh by (simp add: close_segment_def dict_pop_def dict_set_fresh)
  have keys: "fst ` set (?r @ [(?n, g)]) = insert ?n (fst ` set ?r)" by simp
  have old: "fst ` set ?r \<subseteq> fst ` set ?d" using r by auto
  have kd: "k \<in> fst ` set ?d" using k(2) by force
  have "timeline_ok tln1" unfolding d1
  proof (rule timeline_okI)
    show "distinct (map (fst \<circ> fst) (?r @ [(?n, g)]))"
    proof -
      have "distinct (map (fst \<circ> fst) ?r)"
        using ok by (simp add: timeline_ok_def AList.delete_eq distinct_map_filter)
      moreover have "fst (fst x) < fst k" if "x \<in> set ?r" for x using rs [of "fst x"] that by blast
      ultimately show ?thesis by fastforce
    qed
    show "0 < fst l" if "l \<in> fst ` set (?r @ [(?n, g)])" for l
      using that ok old k(2) unfolding keys timeline_ok_def by force
    show "before l l'" if "l \<in> fst ` set (?r @ [(?n, g)])" "l' \<in> fst ` set (?r @ [(?n, g)])" "fst l < fst l'" for l l'
    proof -
      have "fst l' \<le> fst k" using that(2) rs [of l'] unfolding keys by fastforce
      with that have l: "l \<in> fst ` set ?r" unfolding keys by fastforce
      have b: "before l k" using l old timeline_ok_before [OF ok _ kd rs [OF l]] by blast
      show ?thesis
      proof (cases "l' = ?n")
        case True
        then show ?thesis using b by (auto simp: before_def split: option.splits)
      next
        case False
        then show ?thesis using that l old timeline_ok_before [OF ok, of l l'] unfolding keys by blast
      qed
    qed
  qed
  moreover have "fst l < t0 \<and> (\<exists>e. snd l = Some e \<and> e \<le> t0)" if "l \<in> fst ` set (segments tln1)" for l
  proof -
    from that consider "l = ?n" | "l \<in> fst ` set ?r" by (auto simp: d1)
    then show ?thesis
    proof cases
      case 1
      then show ?thesis using from_time [OF k(2)] lst [OF k(2)] t(1) by simp
    next
      case 2
      then have "before l k" using timeline_ok_before [OF ok _ kd rs] old by blast
      then show ?thesis using rs [OF 2] from_time [OF k(2)] by (auto simp: before_def split: option.splits)
    qed
  qed
  ultimately show ?thesis by blast
qed

text \<open>C25: creating a segment closes the one before it and keeps the intervals disjoint: after
  \<open>_create_segment\<close> at a time after every start and not before the last recorded time, the timeline
  is still one that can be written.\<close>

theorem create_segment_keeps_disjoint:
  assumes "timeline_ok tln" and "create_segment E v version t0 mid tln = Inr tln'" and "0 < t0"
    and "\<And>x. x \<in> set (segments tln) \<Longrightarrow> fst (fst x) < t0"
    and "\<And>x t. x \<in> set (segments tln) \<Longrightarrow> get_last_time (snd x) = Inr t \<Longrightarrow> t \<le> t0"
  shows "timeline_ok tln' \<and> (\<exists>g. dict_get (segments tln') (t0, None) = Some g)"
proof -
  from assms(2) obtain tln1 g where c: "close_last_segment tln = Inr tln1"
    and t: "tln' = tln1\<lparr>segments := dict_set (segments tln1) (t0, None) g, time_stamp_cache := []\<rparr>"
    by (auto simp: create_segment_def rbind_eq_Inr_iff Let_def)
  have ok1: "timeline_ok tln1" "\<And>k. k \<in> fst ` set (segments tln1) \<Longrightarrow> fst k < t0 \<and> (\<exists>e. snd k = Some e \<and> e \<le> t0)"
    using close_last_ok [OF assms(1) c, of t0] assms(4,5) by blast+
  let ?d = "segments tln1"
  from ok1(2) [of "(t0, None)"] have "(t0, None) \<notin> fst ` set ?d" by auto
  then have d: "dict_set ?d (t0, None) g = ?d @ [((t0, None), g)]" by (rule dict_set_fresh)
  have "timeline_ok (tln1\<lparr>segments := ?d @ [((t0, None), g)]\<rparr>)"
  proof (rule timeline_okI)
    have "fst (fst x) < t0" if "x \<in> set ?d" for x using ok1(2) [of "fst x"] that by blast
    then show "distinct (map (fst \<circ> fst) (?d @ [((t0, None), g)]))" using ok1(1) by (fastforce simp: timeline_ok_def)
    show "0 < fst k" if "k \<in> fst ` set (?d @ [((t0, None), g)])" for k
      using that ok1(1) assms(3) by (auto simp: timeline_ok_def)
    show "before k l" if "k \<in> fst ` set (?d @ [((t0, None), g)])" "l \<in> fst ` set (?d @ [((t0, None), g)])" "fst k < fst l" for k l
    proof -
      have kl: "k = (t0, None) \<or> k \<in> fst ` set ?d" "l = (t0, None) \<or> l \<in> fst ` set ?d" using that by auto
      then have "fst l \<le> t0" using ok1(2) [of l] by fastforce
      with that(3) kl(1) have k: "k \<in> fst ` set ?d" by fastforce
      from kl(2) show ?thesis
      proof
        assume "l = (t0, None)"
        then show ?thesis using ok1(2) [OF k] by (auto simp: before_def)
      next
        assume "l \<in> fst ` set ?d"
        then show ?thesis using timeline_ok_before [OF ok1(1) k] that(3) by blast
      qed
    qed
  qed
  then have "timeline_ok tln'" unfolding t d by (simp add: timeline_ok_def validate_segments_non_overlapping_def)
  then show ?thesis by (simp add: t)
qed


subsection \<open>A created segment records\<close>

definition fresh_metadata :: "datetime \<Rightarrow> string option \<Rightarrow> bytes \<Rightarrow> bytes \<Rightarrow> segment_metadata" where
  "fresh_metadata t0 mid ic tc =
     \<lparr>start_time = dt_seconds t0, last_time = dt_seconds t0, max_patches = int DEFAULT_MAX_PATCHES, current_patches = 0,
      patch_index_start = int (index_position ic tc), is_fragmented = False, map_id = (case mid of None \<Rightarrow> [] | Some i \<Rightarrow> i)\<rparr>"

text \<open>What the environment and the initial game state have to satisfy for a segment to be created:
  lossless packers, a state that can be serialised and read back, and sections that fit their
  length fields.\<close>

definition creatable :: "senv \<Rightarrow> val \<Rightarrow> bytes \<Rightarrow> bool" where
  "creatable E v ib \<longleftrightarrow> lossless E \<and> unpack_tree E (pack_tree E root_columns) = Inr root_columns \<and>
     serialize (raw_encode (codec E)) (ser E) v = Inr ib \<and>
     (\<exists>v0. deserialize (raw_decode (codec E)) (ser E) ib = Inr v0) \<and>
     short (compress E ib) \<and> short (compress E (pack_tree E root_columns)) \<and>
     index_position (compress E ib) (compress E (pack_tree E root_columns)) < 2 ^ 31"

lemma create_segment_ok:
  fixes tln :: "'r timeline"
  assumes "creatable E v ib" and "mode tln = Append_mode" and "close_last_segment tln = Inr tln1"
    and ids: "game_id tln1 = game_id tln" "player_id tln1 = player_id tln"
    and t0: "in_range (CS 4) (dt_seconds t0)" and mid: "map_id_storable ((case mid of None \<Rightarrow> [] | Some i \<Rightarrow> i))"
  shows "\<exists>g mb. create_segment E (Some v) version t0 mid tln =
      Inr (tln1\<lparr>segments := dict_set (segments tln1) (t0, None) g, time_stamp_cache := []\<rparr>) \<and>
    recording E (fresh_metadata t0 mid (compress E ib) (compress E (pack_tree E root_columns))) mb
      (compress E ib) (compress E (pack_tree E root_columns)) new_path_tree [] [] (blk (compress E ib)) (g :: 'r segment) \<and>
    append_que g = [] \<and> last_game_state (storage_of g) = Some v \<and> seg_version g = version"
proof -
  let ?s0 = "(initialize DEFAULT_MAX_PATCHES (new_storage [] :: 'r storage))\<lparr>last_game_state := Some v\<rparr>"
  let ?m0 = "\<lparr>start_time = dt_seconds t0, last_time = dt_seconds t0, max_patches = int DEFAULT_MAX_PATCHES, current_patches = 0,
      patch_index_start = 0, is_fragmented = False, map_id = (case mid of None \<Rightarrow> [] | Some i \<Rightarrow> i)\<rparr>"
  define g where g: "g = (new_segment [] version (game_id tln) (player_id tln) (Some DEFAULT_MAX_PATCHES) :: 'r segment)
    \<lparr>storage_of := ?s0\<lparr>metadata := Some ?m0, initial_game_state_b := Some ib, initial_game_state := Some v\<rparr>\<rparr>"
  from assms(1) obtain v0 where E: "lossless E" "unpack_tree E (pack_tree E root_columns) = Inr root_columns"
    "serialize (raw_encode (codec E)) (ser E) v = Inr ib" "deserialize (raw_decode (codec E)) (ser E) ib = Inr v0"
    "short (compress E ib)" "short (compress E (pack_tree E root_columns))"
    "index_position (compress E ib) (compress E (pack_tree E root_columns)) < 2 ^ 31" by (auto simp: creatable_def)
  have "in_range (CS 4) 0" "in_range (CS 4) 10000" by simp_all
  then have i: "int32_fields ?m0" using t0 by (simp add: int32_fields_def DEFAULT_MAX_PATCHES_def)
  from fresh_segment_recording [where g = g and E = E and m = ?m0 and v = v and v0 = v0 and lb = ib and ib = ib, OF _ _ _ _ _ _ _ _ _ _ i _ E(7) E(1-4) E(5,6,5) refl]
  obtain g1 g2 mb where c: "collapse_all E g = Inr g1" "load_everything E g1 = Inr g2"
    "recording E (fresh_metadata t0 mid (compress E ib) (compress E (pack_tree E root_columns))) mb
      (compress E ib) (compress E (pack_tree E root_columns)) new_path_tree [] [] (blk (compress E ib)) g2"
    "append_que g2 = []" "last_game_state (storage_of g2) = Some v" "seg_version g2 = version"
    using mid by (auto simp: g initialize_def new_segment_def new_storage_def index_of_Nil DEFAULT_MAX_PATCHES_def fresh_metadata_def)
  have "create_segment E (Some v) version t0 mid tln =
      Inr (tln1\<lparr>segments := dict_set (segments tln1) (t0, None) g2, time_stamp_cache := []\<rparr>)"
    using assms(2,3) ids E(3) c(1,2)
    by (cases mid) (simp_all add: create_segment_def need_def py_assert_def record_initial_game_state_def validate_game_def on_storage_def
        set_metadata_fields_def unload_initial_game_state_def g initialize_def new_segment_def new_storage_def
        seg_set_last_game_state_def Let_def)
  with c show ?thesis by blast
qed


lemma close_last_ids:
  "close_last_segment tln = Inr tln1 \<Longrightarrow> game_id tln1 = game_id tln \<and> player_id tln1 = player_id tln"
  by (auto simp: close_last_segment_def close_segment_def rbind_eq_Inr_iff split: option.splits)

text \<open>C17: a segment made by \<open>_create_segment\<close> is ready to record: the call succeeds, the segment is
  filed under its open interval, it holds no patch, its bytes lie in the append layout, its tree is
  the empty tree a reader would rebuild, and its last game state is the given one.\<close>

theorem created_segment_records:
  assumes "creatable E v ib" and "mode tln = Append_mode" and "close_last_segment tln = Inr tln1"
    and "in_range (CS 4) (dt_seconds t0)" and "map_id_storable (case mid of None \<Rightarrow> [] | Some i \<Rightarrow> i)"
  shows "\<exists>tln' g mb. create_segment E (Some v) version t0 mid tln = Inr tln' \<and>
    dict_get (segments tln') (t0, None) = Some g \<and> append_que g = [] \<and> seg_get_last_game_state g = Some v \<and>
    recording E (fresh_metadata t0 mid (compress E ib) (compress E (pack_tree E root_columns))) mb
      (compress E ib) (compress E (pack_tree E root_columns)) new_path_tree [] [] (blk (compress E ib)) g"
  using create_segment_ok [OF assms(1-3) _ _ assms(4,5), of version] close_last_ids [OF assms(3)]
  by (auto simp: seg_get_last_game_state_def)

definition growing_timeline :: "nat timeline" where
  "growing_timeline = (new_timeline None Append_mode (Some 1) (Some 2))
     \<lparr>segments := [((100000000, None), sample_segment)]\<rparr>"

lemma growing_closed:
  "close_last_segment growing_timeline =
     Inr (growing_timeline\<lparr>segments := [((100000000, Some 100000000), sample_segment)]\<rparr>)"
  by (simp add: growing_timeline_def close_last_segment_def find_last_key_segment_def get_last_time_def seg_metadata_def
      sample_segment_def sample_meta_def close_segment_def dict_pop_def)

lemma recorder_creatable: "creatable recorder_env VNone [1]"
  using from_raw.simps [of sample_serializer "RList [RNone]"] from_raw.simps [of sample_serializer RNone]
  by (simp add: creatable_def lossless_def recorder_env_def recorder_codecs_def root_columns_def serialize_def
      deserialize_def short_def index_position_def segment_metadata_size_def segment_format_def)

theorem created_segment_records_witness:
  "\<exists>tln' g mb. create_segment recorder_env (Some VNone) 217 160000000 None growing_timeline = Inr tln' \<and>
    dict_get (segments tln') (160000000, None) = Some g \<and> append_que g = [] \<and> seg_get_last_game_state g = Some VNone \<and>
    recording recorder_env (fresh_metadata 160000000 None (compress recorder_env [1])
        (compress recorder_env (pack_tree recorder_env root_columns))) mb
      (compress recorder_env [1]) (compress recorder_env (pack_tree recorder_env root_columns)) new_path_tree [] []
      (blk (compress recorder_env [1])) g"
  by (rule created_segment_records [OF recorder_creatable _ growing_closed])
    (simp_all add: growing_timeline_def new_timeline_def sample_seconds map_id_storable_def utf8_encode_def)

theorem create_segment_keeps_disjoint_witness:
  "\<exists>tln'. create_segment recorder_env (Some VNone) 217 160000000 None growing_timeline = Inr tln' \<and> timeline_ok tln'"
proof -
  have "map_id_storable (case None of None \<Rightarrow> [] | Some i \<Rightarrow> i)" by (simp add: map_id_storable_def utf8_encode_def)
  moreover have "in_range (CS 4) (dt_seconds 160000000)" by (simp add: sample_seconds)
  ultimately obtain tln' where t: "create_segment recorder_env (Some VNone) 217 160000000 None growing_timeline = Inr tln'"
    using create_segment_ok [OF recorder_creatable _ growing_closed, of 160000000 None 217]
    by (auto simp: growing_timeline_def new_timeline_def)
  have "timeline_ok growing_timeline"
    unfolding growing_timeline_def by (rule timeline_okI) auto
  then have "timeline_ok tln'"
    using create_segment_keeps_disjoint [OF _ t]
    by (simp add: growing_timeline_def get_last_time_def seg_metadata_def sample_segment_def sample_meta_def)
  with t show ?thesis by blast
qed


subsection \<open>A full segment\<close>

lemma read_append_image:
  assumes d: "data_b s = image mb ic tc xb pb lc rest"
    and sh: "short mb" "short ic" "short tc" "short xb" "short pb" "short lc"
    and m: "segment_metadata_deserialize mb = Inr m"
    and dec: "decompress E tc = Inr tb" "decompress E lc = Inr lb"
  shows "read_append_mode_from_disk E s = Inr (s\<lparr>metadata_b := Some mb, metadata := Some m,
     path_tree_b := Some tb, patch_index_b := Some xb, d_pool_b := Some pb, last_game_state_b := Some lb\<rparr>)"
proof -
  have "reads_at (new_reader (data_b s) 0) (blk mb @ blk ic @ blk tc @ blk xb @ blk pb @ blk lc @ rest)"
    unfolding d image_def reads_at_def new_reader_def by (intro exI [of _ "[]"]) simp
  from block_reads [OF this sh(1)] obtain r1 r2 where
    r1: "read_int32 (new_reader (data_b s) 0) = Inr (int (length mb), r1)" "read_bytes (int (length mb)) r1 = (mb, r2)"
      "reads_at r2 (blk ic @ blk tc @ blk xb @ blk pb @ blk lc @ rest)" .
  from block_reads [OF r1(3) sh(2)] obtain r3 r4 where
    r3: "read_int32 r2 = Inr (int (length ic), r3)" "read_bytes (int (length ic)) r3 = (ic, r4)"
      "reads_at r4 (blk tc @ blk xb @ blk pb @ blk lc @ rest)" .
  have sk: "reader_skip (int (length ic)) r3 = r4" using r3(2) by (simp add: read_bytes_def reader_skip_def advance_def)
  from block_reads [OF r3(3) sh(3)] obtain r5 r6 where
    r5: "read_int32 r4 = Inr (int (length tc), r5)" "read_bytes (int (length tc)) r5 = (tc, r6)"
      "reads_at r6 (blk xb @ blk pb @ blk lc @ rest)" .
  from block_reads [OF r5(3) sh(4)] obtain r7 r8 where
    r7: "read_int32 r6 = Inr (int (length xb), r7)" "read_bytes (int (length xb)) r7 = (xb, r8)"
      "reads_at r8 (blk pb @ blk lc @ rest)" .
  from block_reads [OF r7(3) sh(5)] obtain r9 r10 where
    r9: "read_int32 r8 = Inr (int (length pb), r9)" "read_bytes (int (length pb)) r9 = (pb, r10)"
      "reads_at r10 (blk lc @ rest)" .
  from block_reads [OF r9(3) sh(6)] obtain r11 r12 where
    r11: "read_int32 r10 = Inr (int (length lc), r11)" "read_bytes (int (length lc)) r11 = (lc, r12)" .
  show ?thesis
    by (simp add: read_append_mode_from_disk_def r1(1,2) r3(1) sk r5(1,2) r7(1,2) r9(1,2) r11 load_metadata_def m dec)
qed

lemma load_metadata_graph: "load_metadata s = Inr s' \<Longrightarrow> graph s' = graph s"
  by (auto simp: load_metadata_def rbind_eq_Inr_iff)

lemma read_append_graph: "read_append_mode_from_disk E s = Inr s' \<Longrightarrow> graph s' = graph s"
  by (auto simp: read_append_mode_from_disk_def rbind_eq_Inr_iff split_beta Let_def dest!: load_metadata_graph)

lemma load_last_graph: "load_last_game_state E s = Inr (v, s') \<Longrightarrow> graph s' = graph s"
  by (cases "last_game_state_b s"; cases "deserialize (raw_decode (codec E)) (ser E) (the (last_game_state_b s))")
    (auto simp: load_last_game_state_def)

lemma load_tree_graph: "load_path_tree E s = Inr s' \<Longrightarrow> graph s' = graph s"
  by (auto simp: load_path_tree_def rbind_eq_Inr_iff split: if_splits)

lemma append_mode_has_no_graph:
  assumes "load_append_mode E (new_segment data version gid pid maxp) = Inr g"
  shows "graph (storage_of g) = None \<and> seg_game_id g = gid \<and> seg_player_id g = pid"
  using assms
  by (auto simp: load_append_mode_def on_storage_def rbind_eq_Inr_iff new_segment_def new_storage_def
      dest!: load_tree_graph load_last_graph load_metadata_graph read_append_graph)

lemma collapse_without_graph:
  assumes "graph (storage_of g) = None"
  shows "\<exists>e. collapse_all E g = Inl e"
proof -
  have "collapse_all E g \<noteq> Inr g'" for g' using assms
    by (auto simp: collapse_all_def on_storage_def set_metadata_fields_def unload_metadata_def unload_path_tree_def
        unload_patches_def rbind_eq_Inr_iff Let_def have_attr_def)
  then show ?thesis by (cases "collapse_all E g") auto
qed

text \<open>C33: a segment that was loaded in append mode (which loads no patch graph) and has no room for
  two more patches cannot grow: the retry of \<open>que_append_patch\<close> after \<open>_extend_segment\<close> never runs,
  because collapsing the segment raises.\<close>

theorem full_segment_refuses:
  assumes "load_append_mode E (new_segment data version gid pid maxp) = Inr g"
    and "metadata (storage_of g) = Some m" and "max_patches m \<le> current_patches m + 2"
  shows "\<exists>e. append_retry E (Suc n) ts gid pid (Some rp) g = Inl e"
proof -
  note g = append_mode_has_no_graph [OF assms(1)]
  then have "que_append_patch ts gid pid (Some rp) g = Inl IndexError"
    using assms(2,3) by (simp add: que_append_patch_def validate_game_def validate_max_patches_def seg_metadata_def)
  moreover from collapse_without_graph g obtain e where "collapse_all E g = Inl e" by blast
  ultimately show ?thesis using assms(2) by (simp add: extend_segment_def seg_metadata_def)
qed

definition full_meta :: segment_metadata where
  "full_meta = \<lparr>start_time = 100, last_time = 100, max_patches = 2, current_patches = 1,
     patch_index_start = 0, is_fragmented = False, map_id = []\<rparr>"

theorem full_segment_refuses_witness:
  "\<exists>data g e. load_append_mode recorder_env (new_segment data 217 (Some 1) (Some 2) None) = Inr g \<and>
     append_retry recorder_env 2 160000000 (Some 1) (Some 2) (Some sample_patch) (g :: nat segment) = Inl e"
proof -
  from segment_serialize_ok [of full_meta] obtain mb where
    mb: "segment_metadata_serialize full_meta = Inr mb" "length mb = 61"
    by (auto simp: full_meta_def int32_fields_def)
  let ?data = "image mb [1, 1] [1, 8] [] [] [1, 1] []"
  let ?s = "(new_storage ?data)\<lparr>metadata_b := Some mb, metadata := Some full_meta,
     path_tree_b := Some [8], patch_index_b := Some [], d_pool_b := Some [], last_game_state_b := Some [1]\<rparr> :: nat storage"
  have md: "segment_metadata_deserialize mb = Inr full_meta"
    by (rule segment_deserialize_serialized [OF mb(1)]) (simp add: full_meta_def map_id_storable_def utf8_encode_def)
  have sh: "short mb" "short [1, 1]" "short [1, 8]" "short []" by (simp_all add: short_def mb(2))
  have dec: "decompress recorder_env [1, 8] = Inr [8]" "decompress recorder_env [1, 1] = Inr [1]"
    by (simp_all add: recorder_env_def)
  have "read_append_mode_from_disk recorder_env (new_storage ?data) = Inr ?s"
    by (rule read_append_image [OF _ sh(1,2,3,4,4,2) md dec, where rest = "[]"]) (simp add: new_storage_def)
  moreover have "load_metadata ?s = Inr ?s" by (simp add: load_metadata_def md new_storage_def)
  moreover have "\<exists>v. deserialize (raw_decode (codec recorder_env)) (ser recorder_env) [1] = Inr v"
    using recorder_creatable by (simp add: creatable_def)
  moreover have "unpack_path_tree recorder_env [8] = Inr (new_path_tree :: nat path_tree)"
    by (rule unpack_root_columns) (simp add: recorder_env_def root_columns_def)
  ultimately obtain g :: "nat segment" where
    g: "load_append_mode recorder_env (new_segment ?data 217 (Some 1) (Some 2) None) = Inr g"
    "metadata (storage_of g) = Some full_meta"
    by (auto simp: load_append_mode_def on_storage_def new_segment_def load_last_game_state_def load_path_tree_def full_meta_def)
  then show ?thesis
    using full_segment_refuses [OF g, of 1 160000000 sample_patch] by (auto simp: full_meta_def numeral_2_eq_2)
qed

end
