(* ===== verification/Hooks.thy ===== *)
theory Hooks
  imports PathTree Apply
begin

text \<open>
  The hook system of a replay (\<open>hook_system/\<close>): hooks listen to a node of the path tree, a change
  below it is turned into an event (a hook without a callback, an \<^emph>\<open>event trigger\<close>) or queued for
  the callback.

  A callback is identified by a value of type \<open>'c\<close>, since the code only compares callbacks and
  calls them; \<open>run\<close> gives the effect of a call on the outside world, also when it raises, because
  \<open>execute_queue\<close> logs the exception and goes on.  References have the type \<open>'r\<close> of the path tree.
  A value that is \<open>None\<close> is \<open>VNone\<close>.  The theorems say what triggers deliver in every state their
  operations reach, and two things the code does with several hooks at one path.
\<close>

subsection \<open>State\<close>

datatype hook_tag =
    ProvinceChanged | PlayerChanged | TeamChanged | ArmyChanged | GameInfoChanged | SegmentSwitch
  | ForeignAffairsRelationChanged

record 'c replay_hook =
  h_tag :: hook_tag
  h_path :: nat
  h_change_types :: "int list"
  h_attributes :: "string list option"
  h_callback :: "'c option"
  h_start_depth :: int
  h_end_depth :: int

type_synonym hook_data = "(pathel, val \<times> val) dict"

record 'r hook_event =
  ev_reference :: "'r option"
  ev_attributes :: hook_data
  ev_tag :: hook_tag

record 'r queue_element =
  q_path :: nat
  q_reference :: "'r option"
  q_changed_data :: hook_data

record ('c, 'r) hook_system =
  hs_tags :: "hook_tag set"
  hs_hooks :: "(nat, 'c replay_hook list) dict"
  hs_queue :: "(nat, 'r queue_element list) dict"
  hs_events :: "'r hook_event list"

definition new_hook_system :: "('c, 'r) hook_system" where
  "new_hook_system = \<lparr>hs_tags = {}, hs_hooks = [], hs_queue = [], hs_events = []\<rparr>"

subsection \<open>Hooks\<close>

definition register_hook :: "'c replay_hook \<Rightarrow> ('c, 'r) hook_system \<Rightarrow> ('c, 'r) hook_system" where
  "register_hook k h =
     h\<lparr>hs_hooks := dict_set (hs_hooks h) (h_path k)
        (case dict_get (hs_hooks h) (h_path k) of Some ks \<Rightarrow> ks @ [k] | None \<Rightarrow> [k])\<rparr>"

definition unregister_hook :: "nat option \<Rightarrow> 'c option \<Rightarrow> ('c, 'r) hook_system \<Rightarrow> ('c, 'r) hook_system" where
  "unregister_hook hook_path cb h =
     (case hook_path of
        None \<Rightarrow> h
      | Some p \<Rightarrow>
          (case dict_get (hs_hooks h) p of
             None \<Rightarrow> h
           | Some ks \<Rightarrow>
               let removed = filter (\<lambda>k. h_callback k = cb) ks
               in h\<lparr>hs_queue := dict_del (hs_queue h) p, hs_hooks := dict_set (hs_hooks h) p (fold remove1 removed ks)\<rparr>))"

definition unregister_all_hooks :: "('c, 'r) hook_system \<Rightarrow> ('c, 'r) hook_system" where
  "unregister_all_hooks h = h\<lparr>hs_hooks := []\<rparr>"

text \<open>The operation a pair of an old and a new value amounts to.\<close>

definition changed_op :: "val \<times> val \<Rightarrow> int" where
  "changed_op value =
     (if fst value = VNone \<and> snd value \<noteq> VNone then ADD_OPERATION
      else if fst value \<noteq> VNone \<and> snd value = VNone then REMOVE_OPERATION
      else REPLACE_OPERATION)"

definition hook_found :: "hook_data \<Rightarrow> 'c replay_hook \<Rightarrow> bool" where
  "hook_found data k \<longleftrightarrow> list_ex (\<lambda>(attribute, value). changed_op value \<in> set (h_change_types k)) data"

text \<open>The loop of \<open>que_hook_path\<close>, which returns at the first hook that does not match.\<close>

fun que_hooks ::
    "nat \<Rightarrow> 'r option \<Rightarrow> hook_data \<Rightarrow> 'c replay_hook list \<Rightarrow> ('c, 'r) hook_system \<Rightarrow> ('c, 'r) hook_system" where
  "que_hooks p cref data [] h = h"
| "que_hooks p cref data (k # ks) h =
     (if \<not> hook_found data k then h
      else que_hooks p cref data ks
        (case h_callback k of
           None \<Rightarrow> h\<lparr>hs_events := hs_events h @ [\<lparr>ev_reference = cref, ev_attributes = data, ev_tag = h_tag k\<rparr>]\<rparr>
         | Some _ \<Rightarrow>
             let el = \<lparr>q_path = p, q_reference = cref, q_changed_data = data\<rparr>
             in h\<lparr>hs_queue := dict_set (hs_queue h) p
                  (case dict_get (hs_queue h) p of None \<Rightarrow> [el] | Some els \<Rightarrow> els @ [el])\<rparr>))"

definition que_hook_path ::
    "nat \<Rightarrow> 'r option \<Rightarrow> hook_data \<Rightarrow> ('c, 'r) hook_system \<Rightarrow> ('c, 'r) hook_system result" where
  "que_hook_path p cref data h =
     (case dict_get (hs_hooks h) p of
        None \<Rightarrow> Inl AssertionError
      | Some ks \<Rightarrow> Inr (que_hooks p cref data ks h))"

definition clear_queue :: "('c, 'r) hook_system \<Rightarrow> ('c, 'r) hook_system" where
  "clear_queue h = h\<lparr>hs_queue := []\<rparr>"

definition call_hook ::
    "('c \<Rightarrow> 'r option \<Rightarrow> hook_data \<Rightarrow> 'w \<Rightarrow> 'w) \<Rightarrow> 'c replay_hook \<Rightarrow> 'r queue_element \<Rightarrow> 'w \<Rightarrow> 'w" where
  "call_hook run k el w =
     (case h_callback k of None \<Rightarrow> w | Some c \<Rightarrow> run c (q_reference el) (q_changed_data el) w)"

definition execute_queue ::
    "('c \<Rightarrow> 'r option \<Rightarrow> hook_data \<Rightarrow> 'w \<Rightarrow> 'w) \<Rightarrow> ('c, 'r) hook_system \<Rightarrow> 'w \<Rightarrow> (('c, 'r) hook_system \<times> 'w) result" where
  "execute_queue run h w =
     rbind (rfold (\<lambda>(p, els) w. rbind (dict_lookup (hs_hooks h) p) (\<lambda>ks.
              Inr (fold (\<lambda>k. fold (call_hook run k) els) ks w))) (hs_queue h) w)
       (\<lambda>w. Inr (clear_queue h, w))"

subsection \<open>Event triggers\<close>

definition register_event_trigger ::
    "'t path_tree \<Rightarrow> hook_tag \<Rightarrow> path \<Rightarrow> string list option \<Rightarrow> int \<Rightarrow> int \<Rightarrow> ('c, 'r) hook_system
     \<Rightarrow> ('c, 'r) hook_system result" where
  "register_event_trigger t tg p attrs start_depth end_depth h =
     (case path_list_to_idx p t of
        None \<Rightarrow> Inr h
      | Some i \<Rightarrow>
          if tg \<in> hs_tags h then Inl ValueError
          else
            let h = h\<lparr>hs_tags := insert tg (hs_tags h)\<rparr>;
                hook = \<lparr>h_tag = tg, h_path = i, h_change_types = [ADD_OPERATION, REPLACE_OPERATION, REMOVE_OPERATION],
                        h_attributes = attrs, h_callback = None, h_start_depth = start_depth, h_end_depth = end_depth\<rparr>
            in Inr (register_hook hook (unregister_hook (Some i) None h)))"

definition unregister_event_trigger :: "'t path_tree \<Rightarrow> path \<Rightarrow> ('c, 'r) hook_system \<Rightarrow> ('c, 'r) hook_system" where
  "unregister_event_trigger t p h =
     (let i = path_list_to_idx p t;
          ks = (case Option.bind i (dict_get (hs_hooks h)) of None \<Rightarrow> [] | Some ks \<Rightarrow> ks);
          h = h\<lparr>hs_tags := fold (\<lambda>k. if h_callback k = None then (\<lambda>T. T - {h_tag k}) else id) ks (hs_tags h)\<rparr>
      in unregister_hook i None h)"

definition poll_events :: "('c, 'r) hook_system \<Rightarrow> 'r hook_event list \<times> ('c, 'r) hook_system" where
  "poll_events h = (hs_events h, h\<lparr>hs_events := []\<rparr>)"

definition map_val :: "string option \<Rightarrow> val" where
  "map_val m = (case m of None \<Rightarrow> VNone | Some s \<Rightarrow> VStr s)"

definition add_segment_switch_event ::
    "int \<Rightarrow> int \<Rightarrow> string option \<Rightarrow> string option \<Rightarrow> ('c, 'r) hook_system \<Rightarrow> ('c, 'r) hook_system" where
  "add_segment_switch_event old_version new_version old_map new_map h =
     (let d = (if old_version \<noteq> new_version then dict_set [] (PStr ''version'') (VInt old_version, VInt new_version) else []);
          d = (if old_map \<noteq> new_map then dict_set d (PStr ''map_id'') (map_val old_map, map_val new_map) else d)
      in h\<lparr>hs_events := hs_events h @ [\<lparr>ev_reference = None, ev_attributes = d, ev_tag = SegmentSwitch\<rparr>]\<rparr>)"

subsection \<open>States that event triggers reach\<close>

text \<open>A hook system to which only event triggers are added, over any sequence of path trees (the
  segment of a replay changes).\<close>

inductive trigger_reachable :: "('c, 'r) hook_system \<Rightarrow> bool" where
  tr_new: "trigger_reachable new_hook_system"
| tr_register: "trigger_reachable h \<Longrightarrow> register_event_trigger (t :: 'r path_tree) tg p attrs a b h = Inr h' \<Longrightarrow> trigger_reachable h'"
| tr_unregister: "trigger_reachable h \<Longrightarrow> trigger_reachable (unregister_event_trigger (t :: 'r path_tree) p h)"
| tr_que: "trigger_reachable h \<Longrightarrow> que_hook_path p r data h = Inr h' \<Longrightarrow> trigger_reachable h'"
| tr_execute: "trigger_reachable h \<Longrightarrow> execute_queue (run :: 'c \<Rightarrow> 'r option \<Rightarrow> hook_data \<Rightarrow> unit \<Rightarrow> unit) h () = Inr (h', ()) \<Longrightarrow> trigger_reachable h'"
| tr_poll: "trigger_reachable h \<Longrightarrow> trigger_reachable (snd (poll_events h))"
| tr_switch: "trigger_reachable h \<Longrightarrow> trigger_reachable (add_segment_switch_event v v' m m' h)"

definition is_trigger :: "hook_tag set \<Rightarrow> nat \<Rightarrow> 'c replay_hook \<Rightarrow> bool" where
  "is_trigger T p k \<longleftrightarrow> h_callback k = None \<and> h_path k = p \<and> h_tag k \<in> T \<and>
     set (h_change_types k) = {ADD_OPERATION, REPLACE_OPERATION, REMOVE_OPERATION}"

definition one_tag_each :: "('c, 'r) hook_system \<Rightarrow> bool" where
  "one_tag_each h \<longleftrightarrow> (\<forall>p q k l ks ls. dict_get (hs_hooks h) p = Some ks \<longrightarrow> dict_get (hs_hooks h) q = Some ls \<longrightarrow>
     k \<in> set ks \<longrightarrow> l \<in> set ls \<longrightarrow> h_tag k = h_tag l \<longrightarrow> p = q)"

definition trigger_inv :: "('c, 'r) hook_system \<Rightarrow> bool" where
  "trigger_inv h \<longleftrightarrow> hs_queue h = [] \<and>
     (\<forall>p ks. dict_get (hs_hooks h) p = Some ks \<longrightarrow> length ks \<le> 1 \<and> (\<forall>k \<in> set ks. is_trigger (hs_tags h) p k)) \<and>
     one_tag_each h"

lemma remove_all: "fold remove1 (filter P xs) xs = filter (\<lambda>x. \<not> P x) xs"
proof -
  have "fold remove1 (filter P xs) (ys @ xs) = ys @ filter (\<lambda>x. \<not> P x) xs"
    if "\<forall>y \<in> set ys. \<not> P y" for ys
    using that
  proof (induction xs arbitrary: ys)
    case (Cons x xs)
    show ?case
    proof (cases "P x")
      case True
      then have "remove1 x (ys @ x # xs) = ys @ xs" using Cons.prems by (auto simp: remove1_append)
      with True Cons show ?thesis by simp
    next
      case False
      then show ?thesis using Cons.IH [of "ys @ [x]"] Cons.prems by simp
    qed
  qed simp
  from this [of "[]"] show ?thesis by simp
qed

lemma found_trigger: "is_trigger T p k \<Longrightarrow> hook_found data k \<longleftrightarrow> data \<noteq> []"
  by (cases data) (auto simp: is_trigger_def hook_found_def changed_op_def)

lemma que_triggers:
  "length ks \<le> 1 \<Longrightarrow> (\<forall>k \<in> set ks. is_trigger T p k) \<Longrightarrow>
   que_hooks p r data ks h = h\<lparr>hs_events := hs_events h @
     (if data = [] then [] else map (\<lambda>k. \<lparr>ev_reference = r, ev_attributes = data, ev_tag = h_tag k\<rparr>) ks)\<rparr>"
proof (cases ks)
  case (Cons k ls)
  assume "length ks \<le> 1" and ks: "\<forall>k \<in> set ks. is_trigger T p k"
  with Cons have "is_trigger T p k" "ls = []" by simp_all
  with Cons found_trigger [OF this(1), of data] show ?thesis by (simp add: is_trigger_def)
qed simp

lemma trigger_inv_events [simp]: "trigger_inv (h\<lparr>hs_events := es\<rparr>) \<longleftrightarrow> trigger_inv h"
  by (simp add: trigger_inv_def one_tag_each_def)

lemma trigger_inv_unregister:
  assumes "trigger_inv h"
  shows "trigger_inv (unregister_hook i None h)"
    "\<And>p ks. i = Some p \<Longrightarrow> dict_get (hs_hooks (unregister_hook i None h)) p = Some ks \<Longrightarrow> ks = []"
    "hs_tags (unregister_hook i None h) = hs_tags h"
    "\<And>p ks. dict_get (hs_hooks (unregister_hook i None h)) p = Some ks \<Longrightarrow> ks \<noteq> [] \<Longrightarrow> dict_get (hs_hooks h) p = Some ks"
proof -
  consider "unregister_hook i None h = h" "\<And>p. i = Some p \<Longrightarrow> dict_get (hs_hooks h) p = None"
    | p ks where "i = Some p" "dict_get (hs_hooks h) p = Some ks"
      "unregister_hook i None h = h\<lparr>hs_queue := [], hs_hooks := dict_set (hs_hooks h) p []\<rparr>"
  proof (cases "Option.bind i (dict_get (hs_hooks h))")
    case None
    then show ?thesis using that(1) by (auto simp: unregister_hook_def split: option.splits bind_splits)
  next
    case (Some ks)
    then obtain p where p: "i = Some p" "dict_get (hs_hooks h) p = Some ks" by (cases i) auto
    then have "filter (\<lambda>k. h_callback k \<noteq> None) ks = []" "hs_queue h = []"
      using assms by (auto simp: trigger_inv_def is_trigger_def filter_empty_conv)
    then show ?thesis using that(2) [OF p] p by (simp add: unregister_hook_def remove_all)
  qed
  then show "trigger_inv (unregister_hook i None h)"
    "\<And>p ks. i = Some p \<Longrightarrow> dict_get (hs_hooks (unregister_hook i None h)) p = Some ks \<Longrightarrow> ks = []"
    "hs_tags (unregister_hook i None h) = hs_tags h"
    "\<And>p ks. dict_get (hs_hooks (unregister_hook i None h)) p = Some ks \<Longrightarrow> ks \<noteq> [] \<Longrightarrow> dict_get (hs_hooks h) p = Some ks"
    using assms by (cases; auto simp: trigger_inv_def one_tag_each_def split: if_splits; blast)+
qed

lemma trigger_inv_register:
  fixes h :: "('c, 'r) hook_system"
  assumes inv: "trigger_inv h" and r: "register_event_trigger t tg p attrs a b h = Inr h'"
  shows "trigger_inv h'"
proof (cases "path_list_to_idx p t")
  case (Some i)
  let ?h = "h\<lparr>hs_tags := insert tg (hs_tags h)\<rparr>"
  have tg: "tg \<notin> hs_tags h" using r Some by (auto simp: register_event_trigger_def split: if_splits)
  define k :: "'c replay_hook" where k: "k = \<lparr>h_tag = tg, h_path = i, h_change_types = [ADD_OPERATION, REPLACE_OPERATION, REMOVE_OPERATION],
     h_attributes = attrs, h_callback = None, h_start_depth = a, h_end_depth = b\<rparr>"
  have inv1: "trigger_inv ?h" using inv by (auto simp: trigger_inv_def one_tag_each_def is_trigger_def)
  let ?u = "unregister_hook (Some i) None ?h"
  note u = trigger_inv_unregister [OF inv1, of "Some i"]
  have "dict_get (hs_hooks ?u) i = None \<or> dict_get (hs_hooks ?u) i = Some []"
    using u(2) by (cases "dict_get (hs_hooks ?u) i") auto
  then have h': "h' = ?u\<lparr>hs_hooks := dict_set (hs_hooks ?u) i [k]\<rparr>"
    using r Some tg by (auto simp: register_event_trigger_def Let_def k [symmetric] register_hook_def)
      (simp_all add: k)
  have kt: "is_trigger (insert tg (hs_tags h)) i k" by (auto simp: is_trigger_def k)
  have old: "h_tag l \<noteq> tg" if "dict_get (hs_hooks ?u) q = Some ls" "l \<in> set ls" for q l ls
  proof -
    from that(2) have "ls \<noteq> []" by auto
    with u(4) [OF that(1)] have "dict_get (hs_hooks h) q = Some ls" by simp
    with inv that(2) have "h_tag l \<in> hs_tags h" by (auto simp: trigger_inv_def is_trigger_def)
    with tg show ?thesis by blast
  qed
  have "h_tag k = tg" by (simp add: k)
  with u(1) u(3) kt old show ?thesis unfolding h' trigger_inv_def one_tag_each_def by (auto split: if_splits) metis+
next
  case None
  with assms show ?thesis by (simp add: register_event_trigger_def)
qed

lemma unregister_tags: "unregister_hook i cb (h\<lparr>hs_tags := T\<rparr>) = (unregister_hook i cb h)\<lparr>hs_tags := T\<rparr>"
  by (simp add: unregister_hook_def Let_def split: option.split)

lemma discard_tags:
  "fold (\<lambda>k. if h_callback k = None then (\<lambda>T. T - {h_tag k}) else id) ks T \<supseteq> T - h_tag ` set ks"
  by (induction ks arbitrary: T) fastforce+

lemma trigger_inv_retag:
  assumes "trigger_inv h" and "\<And>p ks k. dict_get (hs_hooks h) p = Some ks \<Longrightarrow> k \<in> set ks \<Longrightarrow> h_tag k \<in> T"
  shows "trigger_inv (h\<lparr>hs_tags := T\<rparr>)"
  using assms by (auto simp: trigger_inv_def one_tag_each_def is_trigger_def)

lemma trigger_inv_unregister_trigger:
  assumes inv: "trigger_inv h"
  shows "trigger_inv (unregister_event_trigger t p h)"
proof (cases "Option.bind (path_list_to_idx p t) (dict_get (hs_hooks h))")
  case None
  then show ?thesis using trigger_inv_unregister(1) [OF inv]
    by (simp add: unregister_event_trigger_def unregister_tags trigger_inv_retag) (metis hook_system.surjective hook_system.update_convs(1) old.unit.exhaust trigger_inv_unregister(3) inv)
next
  case (Some ks)
  then obtain i where i: "path_list_to_idx p t = Some i" "dict_get (hs_hooks h) i = Some ks"
    by (cases "path_list_to_idx p t") auto
  note u = trigger_inv_unregister [OF inv, of "Some i"]
  let ?T = "fold (\<lambda>k. if h_callback k = None then (\<lambda>T. T - {h_tag k}) else id) ks (hs_tags h)"
  have "h_tag l \<in> ?T" if l: "dict_get (hs_hooks (unregister_hook (Some i) None h)) q = Some ls" "l \<in> set ls" for q ls l
  proof -
    from l(2) have ne: "ls \<noteq> []" by auto
    have q: "dict_get (hs_hooks h) q = Some ls" by (rule u(4) [OF l(1) ne])
    have "q \<noteq> i" using u(2) [OF refl] l ne by blast
    then have "h_tag l \<notin> h_tag ` set ks" using inv i(2) q l(2) unfolding trigger_inv_def one_tag_each_def by blast
    moreover have "h_tag l \<in> hs_tags h" using inv q l(2) by (auto simp: trigger_inv_def is_trigger_def)
    ultimately show ?thesis using discard_tags [of "hs_tags h" ks] by blast
  qed
  then show ?thesis using trigger_inv_retag [OF u(1), of ?T] i
    by (simp add: unregister_event_trigger_def unregister_tags)
qed

lemma trigger_reachable_inv: "trigger_reachable h \<Longrightarrow> trigger_inv h"
proof (induction rule: trigger_reachable.induct)
  case (tr_que h p r data h')
  then obtain ks where ks: "dict_get (hs_hooks h) p = Some ks" "h' = que_hooks p r data ks h"
    by (auto simp: que_hook_path_def split: option.splits)
  with tr_que.IH que_triggers [of ks "hs_tags h" p r data h] show ?case by (simp add: trigger_inv_def one_tag_each_def)
next
  case tr_new
  show ?case by (simp add: trigger_inv_def one_tag_each_def new_hook_system_def)
next
  case (tr_execute h run h')
  then have "h' = clear_queue h" by (auto simp: execute_queue_def rbind_eq_Inr_iff)
  with tr_execute.IH show ?case by (simp add: trigger_inv_def one_tag_each_def clear_queue_def)
qed (auto simp: trigger_inv_unregister_trigger poll_events_def add_segment_switch_event_def Let_def
    elim: trigger_inv_register)

lemma unregister_other: "q \<noteq> i \<Longrightarrow> dict_get (hs_hooks (unregister_hook (Some i) cb h)) q = dict_get (hs_hooks h) q"
  by (simp add: unregister_hook_def Let_def split: option.split)

lemma register_effect:
  fixes h :: "('c, 'r) hook_system"
  assumes inv: "trigger_inv h" and i: "path_list_to_idx p t = Some i" and r: "register_event_trigger t tg p attrs a b h = Inr h'"
  shows "tg \<notin> hs_tags h \<and> hs_tags h' = insert tg (hs_tags h) \<and>
    (\<exists>k. h_tag k = tg \<and> h_callback k = None \<and> dict_get (hs_hooks h') i = Some [k]) \<and>
    (\<forall>q. q \<noteq> i \<longrightarrow> dict_get (hs_hooks h') q = dict_get (hs_hooks h) q)"
proof -
  let ?u = "unregister_hook (Some i) None h"
  note u = trigger_inv_unregister [OF inv, of "Some i"]
  have "dict_get (hs_hooks ?u) i = None \<or> dict_get (hs_hooks ?u) i = Some []"
    using u(2) by (cases "dict_get (hs_hooks ?u) i") auto
  moreover define k :: "'c replay_hook" where k: "k = \<lparr>h_tag = tg, h_path = i,
    h_change_types = [ADD_OPERATION, REPLACE_OPERATION, REMOVE_OPERATION], h_attributes = attrs, h_callback = None,
    h_start_depth = a, h_end_depth = b\<rparr>"
  moreover have tg: "tg \<notin> hs_tags h" using r i by (auto simp: register_event_trigger_def)
  moreover have "h' = register_hook k (?u\<lparr>hs_tags := insert tg (hs_tags h)\<rparr>)"
    using r i tg by (simp add: register_event_trigger_def unregister_tags k)
  ultimately have "h' = ?u\<lparr>hs_tags := insert tg (hs_tags h), hs_hooks := dict_set (hs_hooks ?u) i [k]\<rparr>"
    by (auto simp: register_hook_def)
  then show ?thesis using tg k by (simp add: unregister_other)
qed

subsection \<open>Properties\<close>

text \<open>C26: in every state that event triggers reach, a change reported at a path with triggers adds one
  event for the (only) trigger there, with the reference and the changed attributes, and a report
  without changes adds none; nothing else changes.\<close>

theorem triggers_deliver:
  assumes "trigger_reachable h" and "dict_get (hs_hooks h) p = Some ks"
  shows "que_hook_path p r data h = Inr (h\<lparr>hs_events := hs_events h @
      (if data = [] then [] else map (\<lambda>k. \<lparr>ev_reference = r, ev_attributes = data, ev_tag = h_tag k\<rparr>) ks)\<rparr>) \<and>
    length ks \<le> 1"
proof -
  have "length ks \<le> 1" "\<forall>k \<in> set ks. is_trigger (hs_tags h) p k"
    using trigger_reachable_inv [OF assms(1)] assms(2) by (auto simp: trigger_inv_def)
  with que_triggers [OF this, of r data h] assms(2) show ?thesis by (simp add: que_hook_path_def)
qed

text \<open>tags identify triggers: in every reachable state two triggers with the same tag are the same
  hook at the same path, and its tag is recorded, so that registering it again is refused.\<close>

lemma trigger_tags_unique:
  assumes "trigger_reachable h" and "dict_get (hs_hooks h) p = Some ks" and "dict_get (hs_hooks h) q = Some ls"
    and "k \<in> set ks" and "l \<in> set ls" and "h_tag k = h_tag l"
  shows "p = q \<and> k = l \<and> (path_list_to_idx pth t \<noteq> None \<longrightarrow> register_event_trigger t (h_tag k) pth attrs a b h = Inl ValueError)"
proof -
  note inv = trigger_reachable_inv [OF assms(1)]
  then have pq: "p = q" using assms(2-6) unfolding trigger_inv_def one_tag_each_def by blast
  moreover have "length ks \<le> 1" "h_tag k \<in> hs_tags h" using inv assms(2,4) by (auto simp: trigger_inv_def is_trigger_def)
  ultimately show ?thesis using assms by (cases ks) (auto simp: register_event_trigger_def)
qed

text \<open>the tag of a replaced trigger is lost.  A second trigger at the same path removes the first
  one's hook but leaves its tag recorded: afterwards no hook has that tag, and registering it at
  any known path raises.\<close>

lemma replaced_tag_is_lost:
  assumes "trigger_reachable (h :: ('c, 'r) hook_system)" and "path_list_to_idx p (t :: 'r path_tree) = Some i" and "tg' \<noteq> tg"
    and "register_event_trigger t tg p attrs a b h = Inr h1" and "register_event_trigger t tg' p attrs' a' b' h1 = Inr h2"
    and "path_list_to_idx q t = Some j"
  shows "(\<forall>u ks. dict_get (hs_hooks h2) u = Some ks \<longrightarrow> tg \<notin> h_tag ` set ks) \<and>
    register_event_trigger t tg q attrs'' a'' b'' h2 = Inl ValueError"
proof -
  have r: "trigger_reachable h1" "trigger_reachable h2"
    using assms(1,4,5) trigger_reachable.tr_register by blast+
  have inv: "trigger_inv h" "trigger_inv h1" using trigger_reachable_inv assms(1) r(1) by blast+
  note e1 = register_effect [OF inv(1) assms(2,4)] and e2 = register_effect [OF inv(2) assms(2,5)]
  from e1 obtain k where k: "h_tag k = tg" "dict_get (hs_hooks h1) i = Some [k]" by blast
  have "tg \<notin> h_tag ` set ks" if ks: "dict_get (hs_hooks h2) u = Some ks" for u ks
  proof (cases "u = i")
    case True
    then show ?thesis using e2 ks assms(3) by auto
  next
    case False
    then have "dict_get (hs_hooks h1) u = Some ks" using e2 ks by simp
    then show ?thesis using inv(2) k False unfolding trigger_inv_def one_tag_each_def by fastforce
  qed
  moreover have "tg \<in> hs_tags h2" using e1 e2 by simp
  ultimately show ?thesis using assms(6) by (simp add: register_event_trigger_def)
qed

text \<open>several hooks at one path.  The queue gets one element per matching callback hook, and
  \<open>execute_queue\<close> runs every hook of the path on every element, so with \<open>n\<close> matching hooks a single
  change makes \<open>n * n\<close> calls.\<close>

lemma callbacks_called_squared:
  assumes "dict_get (hs_hooks h) p = Some ks" and "hs_queue h = []"
    and "\<forall>k \<in> set ks. hook_found data k \<and> h_callback k \<noteq> None"
  shows "\<exists>h1 h2. que_hook_path p r data h = Inr h1 \<and>
    execute_queue (\<lambda>c ref d n. n + 1) h1 (0 :: nat) = Inr (h2, length ks * length ks) \<and> hs_queue h2 = []"
proof -
  let ?el = "\<lparr>q_path = p, q_reference = r, q_changed_data = data\<rparr>"
  have q: "que_hooks p r data ls g = (if ls = [] then g
      else g\<lparr>hs_queue := dict_set (hs_queue g) p
        ((case dict_get (hs_queue g) p of None \<Rightarrow> [] | Some els \<Rightarrow> els) @ replicate (length ls) ?el)\<rparr>)"
    if "set ls \<subseteq> set ks" for ls and g :: "('a, 'b) hook_system"
    using that
  proof (induction ls arbitrary: g)
    case (Cons l ls)
    then obtain c where "hook_found data l" "h_callback l = Some c" using assms(3) by auto
    with Cons show ?case by (auto simp: dict_set_twice replicate_app_Cons_same split: option.split)
  qed simp
  have calls: "fold (\<lambda>k. fold (call_hook (\<lambda>c ref d n. n + 1) k) els) ls n = n + length ls * length els"
    if "set ls \<subseteq> set ks" for ls n and els :: "'b queue_element list"
    using that
  proof (induction ls arbitrary: n)
    case (Cons l ls)
    then obtain c where c: "h_callback l = Some c" using assms(3) by auto
    have "fold (call_hook (\<lambda>c ref d n. n + 1) l) es m = m + length es" for es :: "'b queue_element list" and m :: nat
      by (induction es arbitrary: m) (simp_all add: call_hook_def c)
    with Cons show ?case by simp
  qed simp
  have "que_hook_path p r data h = Inr (que_hooks p r data ks h)" using assms(1) by (simp add: que_hook_path_def)
  moreover have "execute_queue (\<lambda>c ref d n. n + 1) (que_hooks p r data ks h) (0 :: nat) =
      Inr (clear_queue (que_hooks p r data ks h), length ks * length ks)"
    using q [OF subset_refl, of h] calls [OF subset_refl, of "replicate (length ks) ?el" 0] assms(1,2)
    by (cases "ks = []") (simp_all add: execute_queue_def dict_lookup_def)
  ultimately show ?thesis by (simp add: clear_queue_def)
qed

definition watched :: "(nat, nat) hook_system" where
  "watched = (case register_event_trigger sample_tree ProvinceChanged [PStr ''states''] None 0 (-1) new_hook_system of
     Inr h \<Rightarrow> h | Inl _ \<Rightarrow> new_hook_system)"

lemma sample_idx: "path_list_to_idx [PStr ''states''] sample_tree = Some 1"
  by (simp add: path_tree_eval)

lemma watched_registered:
  "register_event_trigger sample_tree ProvinceChanged [PStr ''states''] None 0 (-1) new_hook_system = Inr watched"
  "dict_get (hs_hooks watched) 1 = Some [\<lparr>h_tag = ProvinceChanged, h_path = 1,
     h_change_types = [ADD_OPERATION, REPLACE_OPERATION, REMOVE_OPERATION], h_attributes = None, h_callback = None,
     h_start_depth = 0, h_end_depth = -1\<rparr>]"
  by (simp_all add: watched_def register_event_trigger_def sample_idx new_hook_system_def unregister_hook_def register_hook_def)

lemma watched_reachable: "trigger_reachable watched"
  using trigger_reachable.tr_register [OF trigger_reachable.tr_new watched_registered(1)] .

theorem triggers_deliver_witness:
  "que_hook_path 1 (Some 7) [(PStr ''b'', (VInt 1, VInt 2))] watched =
     Inr (watched\<lparr>hs_events := hs_events watched @
       [\<lparr>ev_reference = Some 7, ev_attributes = [(PStr ''b'', (VInt 1, VInt 2))], ev_tag = ProvinceChanged\<rparr>]\<rparr>)"
  using triggers_deliver [OF watched_reachable watched_registered(2), of "Some 7" "[(PStr ''b'', (VInt 1, VInt 2))]"] by simp

lemma trigger_tags_unique_witness:
  "register_event_trigger sample_tree ProvinceChanged [PStr ''states''] None 0 0 watched = Inl ValueError"
  using trigger_tags_unique [OF watched_reachable watched_registered(2) watched_registered(2), of _ _ "[PStr ''states'']" sample_tree None 0 0]
  by (simp add: sample_idx)

lemma replaced_tag_is_lost_witness:
  "\<exists>h. register_event_trigger sample_tree ArmyChanged [PStr ''states''] None 0 (-1) watched = Inr h \<and>
     register_event_trigger sample_tree ProvinceChanged [PStr ''states''] None 0 (-1) h = Inl ValueError"
proof -
  have "hs_tags watched = {ProvinceChanged}"
    by (simp add: watched_def register_event_trigger_def sample_idx new_hook_system_def unregister_hook_def register_hook_def)
  then obtain h where h: "register_event_trigger sample_tree ArmyChanged [PStr ''states''] None 0 (-1) watched = Inr h"
    by (simp add: register_event_trigger_def sample_idx)
  moreover have "ArmyChanged \<noteq> ProvinceChanged" by simp
  ultimately show ?thesis
    using replaced_tag_is_lost [OF trigger_reachable.tr_new sample_idx _ watched_registered(1) h sample_idx, of None 0 "-1"] by blast
qed

definition twice_hooked :: "(nat, nat) hook_system" where
  "twice_hooked = new_hook_system\<lparr>hs_hooks := [(1, [
     \<lparr>h_tag = ArmyChanged, h_path = 1, h_change_types = [ADD_OPERATION], h_attributes = None, h_callback = Some 0,
      h_start_depth = 0, h_end_depth = -1\<rparr>,
     \<lparr>h_tag = TeamChanged, h_path = 1, h_change_types = [ADD_OPERATION], h_attributes = None, h_callback = Some 1,
      h_start_depth = 0, h_end_depth = -1\<rparr>])]\<rparr>"

lemma callbacks_called_squared_witness:
  "\<exists>h1 h2. que_hook_path 1 None [(PStr ''b'', (VNone, VInt 2))] twice_hooked = Inr h1 \<and>
    execute_queue (\<lambda>c ref d n. n + 1) h1 (0 :: nat) = Inr (h2, 4)"
proof -
  let ?ks = "snd (hd (hs_hooks twice_hooked))"
  have "dict_get (hs_hooks twice_hooked) 1 = Some ?ks" "hs_queue twice_hooked = []"
    "\<forall>k \<in> set ?ks. hook_found [(PStr ''b'', (VNone, VInt 2))] k \<and> h_callback k \<noteq> None" "length ?ks * length ?ks = 4"
    by (auto simp: twice_hooked_def new_hook_system_def hook_found_def changed_op_def)
  with callbacks_called_squared [OF this(1-3), of None] show ?thesis by metis
qed

end
