(* ===== verification/Rmq.thy ===== *)
theory Rmq
  imports Prelude
begin

text \<open>
  Range-minimum queries by a sparse table: \<open>PathTree.precompute_rmq\<close> (\<open>replay/path_tree.py\<close>) builds
  the table, \<open>steiner_tree.cpp\<close> queries it.

  The table is over the Euler tour of the path tree and compares the depths of the nodes at two
  positions; here \<open>w\<close> is the list of these depths.  Integers are unbounded: the code uses 32-bit
  arrays, and no tree comes near that size.  The accesses of \<open>steiner_tree.cpp\<close> are unchecked; the
  theorem shows that for positions inside the tour the query stays inside the table.
\<close>

subsection \<open>The table\<close>

definition log_table :: "nat \<Rightarrow> nat list" where
  "log_table n = fold (\<lambda>i lg. lg[i := lg ! (i div 2) + 1]) [2..<n + 1] (replicate (n + 1) 0)"

text \<open>Row \<open>k\<close> from row \<open>k - 1\<close>; the entries without a full span to their right stay zero.\<close>

definition st_row :: "nat list \<Rightarrow> nat \<Rightarrow> nat list \<Rightarrow> nat list" where
  "st_row w k prev =
     fold (\<lambda>i row. row[i := (let a = prev ! i; b = prev ! (i + 2 ^ (k - 1)) in if w ! a \<le> w ! b then a else b)])
       [0..<length w + 1 - 2 ^ k] (replicate (length w) 0)"

fun st_rows :: "nat list \<Rightarrow> nat \<Rightarrow> nat list list" where
  "st_rows w 0 = [[0..<length w]]"
| "st_rows w (Suc k) = (let rows = st_rows w k in rows @ [st_row w (Suc k) (last rows)])"

text \<open>The two tables that \<open>precompute_rmq\<close> leaves.\<close>

definition precompute_rmq :: "nat list \<Rightarrow> nat list \<times> nat list list" where
  "precompute_rmq w =
     (let lg = log_table (length w); K = lg ! length w + 1
      in (lg, st_rows w (K - 1)))"

text \<open>The query between two positions; the C++ code takes the left candidate only when it is strictly
  smaller.\<close>

definition rmq_query :: "nat list \<Rightarrow> nat list \<times> nat list list \<Rightarrow> nat \<Rightarrow> nat \<Rightarrow> nat" where
  "rmq_query w tab left right =
     (let len = right - left + 1; k = fst tab ! len;
          a = snd tab ! k ! left; b = snd tab ! k ! (right + 1 - 2 ^ k)
      in if w ! a < w ! b then a else b)"

subsection \<open>The interface\<close>

text \<open>What a client of range-minimum queries relies on: the answer lies in the range and nothing in
  the range is smaller.\<close>

locale range_min =
  fixes w :: "nat list" and query :: "nat \<Rightarrow> nat \<Rightarrow> nat"
  assumes query_range: "l \<le> r \<Longrightarrow> r < length w \<Longrightarrow> l \<le> query l r \<and> query l r \<le> r"
    and query_least: "l \<le> r \<Longrightarrow> r < length w \<Longrightarrow> l \<le> q \<Longrightarrow> q \<le> r \<Longrightarrow> w ! query l r \<le> w ! q"
begin

lemma query_Min: "l \<le> r \<Longrightarrow> r < length w \<Longrightarrow> w ! query l r = Min ((!) w ` {l..r})"
  using query_range [of l r] query_least [of l r] by (intro Min_eqI [symmetric]) auto

end

subsection \<open>Correctness\<close>

lemma nth_fold_update:
  "j < length r \<Longrightarrow> fold (\<lambda>i row. row[i := f i]) [0..<m] r ! j = (if j < m then f j else r ! j)"
proof (induction m)
  case (Suc m)
  have "length (fold (\<lambda>i row. row[i := f i]) [0..<m] r) = length r" for m
    by (induction m) simp_all
  with Suc show ?case by (cases "j = m") auto
qed simp

definition is_log :: "nat \<Rightarrow> nat \<Rightarrow> bool" where
  "is_log i k \<longleftrightarrow> 2 ^ k \<le> i \<and> i < 2 ^ Suc k"

lemma is_log_double: "is_log (i div 2) k \<Longrightarrow> 2 \<le> i \<Longrightarrow> is_log i (k + 1)"
  by (auto simp: is_log_def)

lemma log_loop:
  assumes "length r = n + 1" and "r ! 1 = 0" and "m \<le> n + 1"
  shows "length (fold (\<lambda>i lg. lg[i := lg ! (i div 2) + 1]) [2..<m] r) = n + 1 \<and>
    (\<forall>i. 1 \<le> i \<and> (i = 1 \<or> i < m) \<and> i \<le> n \<longrightarrow> is_log i (fold (\<lambda>i lg. lg[i := lg ! (i div 2) + 1]) [2..<m] r ! i))"
  using assms(3)
proof (induction m)
  case 0
  then show ?case using assms by (auto simp: is_log_def)
next
  case (Suc m)
  define l where l: "l = fold (\<lambda>i lg. lg[i := lg ! (i div 2) + 1]) [2..<m] r"
  have ih: "length l = n + 1" "\<And>i. 1 \<le> i \<Longrightarrow> i = 1 \<or> i < m \<Longrightarrow> i \<le> n \<Longrightarrow> is_log i (l ! i)"
    using Suc unfolding l by auto
  show ?case
  proof (cases "m < 2")
    case True
    then have "[2..<Suc m] = []" by simp
    moreover have "is_log 1 (r ! 1)" using assms(2) by (simp add: is_log_def)
    moreover have "i = 1" if "1 \<le> i" "i = 1 \<or> i < Suc m" for i using that True by linarith
    ultimately show ?thesis using assms(1) by (metis fold_simps(1))
  next
    case False
    with Suc.prems have m: "2 \<le> m" "m \<le> n" by simp_all
    have "is_log (m div 2) (l ! (m div 2))" using m by (intro ih(2)) auto
    then have "is_log m (l ! (m div 2) + 1)" using m(1) by (rule is_log_double)
    moreover have "fold (\<lambda>i lg. lg[i := lg ! (i div 2) + 1]) [2..<Suc m] r = l[m := l ! (m div 2) + 1]"
      using m(1) by (simp add: l)
    ultimately show ?thesis using ih m by (auto simp: nth_list_update less_Suc_eq_le order.order_iff_strict)
  qed
qed

lemma log_table_log: "1 \<le> i \<Longrightarrow> i \<le> n \<Longrightarrow> is_log i (log_table n ! i)"
  using log_loop [of "replicate (n + 1) 0" n "n + 1"] by (auto simp: log_table_def simp del: replicate_Suc upt_Suc)

lemma length_rows [simp]: "length (st_rows w k) = Suc k" "st_rows w k \<noteq> []"
  by (induction k) (simp_all add: Let_def)

lemma st_rows_prefix: "j \<le> k \<Longrightarrow> st_rows w k ! j = last (st_rows w j)"
proof (induction k)
  case (Suc k)
  show ?case
  proof (cases "j = Suc k")
    case True
    then show ?thesis by (simp add: Let_def nth_append)
  next
    case False
    with Suc show ?thesis by (simp add: Let_def nth_append)
  qed
qed (simp add: last_conv_nth)

text \<open>Entry \<open>i\<close> of row \<open>k\<close> is the position of a minimum among the \<open>2 ^ k\<close> positions from \<open>i\<close> on.\<close>

definition least_in :: "nat list \<Rightarrow> nat \<Rightarrow> nat \<Rightarrow> nat \<Rightarrow> bool" where
  "least_in w l r p \<longleftrightarrow> l \<le> p \<and> p < r \<and> (\<forall>q. l \<le> q \<and> q < r \<longrightarrow> w ! p \<le> w ! q)"

lemma least_in_join:
  "least_in w l m a \<Longrightarrow> least_in w l' r b \<Longrightarrow> l \<le> l' \<Longrightarrow> l' \<le> m \<Longrightarrow> m \<le> r \<Longrightarrow>
   (w ! a \<le> w ! b \<longrightarrow> least_in w l r a) \<and> (w ! b \<le> w ! a \<longrightarrow> least_in w l r b)"
  unfolding least_in_def by (meson le_less_trans less_le_trans linorder_not_less order_trans order.strict_implies_order)

lemma st_row_least:
  "i + 2 ^ k \<le> length w \<Longrightarrow> least_in w i (i + 2 ^ k) (last (st_rows w k) ! i)"
proof (induction k arbitrary: i)
  case 0
  then show ?case by (auto simp: least_in_def less_Suc_eq_le)
next
  case (Suc k)
  let ?p = "last (st_rows w k)" and ?s = "2 ^ k :: nat"
  have two: "2 ^ Suc k = ?s + ?s" by simp
  have a: "least_in w i (i + ?s) (?p ! i)" using Suc.prems by (intro Suc.IH) simp
  have b: "least_in w (i + ?s) (i + ?s + ?s) (?p ! (i + ?s))" using Suc.prems by (intro Suc.IH) simp
  have "0 < ?s" by simp
  with Suc.prems have i: "i < length w" unfolding two by linarith
  have "last (st_rows w (Suc k)) ! i = (if w ! (?p ! i) \<le> w ! (?p ! (i + ?s)) then ?p ! i else ?p ! (i + ?s))"
    unfolding st_rows.simps Let_def last_snoc st_row_def
    using Suc.prems i by (subst nth_fold_update) auto
  then have "least_in w i (i + ?s + ?s) (last (st_rows w (Suc k)) ! i)"
    using least_in_join [OF a b] by (simp del: st_rows.simps)
  then show ?case by (simp add: mult_2 add.assoc del: st_rows.simps)
qed

lemma rmq_query_least:
  assumes "l \<le> r" and "r < length w"
  shows "least_in w l (r + 1) (rmq_query w (precompute_rmq w) l r)"
proof -
  let ?n = "length w" and ?len = "r - l + 1"
  let ?k = "log_table ?n ! ?len" and ?K = "log_table ?n ! ?n"
  have k: "is_log ?len ?k" using assms by (intro log_table_log) auto
  have K: "is_log ?n ?K" using assms by (intro log_table_log) auto
  have "(2 :: nat) ^ ?k < 2 ^ Suc ?K" using k K assms by (auto simp: is_log_def)
  then have "?k < Suc ?K" by (rule power_less_imp_less_exp [rotated]) simp
  then have kK: "?k \<le> ?K" by simp
  have le: "l + 2 ^ ?k \<le> r + 1" using k assms by (auto simp: is_log_def)
  have ge: "r + 1 - 2 ^ ?k \<le> l + 2 ^ ?k" using k assms by (auto simp: is_log_def)
  have a: "least_in w l (l + 2 ^ ?k) (last (st_rows w ?k) ! l)" using le assms by (intro st_row_least) simp
  have b: "least_in w (r + 1 - 2 ^ ?k) (r + 1 - 2 ^ ?k + 2 ^ ?k) (last (st_rows w ?k) ! (r + 1 - 2 ^ ?k))"
    using le assms by (intro st_row_least) simp
  have "r + 1 - 2 ^ ?k + 2 ^ ?k = r + 1" using le by simp
  with b have b: "least_in w (r + 1 - 2 ^ ?k) (r + 1) (last (st_rows w ?k) ! (r + 1 - 2 ^ ?k))" by simp
  have "l \<le> r + 1 - 2 ^ ?k" using le by simp
  from least_in_join [OF a b this ge] le show ?thesis
    using st_rows_prefix [OF kK, of w] by (auto simp: rmq_query_def precompute_rmq_def Let_def)
qed

interpretation sparse: range_min w "rmq_query w (precompute_rmq w)" for w
  using rmq_query_least [of _ _ w] by unfold_locales (auto simp: least_in_def less_Suc_eq_le)

text \<open>C27: the sparse table answers range-minimum queries: for two positions in the list, the query
  returns a position between them whose entry is the least of the range.\<close>

theorem sparse_table_min:
  assumes "l \<le> r" and "r < length w"
  shows "w ! rmq_query w (precompute_rmq w) l r = Min ((!) w ` {l..r}) \<and>
    l \<le> rmq_query w (precompute_rmq w) l r \<and> rmq_query w (precompute_rmq w) l r \<le> r"
  using sparse.query_Min [OF assms] sparse.query_range [OF assms] by simp

theorem sparse_table_min_witness:
  "[0, 1, 0, 2, 1] ! rmq_query [0, 1, 0, 2, 1] (precompute_rmq [0, 1, 0, 2, 1]) 3 4 = Min ((!) [0, 1, 0, 2, (1 :: nat)] ` {3..4})"
  using sparse_table_min [of 3 4 "[0, 1, 0, 2, 1]"] by simp

end
