(* ===== verification/Steiner.thy ===== *)
theory Steiner
  imports PathTree Rmq "HOL-Library.Sublist"
begin

text \<open>
  The part of a path tree that some nodes span: the Euler tour and its tables
  (\<open>PathTree.precompute\<close>, \<open>replay/path_tree.py\<close>) and the Steiner tree built from them
  (\<open>replay/steiner_tree.cpp\<close>), which every replayed patch and every hook uses.

  The arrays are lists; \<open>numpy\<close> raises \<open>IndexError\<close> outside an array, the C++ code reads them
  unchecked.  The stack of a loop is a list with the top first.  An \<open>unordered_map\<close> of the C++ code
  has no fixed iteration order; here it is the order of insertion, and the result does not depend on
  it, because every list of children is sorted at the end.  The main theorem says which tree comes
  out: the nodes on the paths from the root to the given nodes, each with its children among them.
\<close>

subsection \<open>The Euler tour\<close>

record tour =
  euler :: "nat list"
  tin :: "nat list"
  tout :: "nat list"
  depth :: "nat list"
  par :: "int list"
  first :: "int list"

definition new_tour :: "nat \<Rightarrow> tour" where
  "new_tour N = \<lparr>euler = [], tin = replicate N 0, tout = replicate N 0, depth = replicate N 0,
     par = replicate N (-1), first = replicate N (-1)\<rparr>"

definition array_set :: "'a list \<Rightarrow> nat \<Rightarrow> 'a \<Rightarrow> 'a list result" where
  "array_set xs i v = (if i < length xs then Inr (xs[i := v]) else Inl IndexError)"

text \<open>What the loop does with one element of its stack, before it pushes; the state is the time and
  the arrays.\<close>

definition tour_event :: "'r path_tree \<Rightarrow> nat \<times> nat \<times> nat \<Rightarrow> nat \<times> tour \<Rightarrow> (nat \<times> tour) result" where
  "tour_event t e s =
     (case (e, s) of ((i, d, state), (time, T)) \<Rightarrow>
        rbind (dict_lookup (idx_to_node t) i) (\<lambda>n.
        if state = 0 then
          rbind (array_set (tin T) i time) (\<lambda>tin'.
          rbind (array_set (depth T) i d) (\<lambda>depth'.
          let euler' = euler T @ [i] in
          rbind (if i < length (first T) \<and> first T ! i = -1 then array_set (first T) i (int (length euler') - 1)
                 else if i < length (first T) then Inr (first T) else Inl IndexError) (\<lambda>first'.
          rbind (rfold (\<lambda>c p. array_set p c (int i)) (rev (map snd (children n))) (par T)) (\<lambda>par'.
            Inr (time + 1, T\<lparr>euler := euler', tin := tin', depth := depth', par := par', first := first'\<rparr>)))))
        else if state = 1 then
          rbind (array_set (tout T) i time) (\<lambda>tout'. Inr (time + 1, T\<lparr>tout := tout'\<rparr>))
        else Inr (time + 1, T\<lparr>euler := euler T @ [i]\<rparr>)))"

text \<open>The pushes of a first visit: below everything the end of the node, then the children from the
  last to the first, with a return to the node between two of them.\<close>

definition push_children :: "nat \<Rightarrow> nat \<Rightarrow> nat list \<Rightarrow> (nat \<times> nat \<times> nat) list \<Rightarrow> (nat \<times> nat \<times> nat) list" where
  "push_children i d cs stack =
     fold (\<lambda>(j, c) st. (if j < length cs - 1 then [(i, d, 2)] else []) @ (c, d + 1, 0) # st)
       (enumerate 0 (rev cs)) stack"

partial_function (option) euler_loop ::
    "'r path_tree \<Rightarrow> (nat \<times> nat \<times> nat) list \<Rightarrow> nat \<times> tour \<Rightarrow> tour result option" where
  [code]: "euler_loop t stack s =
     (case stack of
        [] \<Rightarrow> Some (Inr (snd s))
      | (i, d, state) # rest \<Rightarrow>
          (case tour_event t (i, d, state) s of
             Inl e \<Rightarrow> Some (Inl e)
           | Inr s' \<Rightarrow>
               euler_loop t
                 (if state = 0 then
                    push_children i d
                      (case dict_get (idx_to_node t) i of None \<Rightarrow> [] | Some n \<Rightarrow> map snd (children n)) ((i, d, 1) # rest)
                  else rest) s'))"

definition precompute_euler_tour :: "'r path_tree \<Rightarrow> tour result option" where
  "precompute_euler_tour t = euler_loop t [(0, 0, 0)] (0, new_tour (idx_counter t))"

text \<open>\<open>precompute\<close>: the tour, and the sparse table over the depths along it.\<close>

type_synonym tables = "tour \<times> nat list \<times> nat list list"

definition tour_depths :: "tour \<Rightarrow> nat list" where
  "tour_depths T = map ((!) (depth T)) (euler T)"

definition precompute :: "'r path_tree \<Rightarrow> tables result option" where
  "precompute t =
     (case precompute_euler_tour t of
        None \<Rightarrow> None
      | Some (Inl e) \<Rightarrow> Some (Inl e)
      | Some (Inr T) \<Rightarrow> Some (Inr (T, precompute_rmq (tour_depths T))))"

subsection \<open>The Steiner tree\<close>

definition lca :: "tables \<Rightarrow> nat \<Rightarrow> nat \<Rightarrow> nat" where
  "lca tb u v =
     (case tb of (T, rmq) \<Rightarrow>
        let l = nat (first T ! u); r = nat (first T ! v);
            (l, r) = (if r < l then (r, l) else (l, r))
        in euler T ! rmq_query (tour_depths T) rmq l r)"

definition sort_unique :: "tour \<Rightarrow> nat list \<Rightarrow> nat list" where
  "sort_unique T xs = remdups_adj (sort_key ((!) (tin T)) xs)"

definition full_nodes :: "tables \<Rightarrow> nat list \<Rightarrow> nat list" where
  "full_nodes tb nodes =
     (let T = fst tb;
          nodes = (if 0 \<in> set nodes then nodes else nodes @ [0]);
          nodes = sort_unique T nodes
      in sort_unique T (nodes @ map2 (lca tb) (butlast nodes) (tl nodes)))"

text \<open>One step of the pass with the stack: pop until the top is an ancestor, and make it the parent.\<close>

definition covers_node :: "tour \<Rightarrow> nat \<Rightarrow> nat \<Rightarrow> bool" where
  "covers_node T u v \<longleftrightarrow> tin T ! u \<le> tin T ! v \<and> tin T ! v \<le> tout T ! u"

definition virtual_step :: "tour \<Rightarrow> nat \<Rightarrow> nat list \<times> (nat, nat) dict \<Rightarrow> nat list \<times> (nat, nat) dict" where
  "virtual_step T v s =
     (case s of (stack, cp) \<Rightarrow>
        if stack = [] then ([v], cp)
        else let st = dropWhile (\<lambda>top. \<not> covers_node T top v) stack
             in (v # st, if st = [] then cp else dict_set cp v (hd st)))"

definition compressed_parents :: "tour \<Rightarrow> nat list \<Rightarrow> (nat, nat) dict" where
  "compressed_parents T full = snd (fold (virtual_step T) full ([], []))"

text \<open>Expanding one edge of the virtual tree: climb from the child to its virtual parent and add the
  real edges; the state is the adjacency and the set of edges already added.\<close>

type_synonym adjacency = "(nat, nat list) dict"

definition add_tree_edge :: "nat \<Rightarrow> nat \<Rightarrow> adjacency \<times> (nat \<times> nat) set \<Rightarrow> adjacency \<times> (nat \<times> nat) set" where
  "add_tree_edge p c s =
     (case s of (adj, added) \<Rightarrow>
        if (p, c) \<in> added then s
        else (dict_set adj p ((case dict_get adj p of None \<Rightarrow> [] | Some vs \<Rightarrow> vs) @ [c]), insert (p, c) added))"

partial_function (option) climb ::
    "tour \<Rightarrow> nat \<Rightarrow> nat \<Rightarrow> adjacency \<times> (nat \<times> nat) set \<Rightarrow> (adjacency \<times> (nat \<times> nat) set) result option" where
  [code]: "climb T stop cur s =
     (if cur = stop then Some (Inr s)
      else let p = par T ! cur in
        if p = -1 then Some (Inl RuntimeError)
        else climb T stop (nat p) (add_tree_edge (nat p) cur s))"

fun expand_edges ::
    "tour \<Rightarrow> (nat, nat) dict \<Rightarrow> adjacency \<times> (nat \<times> nat) set \<Rightarrow> (adjacency \<times> (nat \<times> nat) set) result option" where
  "expand_edges T [] s = Some (Inr s)"
| "expand_edges T ((c, p) # cps) s =
     (case climb T p c s of
        None \<Rightarrow> None
      | Some (Inl e) \<Rightarrow> Some (Inl e)
      | Some (Inr s') \<Rightarrow> expand_edges T cps s')"

definition build_steiner_tree :: "tables \<Rightarrow> nat list \<Rightarrow> adjacency result option" where
  "build_steiner_tree tb nodes =
     (let T = fst tb; full = full_nodes tb nodes in
      case expand_edges T (compressed_parents T full) (map (\<lambda>v. (v, [])) full, {}) of
        None \<Rightarrow> None
      | Some (Inl e) \<Rightarrow> Some (Inl e)
      | Some (Inr (adj, _)) \<Rightarrow> Some (Inr (map (map_prod id (sort_key ((!) (tin T)))) adj)))"

text \<open>\<open>idx_to_path_list\<close> follows the Steiner tree of one node from the root.\<close>

fun follow :: "'r path_tree \<Rightarrow> adjacency \<Rightarrow> nat \<Rightarrow> nat \<Rightarrow> path result" where
  "follow t adj 0 current = Inr []"
| "follow t adj (Suc n) current =
     rbind (dict_lookup adj current) (\<lambda>vs.
     case vs of
       [] \<Rightarrow> Inl IndexError
     | v # _ \<Rightarrow>
         rbind (dict_lookup (idx_to_node t) v) (\<lambda>nd.
         rbind (follow t adj n v) (\<lambda>p. Inr (path_element nd # p))))"

definition idx_to_path_list :: "'r path_tree \<Rightarrow> tables \<Rightarrow> nat \<Rightarrow> path result option" where
  "idx_to_path_list t tb idx =
     (case build_steiner_tree tb [idx] of
        None \<Rightarrow> None
      | Some (Inl e) \<Rightarrow> Some (Inl e)
      | Some (Inr adj) \<Rightarrow> Some (follow t adj (length adj - 1) 0))"


subsection \<open>The events of the tour\<close>

definition kids :: "'r path_tree \<Rightarrow> nat \<Rightarrow> nat list" where
  "kids t i = (case node_at t i of None \<Rightarrow> [] | Some n \<Rightarrow> map snd (children n))"

fun weave :: "'a \<Rightarrow> 'a list list \<Rightarrow> 'a list" where
  "weave x [] = []"
| "weave x [l] = l"
| "weave x (l # l' # ls) = l @ x # weave x (l' # ls)"

text \<open>The elements the loop pops, in order; for a well-formed tree the filter keeps every child.\<close>

function evs :: "'r path_tree \<Rightarrow> nat \<Rightarrow> nat \<Rightarrow> (nat \<times> nat \<times> nat) list" where
  "evs t i d = (i, d, 0) #
     weave (i, d, 2) (map (\<lambda>c. evs t c (d + 1)) (filter (\<lambda>c. i < c \<and> c < idx_counter t) (kids t i))) @ [(i, d, 1)]"
  by pat_completeness auto
termination
  by (relation "measure (\<lambda>(t, i, d). idx_counter t - i)") auto

declare evs.simps [simp del]

lemma kids_wf: "tree_wf t \<Longrightarrow> c \<in> set (kids t i) \<Longrightarrow> i < c \<and> c < idx_counter t"
  using children_wf [of t i] by (cases "node_at t i") (auto simp: kids_def)

lemma evs_wf: "tree_wf t \<Longrightarrow>
  evs t i d = (i, d, 0) # weave (i, d, 2) (map (\<lambda>c. evs t c (d + 1)) (kids t i)) @ [(i, d, 1)]"
  using kids_wf [of t _ i] by (subst evs.simps) (simp add: filter_id_conv)

fun kid_items :: "nat \<Rightarrow> nat \<Rightarrow> nat list \<Rightarrow> (nat \<times> nat \<times> nat) list" where
  "kid_items i d [] = []"
| "kid_items i d [c] = [(c, d + 1, 0)]"
| "kid_items i d (c # c' # cs) = (c, d + 1, 0) # (i, d, 2) # kid_items i d (c' # cs)"

lemma kid_items_Cons: "cs \<noteq> [] \<Longrightarrow> kid_items i d (c # cs) = (c, d + 1, 0) # (i, d, 2) # kid_items i d cs"
  by (cases cs) simp_all

lemma push_children_items: "push_children i d cs stack = kid_items i d cs @ stack"
proof -
  let ?f = "\<lambda>n (j, c) st. (if j < n - 1 then [(i, d, 2 :: nat)] else []) @ (c, d + 1, 0) # st"
  have "fold (?f n) (enumerate 0 (rev ds)) stack = (if ds = [] then [] else (i, d, 2) # kid_items i d ds) @ stack"
    if "length ds < n" for ds n
    using that
  proof (induction ds)
    case (Cons x ds)
    then show ?case by (cases "ds = []") (simp_all add: enumerate_append_eq kid_items_Cons)
  qed simp
  from this [of "tl cs" "length cs"] show ?thesis unfolding push_children_def
    by (cases cs; cases "tl cs") (simp_all add: enumerate_append_eq kid_items_Cons)
qed

lemma euler_loop_Cons:
  "euler_loop t ((i, d, state) # rest) s =
     (case tour_event t (i, d, state) s of
        Inl e \<Rightarrow> Some (Inl e)
      | Inr s' \<Rightarrow> euler_loop t (if state = 0 then kid_items i d (kids t i) @ (i, d, 1) # rest else rest) s')"
  by (subst euler_loop.simps) (simp add: push_children_items kids_def node_at_def cong: sum.case_cong option.case_cong)

text \<open>Running the loop over a node is running its events.\<close>

definition run_then :: "'r path_tree \<Rightarrow> (nat \<times> nat \<times> nat) list \<Rightarrow> (nat \<times> nat \<times> nat) list \<Rightarrow> nat \<times> tour \<Rightarrow> tour result option" where
  "run_then t es rest s = (case rfold (tour_event t) es s of Inl e \<Rightarrow> Some (Inl e) | Inr s' \<Rightarrow> euler_loop t rest s')"

lemma run_then_simps:
  "run_then t [] rest s = euler_loop t rest s"
  "run_then t (e # es) rest s = (case tour_event t e s of Inl x \<Rightarrow> Some (Inl x) | Inr s' \<Rightarrow> run_then t es rest s')"
  by (simp_all add: run_then_def split: sum.split)

lemma run_then_append:
  "run_then t (a @ b) rest s = (case rfold (tour_event t) a s of Inl x \<Rightarrow> Some (Inl x) | Inr s' \<Rightarrow> run_then t b rest s')"
  by (simp add: run_then_def rfold_append split: sum.split)

lemma run_then_leave: "run_then t es ((i, d, 1) # rest) s = run_then t (es @ [(i, d, 1)]) rest s"
proof -
  have "euler_loop t ((i, d, 1) # rest) s' = run_then t [(i, d, 1)] rest s'" for s'
    by (simp add: euler_loop_Cons run_then_simps cong: sum.case_cong)
  then show ?thesis by (simp only: run_then_append) (simp only: run_then_def)
qed

lemma euler_loop_evs:
  assumes "tree_wf t" "i < idx_counter t"
  shows "euler_loop t ((i, d, 0) # rest) s = run_then t (evs t i d) rest s"
  using assms(2)
proof (induction "idx_counter t - i" arbitrary: i d rest s rule: less_induct)
  case less
  have weave: "euler_loop t (kid_items i d cs @ rest') s' = run_then t (weave (i, d, 2) (map (\<lambda>c. evs t c (d + 1)) cs)) rest' s'"
    if "set cs \<subseteq> set (kids t i)" for cs rest' s'
    using that
  proof (induction cs arbitrary: s')
    case (Cons c cs)
    then have "i < c" "c < idx_counter t" using kids_wf [OF assms(1)] by auto
    then have c: "euler_loop t ((c, d + 1, 0) # r) s = run_then t (evs t c (d + 1)) r s" for r s
      using less.hyps [of c] less.prems by simp
    show ?case
    proof (cases cs)
      case Nil
      then show ?thesis using c by simp
    next
      case (Cons c' cs')
      then have "kid_items i d (c # cs) = (c, d + 1, 0) # (i, d, 2) # kid_items i d cs" by simp
      moreover have "weave (i, d, 2) (map (\<lambda>c. evs t c (d + 1)) (c # cs)) =
          evs t c (d + 1) @ (i, d, 2) # weave (i, d, 2) (map (\<lambda>c. evs t c (d + 1)) cs)" using Cons by simp
      moreover have "euler_loop t ((i, d, 2) # kid_items i d cs @ rest') s2 =
          run_then t ((i, d, 2) # weave (i, d, 2) (map (\<lambda>c. evs t c (d + 1)) cs)) rest' s2" for s2
        unfolding euler_loop_Cons run_then_simps using Cons.IH Cons.prems by (simp cong: sum.case_cong)
      ultimately show ?thesis by (simp only: append_Cons c run_then_append) (simp only: run_then_def)
    qed
  qed (simp add: run_then_simps)
  have "euler_loop t ((i, d, 0) # rest) s =
      (case tour_event t (i, d, 0) s of Inl e \<Rightarrow> Some (Inl e)
       | Inr s' \<Rightarrow> run_then t (weave (i, d, 2) (map (\<lambda>c. evs t c (d + 1)) (kids t i))) ((i, d, 1) # rest) s')"
    by (simp add: euler_loop_Cons weave [OF subset_refl] cong: sum.case_cong)
  then show ?case
    unfolding run_then_leave by (subst evs_wf [OF assms(1)]) (simp only: run_then_simps)
qed


subsection \<open>The effect of the events\<close>

fun upd :: "'r path_tree \<Rightarrow> nat \<times> nat \<times> nat \<Rightarrow> nat \<times> tour \<Rightarrow> nat \<times> tour" where
  "upd t (i, d, state) (time, T) = (time + 1,
     if state = 0 then
       T\<lparr>euler := euler T @ [i], tin := (tin T)[i := time], depth := (depth T)[i := d],
         par := fold (\<lambda>c p. p[c := int i]) (rev (kids t i)) (par T),
         first := (if first T ! i = -1 then (first T)[i := int (length (euler T))] else first T)\<rparr>
     else if state = 1 then T\<lparr>tout := (tout T)[i := time]\<rparr>
     else T\<lparr>euler := euler T @ [i]\<rparr>)"

definition sized :: "nat \<Rightarrow> tour \<Rightarrow> bool" where
  "sized N T \<longleftrightarrow> length (tin T) = N \<and> length (tout T) = N \<and> length (depth T) = N \<and> length (par T) = N \<and> length (first T) = N"

lemma length_set_kids: "length (fold (\<lambda>c p. p[c := x]) cs p) = length p"
  by (induction cs arbitrary: p) simp_all

lemma sized_upd: "sized N (snd (upd t e s)) \<longleftrightarrow> sized N (snd s)"
  by (cases e; cases s) (simp add: sized_def length_set_kids)

lemma rfold_set_kids:
  "\<forall>c \<in> set cs. c < length p \<Longrightarrow> rfold (\<lambda>c p. array_set p c x) cs p = Inr (fold (\<lambda>c p. p[c := x]) cs p)"
  by (induction cs arbitrary: p) (simp_all add: array_set_def)

lemma tour_event_upd:
  assumes "tree_wf t" "sized (idx_counter t) (snd s)" "fst e < idx_counter t"
  shows "tour_event t e s = Inr (upd t e s)"
proof -
  obtain i d state time T where e: "e = (i, d, state)" "s = (time, T)" by (metis prod_cases3 surj_pair)
  obtain n where n: "dict_get (idx_to_node t) i = Some n"
    using tree_wf_node [OF assms(1), of i] assms(3) by (auto simp: e node_at_def)
  then have k: "kids t i = map snd (children n)" by (simp add: kids_def node_at_def)
  have "\<forall>c \<in> set (rev (kids t i)). c < length (par T)"
    using kids_wf [OF assms(1), of _ i] assms(2) by (simp add: e sized_def)
  then have "rfold (\<lambda>c p. array_set p c (int i)) (rev (kids t i)) (par T) =
      Inr (fold (\<lambda>c p. p[c := int i]) (rev (kids t i)) (par T))" by (rule rfold_set_kids)
  then show ?thesis using assms n k
    by (auto simp: tour_event_def e sized_def array_set_def dict_lookup_def Let_def)
qed

lemma rfold_upd:
  assumes "tree_wf t" "sized (idx_counter t) (snd s)" "\<forall>e \<in> set es. fst e < idx_counter t"
  shows "rfold (tour_event t) es s = Inr (fold (upd t) es s)"
  using assms(2,3)
proof (induction es arbitrary: s)
  case (Cons e es)
  then show ?case using tour_event_upd [OF assms(1), of s e] by (simp add: sized_upd)
qed simp

lemma sized_fold: "sized N (snd (fold (upd t) es s)) \<longleftrightarrow> sized N (snd s)"
  by (induction es arbitrary: s) (simp_all add: sized_upd)

lemma time_fold: "fst (fold (upd t) es s) = fst s + length es"
proof (induction es arbitrary: s)
  case (Cons e es)
  then show ?case by (cases e; cases s) simp
qed simp

definition shown :: "(nat \<times> nat \<times> nat) list \<Rightarrow> nat list" where
  "shown es = map fst (filter (\<lambda>(i, d, s). s \<noteq> 1) es)"

lemma shown_simps [simp]:
  "shown [] = []" "shown (a @ b) = shown a @ shown b" "shown ((i, d, s) # es) = (if s = 1 then shown es else i # shown es)"
  by (simp_all add: shown_def)

lemma euler_fold: "euler (snd (fold (upd t) es s)) = euler (snd s) @ shown es"
proof (induction es arbitrary: s)
  case (Cons e es)
  then show ?case by (cases e; cases s) simp
qed simp

text \<open>The nodes that are entered, and those that are left, along a list of events.\<close>

definition entered :: "(nat \<times> nat \<times> nat) list \<Rightarrow> nat list" where
  "entered es = map fst (filter (\<lambda>(i, d, s). s = 0) es)"

definition left :: "(nat \<times> nat \<times> nat) list \<Rightarrow> nat list" where
  "left es = map fst (filter (\<lambda>(i, d, s). s = 1) es)"

lemma entered_simps [simp]:
  "entered [] = []" "entered (a @ b) = entered a @ entered b" "entered ((i, d, s) # es) = (if s = 0 then i # entered es else entered es)"
  by (simp_all add: entered_def)

lemma left_simps [simp]:
  "left [] = []" "left (a @ b) = left a @ left b" "left ((i, d, s) # es) = (if s = 1 then i # left es else left es)"
  by (simp_all add: left_def)

lemma keep_entered:
  assumes "j \<notin> set (entered es)"
  shows "tin (snd (fold (upd t) es s)) ! j = tin (snd s) ! j" "depth (snd (fold (upd t) es s)) ! j = depth (snd s) ! j"
    "first (snd (fold (upd t) es s)) ! j = first (snd s) ! j"
  using assms
proof (induction es arbitrary: s)
  case (Cons e es)
  { case 1 with Cons.IH(1) show ?case by (cases e; cases s) (auto split: if_splits) }
  { case 2 with Cons.IH(2) show ?case by (cases e; cases s) (auto split: if_splits) }
  { case 3 with Cons.IH(3) show ?case by (cases e; cases s) (auto split: if_splits) }
qed simp_all

lemma keep_first: "first (snd s) ! j \<noteq> -1 \<Longrightarrow> first (snd (fold (upd t) es s)) ! j = first (snd s) ! j"
proof (induction es arbitrary: s)
  case (Cons e es)
  obtain i d state time T where e: "e = (i, d, state)" "s = (time, T)" by (metis prod_cases3 surj_pair)
  have "first (snd (upd t e s)) ! j = first (snd s) ! j" using Cons.prems by (cases "i = j") (auto simp: e)
  then show ?case using Cons by simp
qed simp

lemma keep_left: "j \<notin> set (left es) \<Longrightarrow> tout (snd (fold (upd t) es s)) ! j = tout (snd s) ! j"
proof (induction es arbitrary: s)
  case (Cons e es)
  then show ?case by (cases e; cases s) (auto split: if_splits)
qed simp

lemma set_entered:
  assumes "sized N (snd s)" "j < N" "j \<notin> set (entered b)"
  shows "tin (snd (fold (upd t) (a @ (j, d, 0) # b) s)) ! j = fst s + length a"
    "depth (snd (fold (upd t) (a @ (j, d, 0) # b) s)) ! j = d"
    "j \<notin> set (entered a) \<Longrightarrow> first (snd s) ! j = -1 \<Longrightarrow>
      first (snd (fold (upd t) (a @ (j, d, 0) # b) s)) ! j = int (length (euler (snd s)) + length (shown a))"
proof -
  obtain time T where m: "fold (upd t) a s = (time, T)" by fastforce
  have len: "sized N T" using assms(1) sized_fold [of N t a s] by (simp add: m)
  have time: "time = fst s + length a" using time_fold [of t a s] by (simp add: m)
  have eu: "euler T = euler (snd s) @ shown a" using euler_fold [of t a s] by (simp add: m)
  show "tin (snd (fold (upd t) (a @ (j, d, 0) # b) s)) ! j = fst s + length a"
    "depth (snd (fold (upd t) (a @ (j, d, 0) # b) s)) ! j = d"
    using len assms(2,3) time by (simp_all add: m keep_entered sized_def)
  assume "j \<notin> set (entered a)" "first (snd s) ! j = -1"
  then have "first T ! j = -1" using keep_entered(3) [of j a t s] by (simp add: m)
  then show "first (snd (fold (upd t) (a @ (j, d, 0) # b) s)) ! j = int (length (euler (snd s)) + length (shown a))"
    using len assms(2,3) eu by (simp add: m keep_entered sized_def)
qed

lemma set_left:
  assumes "sized N (snd s)" "j < N" "j \<notin> set (left b)"
  shows "tout (snd (fold (upd t) (a @ (j, d, 1) # b) s)) ! j = fst s + length a"
proof -
  obtain time T where m: "fold (upd t) a s = (time, T)" by fastforce
  have len: "sized N T" using assms(1) sized_fold [of N t a s] by (simp add: m)
  have time: "time = fst s + length a" using time_fold [of t a s] by (simp add: m)
  show ?thesis using len assms(2,3) time by (simp add: m keep_left sized_def)
qed

lemma nth_set_kids: "j < length p \<Longrightarrow> fold (\<lambda>c p. p[c := x]) cs p ! j = (if j \<in> set cs then x else p ! j)"
  by (induction cs arbitrary: p) (auto simp: nth_list_update)

lemma set_par:
  assumes "sized N (snd s)" "c < N" "i \<in> set (entered es)" "c \<in> set (kids t i)"
    and "\<And>k. c \<in> set (kids t k) \<Longrightarrow> k = i"
  shows "par (snd (fold (upd t) es s)) ! c = int i"
proof -
  have keep: "par (snd (fold (upd t) es s)) ! c = int i" if "par (snd s) ! c = int i" "sized N (snd s)" for es s
    using that
  proof (induction es arbitrary: s)
    case (Cons e es)
    have "par (snd (upd t e s)) ! c = int i"
      using Cons.prems assms(2,5) by (cases e; cases s) (auto simp: sized_def nth_set_kids)
    then show ?case using Cons by (simp add: sized_upd)
  qed simp
  show ?thesis using assms(1,3)
  proof (induction es arbitrary: s)
    case (Cons e es)
    show ?case
    proof (cases "\<exists>d. e = (i, d, 0)")
      case True
      then obtain d where "e = (i, d, 0)" ..
      then have "par (snd (upd t e s)) ! c = int i"
        using Cons.prems assms(2,4) by (cases s) (auto simp: sized_def nth_set_kids)
      then show ?thesis using keep [of "upd t e s" es] Cons.prems by (simp add: sized_upd)
    next
      case False
      then show ?thesis using Cons by (cases e) (auto simp: sized_upd split: if_splits)
    qed
  qed simp
qed


subsection \<open>Descendants\<close>

definition desc :: "'r path_tree \<Rightarrow> nat \<Rightarrow> nat set" where
  "desc t i = {j. \<exists>ps. walk t i ps = Some j}"

lemma desc_below: "desc t i = insert i (below t i)"
proof -
  have "ps \<noteq> []" if "walk t i ps = Some j" "j \<noteq> i" for j ps using that by auto
  then show ?thesis unfolding desc_def below_def by (auto intro: exI [of _ "[]"])
qed

lemma desc_iff:
  assumes "tree_wf t" "i < idx_counter t"
  shows "j \<in> desc t i \<longleftrightarrow> j < idx_counter t \<and> prefix (idx_path t i) (idx_path t j)"
proof
  assume "j \<in> desc t i"
  then obtain ps where "walk t i ps = Some j" by (auto simp: desc_def)
  then show "j < idx_counter t \<and> prefix (idx_path t i) (idx_path t j)"
    using walk_lt [OF assms(1)] walk_idx_path_from [OF assms(1)] assms(2) by auto
next
  assume j: "j < idx_counter t \<and> prefix (idx_path t i) (idx_path t j)"
  then obtain ps where "idx_path t j = idx_path t i @ ps" by (auto simp: prefix_def)
  then have "walk t 0 (idx_path t i @ ps) = Some j" using walk_idx_path [OF assms(1), of j] j by simp
  then show "j \<in> desc t i" using walk_idx_path [OF assms] by (auto simp: walk_append desc_def)
qed

lemma idx_path_inj: "tree_wf t \<Longrightarrow> i < idx_counter t \<Longrightarrow> j < idx_counter t \<Longrightarrow> idx_path t i = idx_path t j \<Longrightarrow> i = j"
  by (metis option.inject walk_idx_path)

lemma desc_self [simp]: "i \<in> desc t i"
  by (auto simp: desc_def intro: exI [of _ "[]"])

lemma desc_trans: "j \<in> desc t i \<Longrightarrow> k \<in> desc t j \<Longrightarrow> k \<in> desc t i"
proof -
  assume "j \<in> desc t i" "k \<in> desc t j"
  then obtain ps qs where "walk t i ps = Some j" "walk t j qs = Some k" by (auto simp: desc_def)
  then have "walk t i (ps @ qs) = Some k" by (simp add: walk_append)
  then show ?thesis by (auto simp: desc_def)
qed

lemma desc_lt: "tree_wf t \<Longrightarrow> i < idx_counter t \<Longrightarrow> j \<in> desc t i \<Longrightarrow> j < idx_counter t"
  by (simp add: desc_iff)

lemma desc_antisym:
  assumes "tree_wf t" "i < idx_counter t" "j \<in> desc t i" "i \<in> desc t j"
  shows "i = j"
proof -
  have "j < idx_counter t" using desc_lt [OF assms(1-3)] .
  then show ?thesis using assms desc_iff [OF assms(1)] idx_path_inj [OF assms(1)] by (metis prefix_order.antisym)
qed

text \<open>Two ancestors of a node lie on one path.\<close>

lemma desc_linear:
  assumes "tree_wf t" "u < idx_counter t" "v < idx_counter t" "x \<in> desc t u" "x \<in> desc t v"
  shows "u \<in> desc t v \<or> v \<in> desc t u"
proof -
  have "prefix (idx_path t u) (idx_path t x)" "prefix (idx_path t v) (idx_path t x)"
    using assms desc_iff [OF assms(1)] by simp_all
  then have "prefix (idx_path t u) (idx_path t v) \<or> prefix (idx_path t v) (idx_path t u)" by (rule prefix_same_cases)
  then show ?thesis using assms(2,3) desc_iff [OF assms(1)] by auto
qed

lemma root_desc: "tree_wf t \<Longrightarrow> j < idx_counter t \<Longrightarrow> j \<in> desc t 0"
  by (simp add: desc_iff tree_wf_def idx_path_root)

lemma kid_path:
  assumes "tree_wf t" "c \<in> set (kids t i)"
  shows "\<exists>p. idx_path t c = idx_path t i @ [p] \<and> walk t i [p] = Some c"
proof -
  from assms(2) obtain n where n: "node_at t i = Some n" "c \<in> snd ` set (children n)"
    by (cases "node_at t i") (auto simp: kids_def)
  from assms(1) n(1) have "dict_wf (children n)" by (auto simp: tree_wf_def node_ok_def)
  with n(2) obtain p where "get_child p n = Some c" by (auto simp: get_child_def)
  with n(1) have w: "walk t i [p] = Some c" by (simp add: walk_Cons)
  then show ?thesis using walk_idx_path_from [OF assms(1) w] by auto
qed

lemma kid_desc: "tree_wf t \<Longrightarrow> c \<in> set (kids t i) \<Longrightarrow> c \<in> desc t i"
  using kid_path [of t c i] by (auto simp: desc_def)

lemma kids_parent_unique:
  assumes "tree_wf t" "c \<in> set (kids t i)" "c \<in> set (kids t k)" "i < idx_counter t" "k < idx_counter t"
  shows "i = k"
  using kid_path [OF assms(1,2)] kid_path [OF assms(1,3)] idx_path_inj [OF assms(1,4,5)] by auto

lemma kids_lt: "tree_wf t \<Longrightarrow> c \<in> set (kids t i) \<Longrightarrow> i < idx_counter t"
  using kids_wf [of t c i] by simp

lemma distinct_kids:
  assumes "tree_wf t"
  shows "distinct (kids t i)"
proof (cases "node_at t i")
  case (Some n)
  then have d: "dict_wf (children n)" using assms by (auto simp: tree_wf_def node_ok_def)
  have "p = q" if "(p, c) \<in> set (children n)" "(q, c) \<in> set (children n)" for p q c
    using that d tree_wf_child [OF assms Some, of p c] tree_wf_child [OF assms Some, of q c] by (auto simp: get_child_def)
  then have "inj_on snd (set (children n))" by (auto simp: inj_on_def)
  moreover have "distinct (children n)" using d by (simp add: distinct_map)
  ultimately show ?thesis using Some by (simp add: kids_def distinct_map)
qed (simp add: kids_def)

lemma desc_kids: "tree_wf t \<Longrightarrow> i < idx_counter t \<Longrightarrow> desc t i = insert i (\<Union>c \<in> set (kids t i). desc t c)"
proof -
  assume t: "tree_wf t" "i < idx_counter t"
  then obtain n where n: "node_at t i = Some n" "dict_wf (children n)" using tree_wf_node [OF t] by (auto simp: node_ok_def)
  then show ?thesis using below_step [OF n] by (auto simp: desc_below kids_def)
qed

lemma kids_disjoint:
  assumes "tree_wf t" "c \<in> set (kids t i)" "c' \<in> set (kids t i)" "c \<noteq> c'"
  shows "desc t c \<inter> desc t c' = {}"
proof -
  from kid_path [OF assms(1,2)] kid_path [OF assms(1,3)] obtain p q where
    p: "idx_path t c = idx_path t i @ [p]" "idx_path t c' = idx_path t i @ [q]" by blast
  have lt: "c < idx_counter t" "c' < idx_counter t" using kids_wf [OF assms(1)] assms(2,3) by blast+
  have "p \<noteq> q" using p idx_path_inj [OF assms(1) lt] assms(4) by auto
  then have "\<not> (prefix (idx_path t c) xs \<and> prefix (idx_path t c') xs)" for xs
    using p by (auto simp: prefix_def)
  then show ?thesis using desc_iff [OF assms(1)] lt by blast
qed

lemma not_in_kid: "tree_wf t \<Longrightarrow> c \<in> set (kids t i) \<Longrightarrow> i \<notin> desc t c"
  using kids_wf [of t c i] kid_path [of t c i] desc_iff [of t c i] by (auto simp: prefix_def)

subsection \<open>The events of a subtree\<close>

lemma weave_maps:
  "entered (weave (i, d, 2) ls) = concat (map entered ls)" "left (weave (i, d, 2) ls) = concat (map left ls)"
  "set (weave x ls) \<subseteq> insert x (\<Union> (set ` set ls))" "\<Union> (set ` set ls) \<subseteq> set (weave x ls)"
  by (induction "(i, d, 2 :: nat)" ls rule: weave.induct) auto

lemma weave_part: "l \<in> set ls \<Longrightarrow> \<exists>a b. weave x ls = a @ l @ b"
proof (induction x ls rule: weave.induct)
  case (2 x l')
  then have "weave x [l'] = [] @ l @ []" by simp
  then show ?case by blast
next
  case (3 x l' l'' ls)
  then consider "l = l'" | a b where "weave x (l'' # ls) = a @ l @ b" by auto
  then show ?case
  proof cases
    case 1
    then have "weave x (l' # l'' # ls) = [] @ l @ x # weave x (l'' # ls)" by simp
    then show ?thesis by blast
  next
    case 2
    then have "weave x (l' # l'' # ls) = (l' @ x # a) @ l @ b" by simp
    then show ?thesis by blast
  qed
qed simp

lemma distinct_concat_map:
  "distinct cs \<Longrightarrow> (\<And>c. c \<in> set cs \<Longrightarrow> distinct (f c)) \<Longrightarrow>
   (\<And>c c'. c \<in> set cs \<Longrightarrow> c' \<in> set cs \<Longrightarrow> c \<noteq> c' \<Longrightarrow> set (f c) \<inter> set (f c') = {}) \<Longrightarrow> distinct (concat (map f cs))"
proof (induction cs)
  case (Cons c cs)
  then have "set (f c) \<inter> set (f c') = {}" if "c' \<in> set cs" for c' using that by auto
  moreover have "distinct (concat (map f cs))" using Cons by simp
  ultimately show ?case using Cons.prems(2) by auto
qed simp

lemma evs_nodes:
  assumes "tree_wf t" "i < idx_counter t"
  shows "distinct (entered (evs t i d)) \<and> set (entered (evs t i d)) = desc t i \<and>
    distinct (left (evs t i d)) \<and> set (left (evs t i d)) = desc t i \<and> fst ` set (evs t i d) = desc t i"
  using assms(2)
proof (induction "idx_counter t - i" arbitrary: i d rule: less_induct)
  case less
  have k: "c < idx_counter t \<and> idx_counter t - c < idx_counter t - i" if "c \<in> set (kids t i)" for c
    using kids_wf [OF assms(1) that] less.prems by auto
  note ih = less.hyps [OF conjunct2 [OF k] conjunct1 [OF k]]
  have e: "entered (evs t i d) = i # concat (map (\<lambda>c. entered (evs t c (d + 1))) (kids t i))"
    "left (evs t i d) = concat (map (\<lambda>c. left (evs t c (d + 1))) (kids t i)) @ [i]"
    by (subst evs_wf [OF assms(1)]; simp add: weave_maps comp_def)+
  have s: "fst ` set (evs t i d) = insert i (\<Union>c \<in> set (kids t i). fst ` set (evs t c (d + 1)))"
    using weave_maps(3,4) [where x = "(i, d, 2)" and ls = "map (\<lambda>c. evs t c (d + 1)) (kids t i)"]
    by (subst evs_wf [OF assms(1)]) (auto simp: image_iff, fastforce+)
  have "distinct (concat (map (\<lambda>c. entered (evs t c (d + 1))) (kids t i)))"
    "distinct (concat (map (\<lambda>c. left (evs t c (d + 1))) (kids t i)))"
    using ih kids_disjoint [OF assms(1)] by (intro distinct_concat_map distinct_kids [OF assms(1)]; simp)+
  moreover have "i \<notin> desc t c" if "c \<in> set (kids t i)" for c by (rule not_in_kid [OF assms(1) that])
  ultimately show ?case using ih desc_kids [OF assms(1) less.prems] unfolding e s by auto
qed


lemma evs_block:
  assumes "tree_wf t" "i < idx_counter t" "j \<in> desc t i"
  shows "\<exists>a b d'. evs t i d = a @ evs t j d' @ b"
  using assms(2,3)
proof (induction "idx_counter t - i" arbitrary: i d rule: less_induct)
  case less
  show ?case
  proof (cases "j = i")
    case True
    then have "evs t i d = [] @ evs t j d @ []" by simp
    then show ?thesis by blast
  next
    case False
    then obtain c where c: "c \<in> set (kids t i)" "j \<in> desc t c" using desc_kids [OF assms(1) less.prems(1)] less.prems(2) by auto
    then have "c < idx_counter t" "idx_counter t - c < idx_counter t - i" using kids_wf [OF assms(1)] less.prems(1) by fastforce+
    from less.hyps [OF this(2,1) c(2), of "d + 1"] obtain a b d' where e: "evs t c (d + 1) = a @ evs t j d' @ b" by blast
    from weave_part [of "evs t c (d + 1)" "map (\<lambda>c. evs t c (d + 1)) (kids t i)" "(i, d, 2)"] c(1) obtain a' b' where
      "weave (i, d, 2) (map (\<lambda>c. evs t c (d + 1)) (kids t i)) = a' @ evs t c (d + 1) @ b'" by auto
    then have "evs t i d = ((i, d, 0) # a' @ a) @ evs t j d' @ (b @ b' @ [(i, d, 1)])"
      using e by (subst evs_wf [OF assms(1)]) simp
    then show ?thesis by blast
  qed
qed

lemma evs_depth:
  assumes "tree_wf t" "i < idx_counter t" "(j, d', s) \<in> set (evs t i d)"
  shows "d' + length (idx_path t i) = d + length (idx_path t j)"
  using assms(2,3)
proof (induction "idx_counter t - i" arbitrary: i d rule: less_induct)
  case less
  from less.prems(2) consider "j = i" "d' = d" | c where "c \<in> set (kids t i)" "(j, d', s) \<in> set (evs t c (d + 1))"
    using weave_maps(3) [where x = "(i, d, 2)" and ls = "map (\<lambda>c. evs t c (d + 1)) (kids t i)"]
    by (subst (asm) evs_wf [OF assms(1)]) auto
  then show ?case
  proof cases
    case 2
    then have "c < idx_counter t" "idx_counter t - c < idx_counter t - i" using kids_wf [OF assms(1)] less.prems(1) by fastforce+
    from less.hyps [OF this(2,1) 2(2)] kid_path [OF assms(1) 2(1)] show ?thesis by auto
  qed simp
qed

text \<open>From one entry of the tour to the next: down to a child, or up to an ancestor.\<close>

definition tour_step :: "'r path_tree \<Rightarrow> nat \<Rightarrow> nat \<Rightarrow> bool" where
  "tour_step t a b \<longleftrightarrow> b \<in> set (kids t a) \<or> (a \<in> desc t b \<and> a \<noteq> b)"

lemma shown_evs: "tree_wf t \<Longrightarrow> shown (evs t i d) = i # shown (weave (i, d, 2) (map (\<lambda>c. evs t c (d + 1)) (kids t i)))"
  by (subst evs_wf) simp_all

lemma shown_weave:
  assumes "\<forall>l \<in> set ls. shown l \<noteq> [] \<and> successively R (shown l) \<and> R i (hd (shown l)) \<and> (\<forall>x \<in> set (shown l). R x i)"
  shows "successively R (i # shown (weave (i, d, 2) ls))"
  using assms
proof (induction "(i, d, 2 :: nat)" ls rule: weave.induct)
  case (2 l)
  then show ?case by (cases "shown l") simp_all
next
  case (3 l l' ls)
  then have ih: "successively R (i # shown (weave (i, d, 2) (l' # ls)))" by simp
  have l: "shown l \<noteq> []" "successively R (shown l)" "R i (hd (shown l))" "R (last (shown l)) i" using 3 by auto
  then have "successively R (shown l @ i # shown (weave (i, d, 2) (l' # ls)))"
    using ih by (auto simp: successively_append_iff)
  then have "successively R (i # shown l @ i # shown (weave (i, d, 2) (l' # ls)))"
    using l by (cases "shown l") simp_all
  then show ?case by simp
qed simp

lemma evs_successive:
  assumes "tree_wf t" "i < idx_counter t"
  shows "successively (tour_step t) (shown (evs t i d)) \<and> set (shown (evs t i d)) \<subseteq> desc t i"
  using assms(2)
proof (induction "idx_counter t - i" arbitrary: i d rule: less_induct)
  case less
  let ?ls = "map (\<lambda>c. evs t c (d + 1)) (kids t i)"
  have ih: "successively (tour_step t) (shown (evs t c (d + 1))) \<and> set (shown (evs t c (d + 1))) \<subseteq> desc t c"
    if "c \<in> set (kids t i)" for c
    using kids_wf [OF assms(1) that] less.prems by (intro less.hyps) auto
  have "successively (tour_step t) (i # shown (weave (i, d, 2) ?ls))"
  proof (rule shown_weave, intro ballI)
    fix l
    assume "l \<in> set ?ls"
    then obtain c where c: "c \<in> set (kids t i)" "l = evs t c (d + 1)" by auto
    have "tour_step t x i" if "x \<in> set (shown l)" for x
      using that ih [OF c(1)] c(2) desc_trans [OF kid_desc [OF assms(1) c(1)]] not_in_kid [OF assms(1) c(1)]
      by (auto simp: tour_step_def)
    then show "shown l \<noteq> [] \<and> successively (tour_step t) (shown l) \<and> tour_step t i (hd (shown l)) \<and> (\<forall>x \<in> set (shown l). tour_step t x i)"
      using ih [OF c(1)] c shown_evs [OF assms(1), of c "d + 1"] by (auto simp: tour_step_def)
  qed
  moreover have "set (shown (evs t i d)) \<subseteq> fst ` set (evs t i d)" by (auto simp: shown_def)
  ultimately show ?case using evs_nodes [OF assms(1) less.prems, of d] by (simp add: shown_evs [OF assms(1)])
qed

subsection \<open>What a tour promises\<close>

text \<open>The contract of the tables that the Steiner tree is built from.\<close>

locale euler_tour =
  fixes tour_of :: "'r path_tree \<Rightarrow> tour"
  assumes tin_inj: "tree_wf t \<Longrightarrow> u < idx_counter t \<Longrightarrow> v < idx_counter t \<Longrightarrow> tin (tour_of t) ! u = tin (tour_of t) ! v \<Longrightarrow> u = v"
    and tin_root: "tree_wf t \<Longrightarrow> tin (tour_of t) ! 0 = 0"
    and nested: "tree_wf t \<Longrightarrow> u < idx_counter t \<Longrightarrow> v < idx_counter t \<Longrightarrow> covers_node (tour_of t) u v \<longleftrightarrow> v \<in> desc t u"
    and par_ok: "tree_wf t \<Longrightarrow> c \<in> set (kids t i) \<Longrightarrow> par (tour_of t) ! c = int i"
    and first_ok: "tree_wf t \<Longrightarrow> u < idx_counter t \<Longrightarrow> \<exists>k. first (tour_of t) ! u = int k \<and> k < length (euler (tour_of t)) \<and> euler (tour_of t) ! k = u"
    and depth_ok: "tree_wf t \<Longrightarrow> u < idx_counter t \<Longrightarrow> depth (tour_of t) ! u = length (idx_path t u)"
    and euler_steps: "tree_wf t \<Longrightarrow> successively (tour_step t) (euler (tour_of t))"
    and euler_nodes: "tree_wf t \<Longrightarrow> set (euler (tour_of t)) \<subseteq> {..<idx_counter t}"

definition euler_tour_of :: "'r path_tree \<Rightarrow> tour" where
  "euler_tour_of t = snd (fold (upd t) (evs t 0 0) (0, new_tour (idx_counter t)))"

lemma sized_new: "sized N (new_tour N)"
  by (simp add: sized_def new_tour_def)

lemma precompute_euler_tour_of: "tree_wf t \<Longrightarrow> precompute_euler_tour t = Some (Inr (euler_tour_of t))"
proof -
  assume t: "tree_wf t"
  then have 0: "0 < idx_counter t" by (simp add: tree_wf_def)
  then have "\<forall>e \<in> set (evs t 0 0). fst e < idx_counter t"
    using evs_nodes [OF t 0, of 0] desc_lt [OF t 0] by (metis image_eqI)
  then show ?thesis using euler_loop_evs [OF t 0, of 0 "[]"] rfold_upd [OF t, of "(0, new_tour (idx_counter t))"]
    by (simp add: precompute_euler_tour_def run_then_def sized_new euler_tour_of_def euler_loop.simps [of t "[]"])
qed

lemma entered_at:
  assumes "es ! k = (j, d, 0)" "k < length es" "distinct (entered es)"
  obtains a b where "es = a @ (j, d, 0) # b" "length a = k" "j \<notin> set (entered a)" "j \<notin> set (entered b)"
proof -
  have "es = take k es @ (j, d, 0) # drop (Suc k) es" using assms(1,2) by (metis id_take_nth_drop)
  then have "distinct (entered (take k es) @ j # entered (drop (Suc k) es))"
    using assms(3) by (metis entered_simps(2,3))
  then show ?thesis using that [of "take k es" "drop (Suc k) es"] assms(1,2) \<open>es = _\<close> by simp
qed

lemma entered_position:
  assumes "j \<in> set (entered es)"
  obtains k d where "k < length es" "es ! k = (j, d, 0)"
proof -
  from assms obtain d where "(j, d, 0) \<in> set es" by (auto simp: entered_def)
  then show ?thesis using that by (metis in_set_conv_nth)
qed


lemma tour_entered:
  assumes t: "tree_wf t" and k: "k < length (evs t 0 0)" "evs t 0 0 ! k = (j, d, 0)"
  shows "tin (euler_tour_of t) ! j = k \<and> depth (euler_tour_of t) ! j = d \<and> j < idx_counter t \<and>
    first (euler_tour_of t) ! j = int (length (shown (take k (evs t 0 0))))"
proof -
  let ?es = "evs t 0 0" and ?s = "(0, new_tour (idx_counter t))"
  have 0: "0 < idx_counter t" using t by (simp add: tree_wf_def)
  note n = evs_nodes [OF t 0, of 0]
  have "(j, d, 0) \<in> set ?es" using k by (metis nth_mem)
  then have j: "j < idx_counter t" using n desc_lt [OF t 0] by (metis fst_conv image_eqI)
  from entered_at [OF k(2,1)] n obtain a b where ab: "?es = a @ (j, d, 0) # b" "length a = k"
    "j \<notin> set (entered a)" "j \<notin> set (entered b)" by metis
  have "sized (idx_counter t) (snd ?s)" by (simp add: sized_new)
  from set_entered [OF this j ab(4), where t = t and a = a and d = d] ab j show ?thesis
    by (simp add: euler_tour_of_def new_tour_def)
qed

lemma tour_left:
  assumes t: "tree_wf t" and e: "evs t 0 0 = a @ (j, d, 1) # b"
  shows "tout (euler_tour_of t) ! j = length a"
proof -
  let ?s = "(0, new_tour (idx_counter t))"
  have 0: "0 < idx_counter t" using t by (simp add: tree_wf_def)
  note n = evs_nodes [OF t 0, of 0]
  have "j \<in> fst ` set (evs t 0 0)" using e by force
  then have j: "j < idx_counter t" using n desc_lt [OF t 0] by simp
  have "distinct (left a @ j # left b)" using n e by simp
  then have b: "j \<notin> set (left b)" by simp
  have "sized (idx_counter t) (snd ?s)" by (simp add: sized_new)
  from set_left [OF this j b, where t = t and a = a and d = d] e show ?thesis by (simp add: euler_tour_of_def)
qed

lemma tour_position:
  assumes "tree_wf t" "j < idx_counter t"
  obtains k d where "k < length (evs t 0 0)" "evs t 0 0 ! k = (j, d, 0)"
proof -
  have 0: "0 < idx_counter t" using assms(2) by simp
  have "j \<in> set (entered (evs t 0 0))" using evs_nodes [OF assms(1) 0, of 0] root_desc [OF assms] by simp
  then show ?thesis using that by (rule entered_position)
qed

lemma tour_nested:
  assumes t: "tree_wf t" and uv: "u < idx_counter t" "v < idx_counter t"
  shows "covers_node (euler_tour_of t) u v \<longleftrightarrow> v \<in> desc t u"
proof -
  let ?es = "evs t 0 0" and ?T = "euler_tour_of t"
  have 0: "0 < idx_counter t" using uv by simp
  from evs_block [OF t 0 root_desc [OF t uv(1)], of 0] obtain a b d where es: "?es = a @ evs t u d @ b" by blast
  obtain m where m: "evs t u d = (u, d, 0) # m @ [(u, d, 1)]" by (metis evs_wf [OF t])
  have "?es ! length a = (u, d, 0)" "length a < length ?es" by (simp_all add: es m)
  then have tin: "tin ?T ! u = length a" using tour_entered [OF t] by blast
  have "?es = (a @ (u, d, 0) # m) @ (u, d, 1) # b" by (simp add: es m)
  then have tout: "tout ?T ! u = length a + Suc (length m)" using tour_left [OF t] by fastforce
  have len: "length (evs t u d) = length m + 2" by (simp add: m)
  show ?thesis
  proof
    assume "v \<in> desc t u"
    then have "v \<in> set (entered (evs t u d))" using evs_nodes [OF t uv(1), of d] by simp
    then obtain k d' where k: "k < length (evs t u d)" "evs t u d ! k = (v, d', 0)" by (rule entered_position)
    then have "?es ! (length a + k) = (v, d', 0)" "length a + k < length ?es" by (simp_all add: es nth_append)
    then have "tin ?T ! v = length a + k" using tour_entered [OF t] by blast
    then show "covers_node ?T u v" using k(1) by (simp add: covers_node_def tin tout len)
  next
    assume c: "covers_node ?T u v"
    from tour_position [OF t uv(2)] obtain k d' where k: "k < length ?es" "?es ! k = (v, d', 0)" .
    then have "tin ?T ! v = k" using tour_entered [OF t] by blast
    with c have r: "length a \<le> k" "k < length a + length (evs t u d)" by (simp_all add: covers_node_def tin tout len)
    then have "?es ! k = evs t u d ! (k - length a)" by (auto simp: es nth_append)
    then have "(v, d', 0) \<in> set (evs t u d)" using r k(2) by (metis add_diff_inverse_nat linorder_not_less nat_add_left_cancel_less nth_mem)
    then show "v \<in> desc t u" using evs_nodes [OF t uv(1), of d] by (metis fst_conv image_eqI)
  qed
qed

lemma tour_tin_inj:
  assumes t: "tree_wf t" and "u < idx_counter t" "v < idx_counter t" "tin (euler_tour_of t) ! u = tin (euler_tour_of t) ! v"
  shows "u = v"
proof -
  from tour_position [OF t assms(2)] obtain k d where k: "k < length (evs t 0 0)" "evs t 0 0 ! k = (u, d, 0)" .
  from tour_position [OF t assms(3)] obtain l d' where l: "l < length (evs t 0 0)" "evs t 0 0 ! l = (v, d', 0)" .
  have "k = l" using tour_entered [OF t k] tour_entered [OF t l] assms(4) by simp
  with k l show ?thesis by simp
qed

lemma tour_tin_root:
  assumes t: "tree_wf t"
  shows "tin (euler_tour_of t) ! 0 = 0"
proof -
  obtain m where "evs t 0 0 = (0, 0, 0) # m" by (metis evs_wf [OF t])
  then show ?thesis using tour_entered [OF t, of 0 0 0] by simp
qed

lemma tour_par:
  assumes t: "tree_wf t" and c: "c \<in> set (kids t i)"
  shows "par (euler_tour_of t) ! c = int i"
proof -
  have 0: "0 < idx_counter t" using t by (simp add: tree_wf_def)
  have i: "i \<in> set (entered (evs t 0 0))"
    using evs_nodes [OF t 0, of 0] root_desc [OF t kids_lt [OF t c]] by simp
  have u: "k = i" if "c \<in> set (kids t k)" for k
    by (rule kids_parent_unique [OF t that c kids_lt [OF t that] kids_lt [OF t c]])
  have "c < idx_counter t" using kids_wf [OF t c] ..
  from set_par [OF _ this i c u] show ?thesis unfolding euler_tour_of_def by (simp add: sized_new)
qed

lemma euler_shown: "euler (euler_tour_of t) = shown (evs t 0 0)"
  using euler_fold [of t "evs t 0 0" "(0, new_tour (idx_counter t))"] by (simp add: euler_tour_of_def new_tour_def)

lemma tour_first:
  assumes t: "tree_wf t" and u: "u < idx_counter t"
  shows "\<exists>k. first (euler_tour_of t) ! u = int k \<and> k < length (euler (euler_tour_of t)) \<and> euler (euler_tour_of t) ! k = u"
proof -
  from tour_position [OF t u] obtain k d where k: "k < length (evs t 0 0)" "evs t 0 0 ! k = (u, d, 0)" .
  then have "evs t 0 0 = take k (evs t 0 0) @ (u, d, 0) # drop (Suc k) (evs t 0 0)" by (metis id_take_nth_drop)
  then have "shown (evs t 0 0) = shown (take k (evs t 0 0)) @ u # shown (drop (Suc k) (evs t 0 0))"
    by (metis shown_simps(2,3) zero_neq_one)
  then show ?thesis using tour_entered [OF t k]
    by (intro exI [of _ "length (shown (take k (evs t 0 0)))"]) (simp add: euler_shown)
qed

lemma tour_depth:
  assumes t: "tree_wf t" and u: "u < idx_counter t"
  shows "depth (euler_tour_of t) ! u = length (idx_path t u)"
proof -
  have 0: "0 < idx_counter t" using u by simp
  from tour_position [OF t u] obtain k d where k: "k < length (evs t 0 0)" "evs t 0 0 ! k = (u, d, 0)" .
  then have "(u, d, 0) \<in> set (evs t 0 0)" by (metis nth_mem)
  from evs_depth [OF t 0 this] tour_entered [OF t k] show ?thesis by (simp add: idx_path_root [OF t])
qed

lemma tour_successive:
  assumes t: "tree_wf t"
  shows "successively (tour_step t) (euler (euler_tour_of t))" "set (euler (euler_tour_of t)) \<subseteq> {..<idx_counter t}"
proof -
  have 0: "0 < idx_counter t" using t by (simp add: tree_wf_def)
  show "successively (tour_step t) (euler (euler_tour_of t))" "set (euler (euler_tour_of t)) \<subseteq> {..<idx_counter t}"
    using evs_successive [OF t 0, of 0] desc_lt [OF t 0] by (auto simp: euler_shown)
qed

interpretation path_tour: euler_tour euler_tour_of
  by unfold_locales
    (assumption | rule tour_tin_inj tour_tin_root tour_nested tour_par tour_first tour_depth tour_successive)+


subsection \<open>Sorting by the time of entry\<close>

lemma sort_unique_set: "set (sort_unique T xs) = set xs"
  by (simp add: sort_unique_def)

lemma remdups_adj_strict:
  "sorted (map f xs) \<Longrightarrow> inj_on f (set xs) \<Longrightarrow> sorted_wrt (\<lambda>a b. f a < (f b :: nat)) (remdups_adj xs)"
proof (induction xs rule: remdups_adj.induct)
  case (3 x y xs)
  show ?case
  proof (cases "x = y")
    case True
    then show ?thesis using 3 by simp
  next
    case False
    then have "f x < f y" using 3(3,4) by (metis inj_on_contraD le_neq_implies_less list.set_intros(1,2) list.simps(9) sorted2)
    moreover have "f y \<le> f z" if "z \<in> set (y # xs)" for z using 3(3) that by auto
    ultimately have "\<forall>z \<in> set (remdups_adj (y # xs)). f x < f z" by fastforce
    then show ?thesis using 3 False by (auto simp: inj_on_def)
  qed
qed simp_all

lemma sort_unique_strict:
  "inj_on ((!) (tin T)) (set xs) \<Longrightarrow> sorted_wrt (\<lambda>a b. tin T ! a < tin T ! b) (sort_unique T xs)"
  unfolding sort_unique_def by (rule remdups_adj_strict) simp_all

subsection \<open>Parents and edges\<close>

lemma parent_kid:
  assumes "tree_wf t" "c < idx_counter t" "c \<noteq> 0"
  obtains a where "c \<in> set (kids t a)" "a < c" "a < idx_counter t"
proof -
  obtain n where n: "node_at t c = Some n" using tree_wf_node [OF assms(1,2)] by blast
  from tree_wf_parent [OF assms(1) n assms(3)] obtain a m where
    a: "node_at t a = Some m" "get_child (path_element n) m = Some c" "a < c" by metis
  then have "c \<in> set (kids t a)" by (force simp: kids_def get_child_def dest: map_of_SomeD)
  with a(3) assms(2) show ?thesis by (intro that [of a]) simp_all
qed

lemma above_kid:
  assumes "tree_wf t" "c \<in> set (kids t a)" "x < idx_counter t" "c \<in> desc t x" "c \<noteq> x"
  shows "a \<in> desc t x"
proof -
  from kid_path [OF assms(1,2)] obtain p where p: "idx_path t c = idx_path t a @ [p]" by blast
  have "prefix (idx_path t x) (idx_path t c)" "idx_path t x \<noteq> idx_path t c"
    using assms desc_iff [OF assms(1,3)] idx_path_inj [OF assms(1,3)] kids_wf [OF assms(1,2)] by auto
  then have "prefix (idx_path t x) (idx_path t a)" unfolding p by (simp add: prefix_snoc)
  then show ?thesis using desc_iff [OF assms(1,3)] kids_lt [OF assms(1,2)] by simp
qed

text \<open>The edges on the way from a node up to an ancestor.\<close>

definition chain :: "'r path_tree \<Rightarrow> nat \<Rightarrow> nat \<Rightarrow> (nat \<times> nat) set" where
  "chain t p c = {(a, x). x \<in> set (kids t a) \<and> x \<in> desc t p \<and> x \<noteq> p \<and> c \<in> desc t x}"

lemma chain_self: "tree_wf t \<Longrightarrow> p < idx_counter t \<Longrightarrow> chain t p p = {}"
  using desc_antisym [of t p] by (auto simp: chain_def)

lemma chain_step:
  assumes t: "tree_wf t" and c: "c \<in> set (kids t a)" "c \<in> desc t p" "c \<noteq> p" "p < idx_counter t"
  shows "chain t p c = insert (a, c) (chain t p a)"
proof -
  have lt: "c < idx_counter t" "a < idx_counter t" using kids_wf [OF t c(1)] kids_lt [OF t c(1)] by auto
  have "(b, x) = (a, c) \<or> a \<in> desc t x" if "x \<in> set (kids t b)" "c \<in> desc t x" for b x
  proof (cases "x = c")
    case True
    then show ?thesis using kids_parent_unique [OF t] that(1) c(1) kids_lt [OF t] by metis
  next
    case False
    then show ?thesis using above_kid [OF t c(1) _ that(2)] kids_wf [OF t that(1)] by blast
  qed
  moreover have "c \<in> desc t x" if "a \<in> desc t x" for x using desc_trans [OF that kid_desc [OF t c(1)]] .
  ultimately show ?thesis using c by (auto simp: chain_def)
qed

text \<open>The adjacency under construction: the nodes given at the start and the sources of the edges
  added are its keys, and every list holds the targets of the edges added at its key.\<close>

definition adj_inv :: "nat set \<Rightarrow> adjacency \<Rightarrow> (nat \<times> nat) set \<Rightarrow> bool" where
  "adj_inv K adj added \<longleftrightarrow> dict_wf adj \<and> fst ` set adj = K \<union> fst ` added \<and>
     (\<forall>a vs. dict_get adj a = Some vs \<longrightarrow> distinct vs \<and> set vs = {c. (a, c) \<in> added})"

lemma adj_inv_add:
  assumes "adj_inv K adj added"
  shows "\<exists>adj'. add_tree_edge p c (adj, added) = (adj', insert (p, c) added) \<and> adj_inv K adj' (insert (p, c) added)"
proof (cases "(p, c) \<in> added")
  case True
  then show ?thesis using assms by (simp add: add_tree_edge_def insert_absorb)
next
  case False
  have "dict_get adj p = None \<Longrightarrow> (p, d) \<notin> added" for d
    using assms by (metis UnCI adj_inv_def dict_get_not_None_iff fst_conv image_eqI)
  then show ?thesis using assms False
    by (cases "dict_get adj p") (auto simp: add_tree_edge_def adj_inv_def split: if_splits)
qed

lemma adj_inv_start: "distinct F \<Longrightarrow> adj_inv (set F) (map (\<lambda>v. (v, [])) F) {}"
  by (auto simp: adj_inv_def comp_def image_image map_of_map_restrict restrict_map_def split: if_splits)


subsection \<open>The Steiner tree of a tour\<close>

context euler_tour
begin

text \<open>The least common ancestor the code computes is an ancestor of one of the two nodes: between two
  entries of the tour, the shallowest node is above the first one.\<close>

lemma shallowest_above:
  assumes t: "tree_wf t" and p: "l \<le> p" "p < length (euler (tour_of t))"
    and least: "\<And>q. l \<le> q \<Longrightarrow> q \<le> p \<Longrightarrow>
      length (idx_path t (euler (tour_of t) ! p)) \<le> length (idx_path t (euler (tour_of t) ! q))"
  shows "euler (tour_of t) ! l \<in> desc t (euler (tour_of t) ! p)"
  using p(1) least
proof (induction rule: inc_induct)
  case (step l)
  let ?E = "euler (tour_of t)"
  have lt: "?E ! k < idx_counter t" if "k \<le> p" for k using euler_nodes [OF t] p(2) that by (metis lessThan_iff nth_mem order_le_less_trans subsetD)
  have ih: "?E ! Suc l \<in> desc t (?E ! p)" using step by simp
  have "tour_step t (?E ! l) (?E ! Suc l)" using euler_steps [OF t] step.hyps p(2) by (simp add: successively_conv_nth)
  then consider "?E ! Suc l \<in> set (kids t (?E ! l))" | "?E ! l \<in> desc t (?E ! Suc l)" by (auto simp: tour_step_def)
  then show ?case
  proof cases
    case 1
    have "length (idx_path t (?E ! p)) \<le> length (idx_path t (?E ! l))" using step by simp
    moreover have "length (idx_path t (?E ! Suc l)) = Suc (length (idx_path t (?E ! l)))" using kid_path [OF t 1] by auto
    ultimately have "?E ! Suc l \<noteq> ?E ! p" by auto
    then show ?thesis using above_kid [OF t 1 lt ih] by simp
  next
    case 2
    then show ?thesis using desc_trans [OF ih] by blast
  qed
qed simp

lemma lca_above:
  assumes t: "tree_wf t" and uv: "u < idx_counter t" "v < idx_counter t"
  shows "\<exists>w \<in> {u, v}. lca (tour_of t, precompute_rmq (tour_depths (tour_of t))) u v < idx_counter t \<and>
    w \<in> desc t (lca (tour_of t, precompute_rmq (tour_depths (tour_of t))) u v)"
proof -
  let ?T = "tour_of t"
  let ?E = "euler ?T" and ?w = "tour_depths ?T"
  from first_ok [OF t uv(1)] obtain ku where ku: "first ?T ! u = int ku" "ku < length ?E" "?E ! ku = u" by blast
  from first_ok [OF t uv(2)] obtain kv where kv: "first ?T ! v = int kv" "kv < length ?E" "?E ! kv = v" by blast
  let ?l = "min ku kv" and ?r = "max ku kv"
  let ?p = "rmq_query ?w (precompute_rmq ?w) ?l ?r"
  have lr: "?l \<le> ?r" "?r < length ?w" using ku kv by (simp_all add: tour_depths_def)
  have x: "lca (?T, precompute_rmq ?w) u v = ?E ! ?p"
    using ku(1) kv(1) by (auto simp: lca_def Let_def min_def max_def)
  note q = sparse.query_range [OF lr]
  then have "?p < length ?w" using lr(2) by linarith
  then have p: "?p < length ?E" by (simp add: tour_depths_def)
  have d: "?w ! k = length (idx_path t (?E ! k))" if "k < length ?E" for k
    using that depth_ok [OF t] euler_nodes [OF t] by (simp add: tour_depths_def subset_iff)
  have "?E ! ?l \<in> desc t (?E ! ?p)"
    using sparse.query_least [OF lr] q p d by (intro shallowest_above [OF t]) force+
  moreover have "?E ! ?l \<in> {u, v}" using ku(3) kv(3) by (auto simp: min_def)
  moreover have "?E ! ?p < idx_counter t" using euler_nodes [OF t] p by (metis lessThan_iff nth_mem subsetD)
  ultimately show ?thesis unfolding x by blast
qed

lemma tin_inj_on: "tree_wf t \<Longrightarrow> X \<subseteq> {..<idx_counter t} \<Longrightarrow> inj_on ((!) (tin (tour_of t))) X"
  using tin_inj [of t] by (auto simp: inj_on_def subset_iff)

text \<open>The nodes the tree is made from: the given ones, the root, and some of their ancestors, in the
  order of entry.\<close>

lemma full_nodes_spec:
  assumes t: "tree_wf t" and nodes: "set nodes \<subseteq> {..<idx_counter t}"
  defines "F \<equiv> full_nodes (tour_of t, precompute_rmq (tour_depths (tour_of t))) nodes"
  shows "insert 0 (set nodes) \<subseteq> set F" "\<forall>x \<in> set F. x < idx_counter t \<and> (\<exists>v \<in> insert 0 (set nodes). v \<in> desc t x)"
    "sorted_wrt (\<lambda>a b. tin (tour_of t) ! a < tin (tour_of t) ! b) F" "\<exists>F'. F = 0 # F'"
proof -
  let ?T = "tour_of t"
  let ?tb = "(?T, precompute_rmq (tour_depths ?T))"
  let ?N = "if 0 \<in> set nodes then nodes else nodes @ [0]"
  define S where S: "S = sort_unique ?T ?N"
  have 0: "0 < idx_counter t" using t by (simp add: tree_wf_def)
  have setS: "set S = insert 0 (set nodes)" by (auto simp: S sort_unique_set)
  have F: "F = sort_unique ?T (S @ map2 (lca ?tb) (butlast S) (tl S))"
    by (simp add: F_def full_nodes_def S Let_def)
  have ltS: "x < idx_counter t" if "x \<in> set S" for x using that nodes 0 by (auto simp: setS)
  have anc: "x < idx_counter t \<and> (\<exists>v \<in> set S. v \<in> desc t x)" if x: "x \<in> set (map2 (lca ?tb) (butlast S) (tl S))" for x
  proof -
    from x obtain u v where "x = lca ?tb u v" "(u, v) \<in> set (zip (butlast S) (tl S))" by auto
    moreover from this(2) have "u \<in> set (butlast S)" "v \<in> set (tl S)" by (rule set_zip_leftD, rule set_zip_rightD)
    then have "u \<in> set S" "v \<in> set S" using in_set_butlastD set_mono_suffix [OF suffix_tl] by fast+
    ultimately show ?thesis using lca_above [OF t ltS ltS, of u v] by auto
  qed
  have setF: "set F = set S \<union> set (map2 (lca ?tb) (butlast S) (tl S))" unfolding F sort_unique_set by simp
  then show spec: "insert 0 (set nodes) \<subseteq> set F" using setS by blast
  show above: "\<forall>x \<in> set F. x < idx_counter t \<and> (\<exists>v \<in> insert 0 (set nodes). v \<in> desc t x)"
    unfolding setS [symmetric] setF using anc ltS desc_self by blast
  then have "set F \<subseteq> {..<idx_counter t}" by auto
  from tin_inj_on [OF t this] show str: "sorted_wrt (\<lambda>a b. tin ?T ! a < tin ?T ! b) F"
    unfolding F sort_unique_set by (rule sort_unique_strict)
  from spec obtain x F' where xF: "F = x # F'" by (cases F) auto
  have "x = 0"
  proof (rule ccontr)
    assume "x \<noteq> 0"
    then have "tin ?T ! x < tin ?T ! 0" using xF spec str by auto
    then show False using tin_root [OF t] by simp
  qed
  with xF show "\<exists>F'. F = 0 # F'" by blast
qed

lemma virtual_pass:
  assumes t: "tree_wf t" and "sorted_wrt (\<lambda>a b. tin (tour_of t) ! a < tin (tour_of t) ! b) (ss @ vs)"
    and "set (ss @ vs) \<subseteq> {..<idx_counter t}"
    and "stack \<noteq> []" "last stack = 0" "set stack \<subseteq> set ss" "dict_wf cp" "fst ` set cp \<subseteq> set ss"
  shows "\<exists>stack' cp'. fold (virtual_step (tour_of t)) vs (stack, cp) = (stack', cp @ cp') \<and> map fst cp' = vs \<and>
    (\<forall>(v, p) \<in> set cp'. p \<in> set (ss @ vs) \<and> v \<in> desc t p \<and> tin (tour_of t) ! p < tin (tour_of t) ! v)"
  using assms(2-)
proof (induction vs arbitrary: ss stack cp)
  case (Cons v vs)
  let ?T = "tour_of t" and ?st = "dropWhile (\<lambda>u. \<not> covers_node (tour_of t) u v) stack"
  have v: "v < idx_counter t" "0 < idx_counter t" using Cons.prems(2) t by (auto simp: tree_wf_def)
  have c0: "covers_node ?T 0 v" using nested [OF t v(2,1)] root_desc [OF t v(1)] by simp
  then have ne: "?st \<noteq> []" using Cons.prems(3,4) by (metis dropWhile_eq_Nil_conv last_in_set)
  let ?p = "hd ?st"
  have p: "?p \<in> set ss" "covers_node ?T ?p v"
    using ne Cons.prems(5) hd_dropWhile [OF ne] by (meson hd_in_set set_dropWhileD subsetD, simp)
  have ps: "?p < idx_counter t" "tin ?T ! ?p < tin ?T ! v" using p(1) Cons.prems(1,2) by (auto simp: sorted_wrt_append)
  have vs: "v \<notin> set ss" using Cons.prems(1) by (auto simp: sorted_wrt_append)
  then have fresh: "dict_set cp v ?p = cp @ [(v, ?p)]" using Cons.prems(7) by (intro dict_set_fresh) blast
  have last: "last (v # ?st) = 0" using ne Cons.prems(4) by (metis last_ConsR last_appendR takeWhile_dropWhile_id)
  have sub: "set (v # ?st) \<subseteq> set (ss @ [v])" using Cons.prems(5) set_dropWhileD by fastforce
  have "\<exists>stack' cp'. fold (virtual_step ?T) vs (v # ?st, cp @ [(v, ?p)]) = (stack', (cp @ [(v, ?p)]) @ cp') \<and> map fst cp' = vs \<and>
      (\<forall>(v', p) \<in> set cp'. p \<in> set ((ss @ [v]) @ vs) \<and> v' \<in> desc t p \<and> tin ?T ! p < tin ?T ! v')"
    using Cons.prems vs last sub by (intro Cons.IH) auto
  then obtain stack' cp' where r: "fold (virtual_step ?T) vs (v # ?st, cp @ [(v, ?p)]) = (stack', cp @ (v, ?p) # cp')" "map fst cp' = vs"
      "\<forall>(v', p) \<in> set cp'. p \<in> set (ss @ v # vs) \<and> v' \<in> desc t p \<and> tin ?T ! p < tin ?T ! v'" by auto
  have "virtual_step ?T v (stack, cp) = (v # ?st, cp @ [(v, ?p)])"
    using ne Cons.prems(3) fresh by (auto simp: virtual_step_def Let_def)
  moreover have "v \<in> desc t ?p" using nested [OF t ps(1) v(1)] p(2) by simp
  ultimately show ?case using r p(1) ps(2) by (intro exI [of _ stack'] exI [of _ "(v, ?p) # cp'"]) auto
qed simp

end


lemma desc_source: "tree_wf t \<Longrightarrow> u \<noteq> v \<Longrightarrow> v \<in> desc t u \<Longrightarrow> u < idx_counter t"
proof -
  assume t: "tree_wf t" and "u \<noteq> v" "v \<in> desc t u"
  then obtain ps where ps: "walk t u ps = Some v" by (auto simp: desc_def)
  with \<open>u \<noteq> v\<close> obtain n where "node_at t u = Some n" by (cases ps; cases "node_at t u") (simp_all add: walk_Cons)
  then show ?thesis using tree_wf_lt [OF t] by blast
qed

text \<open>The edges that lead towards a set of nodes.\<close>

definition edges_to :: "'r path_tree \<Rightarrow> nat set \<Rightarrow> (nat \<times> nat) set" where
  "edges_to t F = {(a, x). x \<in> set (kids t a) \<and> (\<exists>v \<in> F. v \<in> desc t x)}"

lemma edges_to_targets:
  assumes t: "tree_wf t" and F: "insert 0 X \<subseteq> F" "\<And>x. x \<in> F \<Longrightarrow> \<exists>v \<in> insert 0 X. v \<in> desc t x"
  shows "{c. (u, c) \<in> edges_to t F} = {c \<in> set (kids t u). \<exists>v \<in> X. v \<in> desc t c}"
proof -
  have "\<exists>v \<in> X. v \<in> desc t c" if c: "c \<in> set (kids t u)" "x \<in> F" "x \<in> desc t c" for c x
  proof -
    from F(2) [OF that(2)] obtain v where v: "v \<in> insert 0 X" "v \<in> desc t x" by blast
    have vc: "v \<in> desc t c" by (rule desc_trans [OF c(3) v(2)])
    have lt: "c < idx_counter t" "c \<noteq> 0" using kids_wf [OF t c(1)] by auto
    have "v \<noteq> 0" using desc_antisym [OF t lt(1) vc] root_desc [OF t lt(1)] lt(2) by metis
    with v(1) vc show ?thesis by blast
  qed
  moreover have "v \<in> F" if "v \<in> X" for v using that F(1) by blast
  ultimately show ?thesis unfolding edges_to_def by auto
qed

lemma edges_to_keys:
  assumes t: "tree_wf t" and F: "insert 0 X \<subseteq> F" "\<And>x. x \<in> F \<Longrightarrow> \<exists>v \<in> insert 0 X. v \<in> desc t x"
  shows "F \<union> fst ` edges_to t F = {u. \<exists>v \<in> insert 0 X. v \<in> desc t u}" (is "?L = ?R")
proof
  have edge: "u \<in> ?R" if "(u, x) \<in> edges_to t F" for u x
  proof -
    from that obtain w where w: "x \<in> set (kids t u)" "w \<in> F" "w \<in> desc t x" unfolding edges_to_def by auto
    from F(2) [OF w(2)] obtain v where v: "v \<in> insert 0 X" "v \<in> desc t w" by blast
    have "v \<in> desc t u" by (rule desc_trans [OF desc_trans [OF kid_desc [OF t w(1)] w(3)] v(2)])
    with v(1) show ?thesis by blast
  qed
  show "?L \<subseteq> ?R"
  proof
    fix u
    assume "u \<in> ?L"
    then consider "u \<in> F" | x where "(u, x) \<in> edges_to t F" by force
    then show "u \<in> ?R" using edge F(2) by cases blast+
  qed
  show "?R \<subseteq> ?L"
  proof
    fix u
    assume "u \<in> ?R"
    then obtain v where v: "v \<in> insert 0 X" "v \<in> desc t u" by blast
    show "u \<in> ?L"
    proof (cases "u = v")
      case False
      then have "u < idx_counter t" using v(2) by (rule desc_source [OF t])
      from desc_kids [OF t this] v(2) False have "v \<in> (\<Union>c \<in> set (kids t u). desc t c)" by (metis insertE)
      then obtain c where "c \<in> set (kids t u)" "v \<in> desc t c" by blast
      then have "(u, c) \<in> edges_to t F" using v(1) F(1) unfolding edges_to_def by blast
      then show ?thesis by force
    qed (use v(1) F(1) in blast)
  qed
qed

context euler_tour
begin

lemma climb_chain:
  assumes t: "tree_wf t" and p: "p < idx_counter t"
  shows "c < idx_counter t \<Longrightarrow> c \<in> desc t p \<Longrightarrow> adj_inv K adj added \<Longrightarrow>
    \<exists>adj'. climb (tour_of t) p c (adj, added) = Some (Inr (adj', added \<union> chain t p c)) \<and> adj_inv K adj' (added \<union> chain t p c)"
proof (induction c arbitrary: adj added rule: less_induct)
  case (less c)
  show ?case
  proof (cases "c = p")
    case True
    then show ?thesis using less.prems chain_self [OF t p] by (simp add: climb.simps)
  next
    case False
    then have "c \<noteq> 0" using desc_antisym [OF t p less.prems(2)] root_desc [OF t p] by metis
    from parent_kid [OF t less.prems(1) this] obtain a where a: "c \<in> set (kids t a)" "a < c" "a < idx_counter t" .
    have ap: "a \<in> desc t p" by (rule above_kid [OF t a(1) p less.prems(2) False])
    from adj_inv_add [OF less.prems(3)] obtain adj1 where
      add: "add_tree_edge a c (adj, added) = (adj1, insert (a, c) added)" "adj_inv K adj1 (insert (a, c) added)" by blast
    have "insert (a, c) added \<union> chain t p a = added \<union> chain t p c"
      using chain_step [OF t a(1) less.prems(2) False p] by blast
    with less.IH [OF a(2,3) ap add(2)] show ?thesis
      using False par_ok [OF t a(1)] add(1) by (simp add: climb.simps [of _ p c])
  qed
qed

lemma expand_chains:
  assumes t: "tree_wf t"
  shows "\<forall>(c, p) \<in> set cps. p < idx_counter t \<and> c < idx_counter t \<and> c \<in> desc t p \<Longrightarrow> adj_inv K adj added \<Longrightarrow>
    \<exists>adj'. expand_edges (tour_of t) cps (adj, added) = Some (Inr (adj', added \<union> (\<Union>(c, p) \<in> set cps. chain t p c))) \<and>
      adj_inv K adj' (added \<union> (\<Union>(c, p) \<in> set cps. chain t p c))"
proof (induction cps arbitrary: adj added)
  case (Cons cp cps)
  obtain c p where cp: "cp = (c, p)" by fastforce
  from Cons.prems(1) have c: "p < idx_counter t" "c < idx_counter t" "c \<in> desc t p" by (auto simp: cp)
  from climb_chain [OF t c(1,2,3) Cons.prems(2)] obtain adj1 where
    a: "climb (tour_of t) p c (adj, added) = Some (Inr (adj1, added \<union> chain t p c))" "adj_inv K adj1 (added \<union> chain t p c)" by blast
  from Cons.IH [OF _ a(2)] Cons.prems(1) a(1) show ?case by (simp add: cp Un_assoc)
qed simp

text \<open>Every edge on the way from the root to a chosen node is on the way from some chosen node to its
  virtual parent.\<close>

lemma chains_cover:
  assumes t: "tree_wf t" and cp: "map fst cps = F'" "\<forall>(v, p) \<in> set cps. p \<in> set (0 # F') \<and> v \<in> desc t p \<and> tin (tour_of t) ! p < tin (tour_of t) ! v"
    and F: "set (0 # F') \<subseteq> {..<idx_counter t}"
  shows "(\<Union>(c, p) \<in> set cps. chain t p c) = edges_to t (set (0 # F'))"
  unfolding edges_to_def
proof (intro equalityI subsetI)
  fix e
  assume "e \<in> (\<Union>(c, p) \<in> set cps. chain t p c)"
  then obtain c p where "(c, p) \<in> set cps" "e \<in> chain t p c" by auto
  moreover from this(1) have "c \<in> set F'" using cp(1) by force
  ultimately show "e \<in> {(a, x). x \<in> set (kids t a) \<and> (\<exists>v \<in> set (0 # F'). v \<in> desc t x)}" by (auto simp: chain_def)
next
  fix e
  assume "e \<in> {(a, x). x \<in> set (kids t a) \<and> (\<exists>v \<in> set (0 # F'). v \<in> desc t x)}"
  then obtain a x v where e: "e = (a, x)" "x \<in> set (kids t a)" and v: "v \<in> set (0 # F')" "v \<in> desc t x" by auto
  have x: "x < idx_counter t" "x \<noteq> 0" using kids_wf [OF t e(2)] by auto
  from v show "e \<in> (\<Union>(c, p) \<in> set cps. chain t p c)"
  proof (induction "tin (tour_of t) ! v" arbitrary: v rule: less_induct)
    case less
    have "v \<noteq> 0" using desc_antisym [OF t x(1) less.prems(2)] root_desc [OF t x(1)] x(2) by metis
    then have "v \<in> fst ` set cps" using less.prems(1) cp(1) by (metis list.set_map set_ConsD)
    then obtain p where vp: "(v, p) \<in> set cps" by auto
    with cp(2) have p: "p \<in> set (0 # F')" "v \<in> desc t p" "tin (tour_of t) ! p < tin (tour_of t) ! v" by auto
    have plt: "p < idx_counter t" using p(1) F by auto
    show ?case
    proof (cases "x \<in> desc t p \<and> x \<noteq> p")
      case True
      then have "e \<in> chain t p v" using e less.prems(2) by (simp add: chain_def)
      with vp show ?thesis by auto
    next
      case False
      then have "p \<in> desc t x" using desc_linear [OF t x(1) plt less.prems(2) p(2)] by auto
      then show ?thesis using less.hyps [OF p(3,1)] by blast
    qed
  qed
qed

lemma steiner_spans:
  assumes t: "tree_wf t" and nodes: "set nodes \<subseteq> {..<idx_counter t}"
  shows "\<exists>adj. build_steiner_tree (tour_of t, precompute_rmq (tour_depths (tour_of t))) nodes = Some (Inr adj) \<and> dict_wf adj \<and>
    fst ` set adj = {u. \<exists>v \<in> insert 0 (set nodes). v \<in> desc t u} \<and>
    (\<forall>u vs. dict_get adj u = Some vs \<longrightarrow> distinct vs \<and> sorted (map ((!) (tin (tour_of t))) vs) \<and>
      set vs = {c \<in> set (kids t u). \<exists>v \<in> set nodes. v \<in> desc t c})"
proof -
  let ?T = "tour_of t"
  let ?tb = "(?T, precompute_rmq (tour_depths ?T))"
  note spec = full_nodes_spec [OF t nodes]
  from spec(4) obtain F' where F: "full_nodes ?tb nodes = 0 # F'" by blast
  have lt: "set (0 # F') \<subseteq> {..<idx_counter t}" using spec(2) unfolding F by auto
  have "\<exists>stack' cp'. fold (virtual_step ?T) F' ([0], []) = (stack', [] @ cp') \<and> map fst cp' = F' \<and>
    (\<forall>(v, p) \<in> set cp'. p \<in> set ([0] @ F') \<and> v \<in> desc t p \<and> tin ?T ! p < tin ?T ! v)"
    using spec(3) lt unfolding F by (intro virtual_pass [OF t]) simp_all
  then obtain cps where cp: "compressed_parents ?T (0 # F') = cps" "map fst cps = F'"
    "\<forall>(v, p) \<in> set cps. p \<in> set (0 # F') \<and> v \<in> desc t p \<and> tin ?T ! p < tin ?T ! v"
    by (auto simp: compressed_parents_def virtual_step_def)
  have "sorted_wrt (<) (map ((!) (tin ?T)) (0 # F'))" using spec(3) unfolding F sorted_wrt_map .
  then have "distinct (map ((!) (tin ?T)) (0 # F'))" by (simp only: strict_sorted_iff)
  then have "distinct (0 # F')" by (simp only: distinct_map)
  from adj_inv_start [OF this] have start: "adj_inv (set (0 # F')) (map (\<lambda>v. (v, [])) (0 # F')) {}" .
  have "p < idx_counter t \<and> c < idx_counter t \<and> c \<in> desc t p" if e: "(c, p) \<in> set cps" for c p
  proof -
    have "c \<in> set (map fst cps)" using e by force
    then have "c \<in> set (0 # F')" unfolding cp(2) by simp
    moreover have "p \<in> set (0 # F')" "c \<in> desc t p" using cp(3) e by auto
    ultimately show ?thesis using lt by blast
  qed
  then have "\<forall>(c, p) \<in> set cps. p < idx_counter t \<and> c < idx_counter t \<and> c \<in> desc t p" by blast
  from expand_chains [OF t this start] chains_cover [OF t cp(2,3) lt] obtain adj where
    adj: "expand_edges ?T cps (map (\<lambda>v. (v, [])) (0 # F'), {}) =
        Some (Inr (adj, edges_to t (set (0 # F'))))"
      "adj_inv (set (0 # F')) adj (edges_to t (set (0 # F')))" by auto
  have inF: "insert 0 (set nodes) \<subseteq> set (0 # F')" "\<And>x. x \<in> set (0 # F') \<Longrightarrow> \<exists>v \<in> insert 0 (set nodes). v \<in> desc t x"
    using spec(1,2) unfolding F by blast+
  note targets = edges_to_targets [OF t inF] and keys = edges_to_keys [OF t inF]
  let ?adj = "map (map_prod id (sort_key ((!) (tin ?T)))) adj"
  have get: "dict_get ?adj u = map_option (sort_key ((!) (tin ?T))) (dict_get adj u)" for u
    by (induction adj) auto
  have b: "build_steiner_tree ?tb nodes = Some (Inr ?adj)"
    using adj(1) unfolding build_steiner_tree_def Let_def fst_conv F cp(1) by simp
  have wf: "dict_wf adj" "fst ` set adj = set (0 # F') \<union> fst ` edges_to t (set (0 # F'))"
    "\<And>u vs. dict_get adj u = Some vs \<Longrightarrow> distinct vs \<and> set vs = {c. (u, c) \<in> edges_to t (set (0 # F'))}"
    using adj(2) unfolding adj_inv_def by blast+
  have "map fst ?adj = map fst adj" by simp
  then have k: "dict_wf ?adj" "fst ` set ?adj = fst ` set adj" using wf(1) by (metis, metis list.set_map)
  have "distinct vs \<and> sorted (map ((!) (tin ?T)) vs) \<and> set vs = {c \<in> set (kids t u). \<exists>v \<in> set nodes. v \<in> desc t c}"
    if vs: "dict_get ?adj u = Some vs" for u vs
  proof -
    from vs obtain ws where "dict_get adj u = Some ws" "vs = sort_key ((!) (tin ?T)) ws" unfolding get by blast
    with wf(3) [of u ws] show ?thesis by (simp only: targets set_sort distinct_sort sorted_sort_key)
  qed
  moreover have "fst ` set ?adj = {u. \<exists>v \<in> insert 0 (set nodes). v \<in> desc t u}" unfolding k(2) wf(2) by (rule keys)
  ultimately show ?thesis using b k(1) by blast
qed

end

subsection \<open>Properties\<close>

lemma kids_walk:
  assumes "tree_wf t"
  shows "c \<in> set (kids t u) \<longleftrightarrow> (\<exists>p. walk t u [p] = Some c)"
proof
  assume "\<exists>p. walk t u [p] = Some c"
  then obtain n p where "node_at t u = Some n" "(p, c) \<in> set (children n)"
    by (cases "node_at t u") (auto simp: walk_Cons get_child_def dest: map_of_SomeD)
  then show "c \<in> set (kids t u)" by (force simp: kids_def)
qed (use kid_path [OF assms] in blast)

lemma precompute_ok: "tree_wf t \<Longrightarrow> precompute t = Some (Inr (euler_tour_of t, precompute_rmq (tour_depths (euler_tour_of t))))"
  by (simp add: precompute_def precompute_euler_tour_of)

text \<open>C7: \<open>build_steiner_tree\<close> returns the tree that the given nodes span: it ends without an error, its
  keys are the nodes on the paths from the root to the given nodes, and the list at each key holds,
  without repetition, exactly the children through which such a path goes on.\<close>

theorem steiner_tree_spans:
  assumes "tree_wf t" and "precompute t = Some (Inr tb)" and "set nodes \<subseteq> {..<idx_counter t}"
  shows "\<exists>adj. build_steiner_tree tb nodes = Some (Inr adj) \<and>
    set (dict_keys adj) = {u. \<exists>v \<in> insert 0 (set nodes). \<exists>ps. walk t u ps = Some v} \<and>
    (\<forall>u vs. dict_get adj u = Some vs \<longrightarrow> distinct vs \<and>
      set vs = {c. (\<exists>p. walk t u [p] = Some c) \<and> (\<exists>v \<in> set nodes. \<exists>ps. walk t c ps = Some v)})"
proof -
  have tb: "tb = (euler_tour_of t, precompute_rmq (tour_depths (euler_tour_of t)))"
    using precompute_ok [OF assms(1)] assms(2) by simp
  have kid: "{c \<in> set (kids t u). \<exists>v \<in> set nodes. v \<in> desc t c} =
      {c. (\<exists>p. walk t u [p] = Some c) \<and> (\<exists>v \<in> set nodes. \<exists>ps. walk t c ps = Some v)}" for u
    by (simp only: kids_walk [OF assms(1)] desc_def mem_Collect_eq)
  have key: "{u. \<exists>v \<in> insert 0 (set nodes). v \<in> desc t u} = {u. \<exists>v \<in> insert 0 (set nodes). \<exists>ps. walk t u ps = Some v}"
    by (simp only: desc_def mem_Collect_eq)
  from path_tour.steiner_spans [OF assms(1,3)] obtain adj where
    adj: "build_steiner_tree tb nodes = Some (Inr adj)"
      "fst ` set adj = {u. \<exists>v \<in> insert 0 (set nodes). \<exists>ps. walk t u ps = Some v}"
    and lists: "\<forall>u vs. dict_get adj u = Some vs \<longrightarrow> distinct vs \<and> sorted (map ((!) (tin (euler_tour_of t))) vs) \<and>
      set vs = {c. (\<exists>p. walk t u [p] = Some c) \<and> (\<exists>v \<in> set nodes. \<exists>ps. walk t c ps = Some v)}"
    unfolding tb kid key by (elim exE conjE)
  show ?thesis
  proof (intro exI conjI allI impI)
    show "build_steiner_tree tb nodes = Some (Inr adj)" by (rule adj(1))
    show "set (dict_keys adj) = {u. \<exists>v \<in> insert 0 (set nodes). \<exists>ps. walk t u ps = Some v}" unfolding set_map by (rule adj(2))
    fix u vs
    assume "dict_get adj u = Some vs"
    with lists show "distinct vs" "set vs = {c. (\<exists>p. walk t u [p] = Some c) \<and> (\<exists>v \<in> set nodes. \<exists>ps. walk t c ps = Some v)}"
      by iprover+
  qed
qed

theorem steiner_tree_spans_witness:
  "\<exists>tb adj. precompute sample_tree = Some (Inr tb) \<and> build_steiner_tree tb [2] = Some (Inr adj) \<and>
     set (dict_keys adj) = {u. \<exists>v \<in> {0, 2}. \<exists>ps. walk sample_tree u ps = Some v}"
proof -
  have "idx_counter sample_tree = 4" by (simp add: path_tree_eval)
  then show ?thesis using steiner_tree_spans [OF sample_tree_wf precompute_ok [OF sample_tree_wf], of "[2]"]
      precompute_ok [OF sample_tree_wf] by auto
qed


lemma ancestors_step:
  assumes t: "tree_wf t" and c: "c \<in> set (kids t a)"
  shows "{u. c \<in> desc t u} = insert c {u. a \<in> desc t u}"
proof (intro equalityI subsetI)
  fix u
  assume u: "u \<in> {u. c \<in> desc t u}"
  show "u \<in> insert c {u. a \<in> desc t u}"
  proof (cases "u = c")
    case False
    then have "u < idx_counter t" using u by (intro desc_source [OF t]) auto
    then show ?thesis using above_kid [OF t c] u False by auto
  qed simp
next
  fix u
  assume "u \<in> insert c {u. a \<in> desc t u}"
  then show "u \<in> {u. c \<in> desc t u}" using desc_trans [OF _ kid_desc [OF t c]] by auto
qed

lemma card_ancestors:
  assumes t: "tree_wf t"
  shows "walk t 0 ps = Some i \<Longrightarrow> finite {u. i \<in> desc t u} \<and> card {u. i \<in> desc t u} = Suc (length ps)"
proof (induction ps arbitrary: i rule: rev_induct)
  case Nil
  have "{u. 0 \<in> desc t u} = {0}"
    using desc_source [OF t, of _ 0] root_desc [OF t] desc_antisym [OF t] by fastforce
  with Nil show ?case by simp
next
  case (snoc p ps)
  then obtain a where a: "walk t 0 ps = Some a" "walk t a [p] = Some i" by (auto simp: walk_append split: bind_splits)
  then have kid: "i \<in> set (kids t a)" using kids_walk [OF t] by blast
  have "i \<notin> {u. a \<in> desc t u}" using not_in_kid [OF t kid] by simp
  then show ?case using snoc.IH [OF a(1)] ancestors_step [OF t kid] by simp
qed

lemma follow_path:
  assumes t: "tree_wf t"
    and adj: "\<And>u. i \<in> desc t u \<Longrightarrow> \<exists>vs. dict_get adj u = Some vs \<and> distinct vs \<and> set vs = {c \<in> set (kids t u). i \<in> desc t c}"
  shows "walk t u ps = Some i \<Longrightarrow> follow t adj (length ps) u = Inr ps"
proof (induction ps arbitrary: u)
  case (Cons p ps)
  then obtain n c where c: "node_at t u = Some n" "get_child p n = Some c" "walk t c ps = Some i"
    by (auto simp: walk_Cons split: bind_splits)
  then have kid: "c \<in> set (kids t u)" by (auto simp: kids_walk [OF t] walk_Cons)
  have ic: "i \<in> desc t c" using c(3) by (auto simp: desc_def)
  then have "i \<in> desc t u" using desc_trans [OF kid_desc [OF t kid]] by blast
  then obtain vs where vs: "dict_get adj u = Some vs" "distinct vs" "set vs = {c \<in> set (kids t u). i \<in> desc t c}"
    using adj by blast
  have "set vs = {c}" using vs(3) kid ic kids_disjoint [OF t kid] by blast
  with vs(2) have "vs = [c]" by (cases vs; cases "tl vs") auto
  moreover obtain m where "node_at t c = Some m" "path_element m = p" using tree_wf_child [OF t c(1,2)] by blast
  ultimately show ?case using vs(1) Cons.IH [OF c(3)] by (simp add: dict_lookup_def node_at_def)
qed simp

text \<open>\<open>idx_to_path_list\<close> is the inverse of \<open>path_list_to_idx\<close>: for every node it returns, through
  the Steiner tree of that node, the path that leads to it.\<close>

lemma idx_to_path_list_inverse:
  assumes t: "tree_wf t" and tb: "precompute t = Some (Inr tb)" and p: "path_list_to_idx p t = Some i"
  shows "idx_to_path_list t tb i = Some (Inr p)"
proof -
  have w: "walk t 0 p = Some i" using p by (simp add: path_list_to_idx_def)
  have i: "i < idx_counter t" using walk_lt [OF t w] t by (simp add: tree_wf_def)
  have T: "tb = (euler_tour_of t, precompute_rmq (tour_depths (euler_tour_of t)))" using precompute_ok [OF t] tb by simp
  have "set [i] \<subseteq> {..<idx_counter t}" using i by simp
  from path_tour.steiner_spans [OF t this] obtain adj where
    b: "build_steiner_tree tb [i] = Some (Inr adj)" "dict_wf adj" "fst ` set adj = {u. \<exists>v \<in> insert 0 (set [i]). v \<in> desc t u}"
    and lists: "\<forall>u vs. dict_get adj u = Some vs \<longrightarrow> distinct vs \<and> sorted (map ((!) (tin (euler_tour_of t))) vs) \<and>
      set vs = {c \<in> set (kids t u). \<exists>v \<in> set [i]. v \<in> desc t c}" unfolding T by (elim exE conjE)
  have "i \<in> desc t u" if "0 \<in> desc t u" for u using desc_trans [OF that root_desc [OF t i]] .
  then have keys: "fst ` set adj = {u. i \<in> desc t u}" using b(3) by auto
  have "length adj = Suc (length p)"
    using card_ancestors [OF t w] b(2) distinct_card [of "map fst adj"] keys by simp
  moreover have "follow t adj (length p) 0 = Inr p"
  proof (rule follow_path [OF t _ w])
    fix u
    assume "i \<in> desc t u"
    then obtain vs where "dict_get adj u = Some vs" using keys dict_get_not_None_iff [of adj u] by auto
    moreover from this lists have "distinct vs" "set vs = {c \<in> set (kids t u). \<exists>v \<in> set [i]. v \<in> desc t c}" by iprover+
    ultimately show "\<exists>vs. dict_get adj u = Some vs \<and> distinct vs \<and> set vs = {c \<in> set (kids t u). i \<in> desc t c}"
      by simp
  qed
  ultimately show ?thesis by (simp add: idx_to_path_list_def b(1))
qed

lemma idx_to_path_list_inverse_witness:
  "\<exists>tb. precompute sample_tree = Some (Inr tb) \<and>
     idx_to_path_list sample_tree tb 3 = Some (Inr [PStr ''states'', PStr ''map''])"
proof -
  have "path_list_to_idx [PStr ''states'', PStr ''map''] sample_tree = Some 3" by (simp add: path_tree_eval)
  from idx_to_path_list_inverse [OF sample_tree_wf precompute_ok [OF sample_tree_wf] this]
  show ?thesis using precompute_ok [OF sample_tree_wf] by blast
qed

end
