(* ===== verification/Updates.thy ===== *)
theory Updates
  imports Bipatch
begin

text \<open>
  Incremental updates of a game state (\<open>data_types/newest/update_helpers.py\<close>; the copies of the
  other data type versions have the same text).

  The server sends the changed part of a state as an object of the same class; the helpers change
  the recorded object in place until it equals the new one and, when a patch is passed, write every
  change down in it.  An update returns the object as it is afterwards together with the patch.  The
  optional arguments \<open>path\<close> and \<open>rp\<close> are options: without a patch nothing is recorded, and a path is
  only needed when something below it is recorded or updated (\<open>None + [key]\<close> raises \<open>TypeError\<close>).

  The \<open>update\<close> method of the objects inside a container is an argument: which classes have one
  (\<open>has_update\<close>), and what it does (\<open>upd\<close>).  The locale \<open>updating\<close> states what such a method owes;
  \<open>universal_update\<close> pays it, so that the containers of objects updated by it are recorded
  faithfully: the forward patch takes the old container to the new one, the backward patch returns.
\<close>

type_synonym updater = "val \<Rightarrow> val \<Rightarrow> path option \<Rightarrow> bireplay_patch option \<Rightarrow> (val \<times> bireplay_patch option) result"

subsection \<open>Paths and the optional patch\<close>

definition path_plus :: "path option \<Rightarrow> pathel \<Rightarrow> path result" where
  "path_plus path p = (case path of None \<Rightarrow> Inl TypeError | Some q \<Rightarrow> Inr (q @ [p]))"

definition log_op ::
    "(path \<Rightarrow> bireplay_patch \<Rightarrow> bireplay_patch) \<Rightarrow> path option \<Rightarrow> pathel \<Rightarrow> bireplay_patch option
     \<Rightarrow> bireplay_patch option result" where
  "log_op f path p rp =
     (case rp of None \<Rightarrow> Inr None | Some r \<Rightarrow> rbind (path_plus path p) (\<lambda>q. Inr (Some (f q r))))"

text \<open>The branch that \<open>dict_update\<close> and \<open>list_update\<close> share for a child that is there before and after.\<close>

definition update_item ::
    "updater \<Rightarrow> (string \<Rightarrow> bool) \<Rightarrow> path option \<Rightarrow> pathel \<Rightarrow> val \<Rightarrow> val \<Rightarrow> bireplay_patch option
     \<Rightarrow> (val \<times> bireplay_patch option) result" where
  "update_item upd has_update path p old new rp =
     (if py_eq old new then Inr (old, rp)
      else if type_of old = type_of new \<and> (case old of VObj c _ \<Rightarrow> has_update c | _ \<Rightarrow> False)
      then rbind (path_plus path p) (\<lambda>q. upd old new (Some q) rp)
      else rbind (log_op (\<lambda>q. rp_replace q old new) path p rp) (\<lambda>rp. Inr (new, rp)))"

subsection \<open>Dicts\<close>

text \<open>A path element is an integer or a string, so a dict that is updated below a path has such keys.\<close>

definition dict_put ::
    "updater \<Rightarrow> (string \<Rightarrow> bool) \<Rightarrow> path option \<Rightarrow> pathel \<times> val \<Rightarrow> (pathel, val) dict \<times> bireplay_patch option
     \<Rightarrow> ((pathel, val) dict \<times> bireplay_patch option) result" where
  "dict_put upd has_update path = (\<lambda>(key, value) (original, rp).
     case dict_get original key of
       None \<Rightarrow> rbind (log_op (\<lambda>q. rp_add q value) path key rp) (\<lambda>rp. Inr (dict_set original key value, rp))
     | Some old \<Rightarrow>
         rbind (update_item upd has_update path key old value rp)
           (\<lambda>(value', rp). Inr (dict_set original key value', rp)))"

definition dict_drop ::
    "(pathel, val) dict \<Rightarrow> path option \<Rightarrow> pathel \<Rightarrow> (pathel, val) dict \<times> bireplay_patch option
     \<Rightarrow> ((pathel, val) dict \<times> bireplay_patch option) result" where
  "dict_drop other path key = (\<lambda>(original, rp).
     if key \<in> fst ` set other then Inr (original, rp)
     else rbind (dict_lookup original key) (\<lambda>old.
          rbind (log_op (\<lambda>q. rp_remove q old) path key rp) (\<lambda>rp. Inr (dict_del original key, rp))))"

definition dict_update ::
    "updater \<Rightarrow> (string \<Rightarrow> bool) \<Rightarrow> (pathel, val) dict \<Rightarrow> (pathel, val) dict \<Rightarrow> path option
     \<Rightarrow> bireplay_patch option \<Rightarrow> ((pathel, val) dict \<times> bireplay_patch option) result" where
  "dict_update upd has_update original other path rp =
     rbind (rfold (dict_put upd has_update path) other (original, rp)) (\<lambda>(original, rp).
       rfold (dict_drop other path) (map fst original) (original, rp))"

subsection \<open>Lists\<close>

text \<open>The loop that removes the elements from position \<open>n\<close> on, from the last one down.\<close>

definition remove_tail ::
    "nat \<Rightarrow> path option \<Rightarrow> val list \<Rightarrow> bireplay_patch option \<Rightarrow> (val list \<times> bireplay_patch option) result" where
  "remove_tail n path original rp =
     rfold (\<lambda>i (original, rp).
         rbind (log_op (\<lambda>q. rp_remove q (original ! i)) path (PInt (int i)) rp) (\<lambda>rp.
           Inr (take i original @ drop (Suc i) original, rp)))
       (rev [n..<length original]) (original, rp)"

definition list_put ::
    "updater \<Rightarrow> (string \<Rightarrow> bool) \<Rightarrow> val list \<Rightarrow> path option \<Rightarrow> nat \<Rightarrow> val list \<times> bireplay_patch option
     \<Rightarrow> (val list \<times> bireplay_patch option) result" where
  "list_put upd has_update other path i = (\<lambda>(original, rp).
     rbind (update_item upd has_update path (PInt (int i)) (original ! i) (other ! i) rp)
       (\<lambda>(v, rp). Inr (original[i := v], rp)))"

definition list_grow ::
    "val list \<Rightarrow> path option \<Rightarrow> nat \<Rightarrow> val list \<times> bireplay_patch option \<Rightarrow> (val list \<times> bireplay_patch option) result" where
  "list_grow other path i = (\<lambda>(original, rp).
     rbind (log_op (\<lambda>q. rp_add q (other ! i)) path (PInt (int i)) rp) (\<lambda>rp. Inr (original @ [other ! i], rp)))"

definition list_update_py ::
    "updater \<Rightarrow> (string \<Rightarrow> bool) \<Rightarrow> val list option \<Rightarrow> val list option \<Rightarrow> path option
     \<Rightarrow> bireplay_patch option \<Rightarrow> (val list option \<times> bireplay_patch option) result" where
  "list_update_py upd has_update original other path rp =
     (case (other, original) of
        (None, None) \<Rightarrow> Inr (None, rp)
      | (None, Some xs) \<Rightarrow> rbind (remove_tail 0 path xs rp) (\<lambda>(xs, rp). Inr (Some xs, rp))
      | (Some ys, None) \<Rightarrow> Inl AssertionError
      | (Some ys, Some xs) \<Rightarrow>
          rbind
            (rfold (list_put upd has_update ys path) [0..<min (length xs) (length ys)] (xs, rp))
            (\<lambda>(xs, rp).
               rbind
                 (if length xs < length ys
                  then rfold (list_grow ys path) [length xs..<length ys] (xs, rp)
                  else if length ys < length xs then remove_tail (length ys) path xs rp
                  else Inr (xs, rp))
                 (\<lambda>(xs, rp). Inr (Some xs, rp))))"

subsection \<open>Objects\<close>

text \<open>The loop over attribute names: \<open>skip\<close> tells which values of the new object are passed over.\<close>

definition update_attrs ::
    "(val \<Rightarrow> bool) \<Rightarrow> string list \<Rightarrow> (string \<times> val) list \<Rightarrow> (string \<times> val) list \<Rightarrow> path option
     \<Rightarrow> bireplay_patch option \<Rightarrow> ((string \<times> val) list \<times> bireplay_patch option) result" where
  "update_attrs skip names attrs attrs' path rp =
     rfold (\<lambda>attr (attrs, rp).
         rbind (attr_lookup attrs' attr) (\<lambda>new.
           if skip new then Inr (attrs, rp)
           else rbind (attr_lookup attrs attr) (\<lambda>old.
             if py_eq old new then Inr (attrs, rp)
             else rbind (log_op (\<lambda>q. rp_replace q old new) path (PStr attr) rp) (\<lambda>rp.
               Inr (dict_set attrs attr new, rp)))))
       names (attrs, rp)"

definition update_object ::
    "(string \<Rightarrow> string \<Rightarrow> bool) \<Rightarrow> (val \<Rightarrow> bool) \<Rightarrow> (string \<Rightarrow> string list) \<Rightarrow> updater" where
  "update_object isinst skip names self other path rp =
     (case (self, other) of
        (VObj c attrs, VObj d attrs') \<Rightarrow>
          if \<not> isinst d c then Inl ValueError
          else rbind (update_attrs skip (names c) attrs attrs' path rp) (\<lambda>(attrs, rp). Inr (VObj c attrs, rp))
      | (VObj c attrs, _) \<Rightarrow> Inl ValueError
      | _ \<Rightarrow> Inl AttributeError)"

definition state_update :: "(string \<Rightarrow> string \<Rightarrow> bool) \<Rightarrow> updater" where
  "state_update isinst =
     update_object isinst (\<lambda>_. False) (\<lambda>_. [''state_id'', ''state_type'', ''time_stamp''])"

definition universal_update :: "(string \<Rightarrow> string \<Rightarrow> bool) \<Rightarrow> (string \<Rightarrow> string list) \<Rightarrow> updater" where
  "universal_update isinst mapping = update_object isinst (\<lambda>_. False) mapping"

definition partial_universal_update :: "(string \<Rightarrow> string \<Rightarrow> bool) \<Rightarrow> (string \<Rightarrow> string list) \<Rightarrow> updater" where
  "partial_universal_update isinst mapping = update_object isinst (\<lambda>v. v = VNone) mapping"

subsection \<open>What an update owes\<close>

text \<open>
  \<open>logs path es\<close> adds entries below a path to a patch that may be absent.  An update is \<open>faithful\<close>
  from one object to another when it ends in an object equal to the other and what it logs, run on
  the object it started from, gives that very object; it does the same without a patch.
\<close>

definition logs :: "path \<Rightarrow> entry list \<Rightarrow> bireplay_patch option \<Rightarrow> bireplay_patch option" where
  "logs path es rp = map_option (rp_extend (map (under path) es)) rp"

lemma logs_simps [simp]:
  "logs path [] rp = rp" "logs path es' (logs path es rp) = logs path (es @ es') rp"
  "logs (path @ [p]) es rp = logs path (map (under [p]) es) rp"
  by (cases rp; simp add: logs_def)+

lemma log_op_path [simp]:
  "log_op (\<lambda>q. rp_add q v) (Some path) p rp = Inr (logs path [(KAdd v, [p])] rp)"
  "log_op (\<lambda>q. rp_remove q v) (Some path) p rp = Inr (logs path [(KRemove v, [p])] rp)"
  "log_op (\<lambda>q. rp_replace q v w) (Some path) p rp = Inr (logs path [(KReplace v w, [p])] rp)"
  by (cases rp; simp add: log_op_def path_plus_def logs_def)+

definition faithful :: "updater \<Rightarrow> val \<Rightarrow> val \<Rightarrow> bool" where
  "faithful upd a b \<longleftrightarrow>
     (\<exists>es r. proper es \<and> run_entries es a = Some r \<and> canon r = canon b \<and>
        (\<forall>path rp. upd a b (Some path) rp = Inr (r, logs path es rp)))"

text \<open>A loop over a container: every step changes the container as the entries it logs do, and \<open>P\<close>
  relates what is left of the loop to the container.\<close>

lemma logged_loop:
  assumes "P xs s"
    and "\<And>x xs s. P (x # xs) s \<Longrightarrow> \<exists>es s'. proper es \<and> run_entries es (view s) = Some (view s') \<and> P xs s' \<and>
       (\<forall>path rp. f path x (s, rp) = Inr (s', logs path es rp))"
  shows "\<exists>es s'. proper es \<and> run_entries es (view s) = Some (view s') \<and> P [] s' \<and>
       (\<forall>path rp. rfold (f path) xs (s, rp) = Inr (s', logs path es rp))"
  using assms(1)
proof (induction xs arbitrary: s)
  case Nil
  then show ?case by (intro exI [of _ "[]"] exI [of _ s]) simp
next
  case (Cons x xs)
  from assms(2) [OF Cons.prems] obtain es1 s1 where 1: "proper es1"
    "run_entries es1 (view s) = Some (view s1)" "P xs s1" "\<And>path rp. f path x (s, rp) = Inr (s1, logs path es1 rp)" by blast
  from Cons.IH [OF 1(3)] obtain es2 s2 where 2: "proper es2"
    "run_entries es2 (view s1) = Some (view s2)" "P [] s2"
    "\<And>path rp. rfold (f path) xs (s1, rp) = Inr (s2, logs path es2 rp)" by blast
  from 1 2 show ?case
    by (intro exI [of _ "es1 @ es2"] exI [of _ s2]) (simp add: run_entries_append)
qed

text \<open>A child that is updated or replaced changes its container the same way.\<close>

definition item_faithful :: "updater \<Rightarrow> (string \<Rightarrow> bool) \<Rightarrow> val \<Rightarrow> val \<Rightarrow> bool" where
  "item_faithful upd has_update a b \<longleftrightarrow> (py_eq a b \<longleftrightarrow> canon a = canon b) \<and>
     (\<forall>c attrs. a = VObj c attrs \<longrightarrow> has_update c \<longrightarrow> type_of a = type_of b \<longrightarrow> faithful upd a b)"

lemma update_item_kid:
  assumes "item_faithful upd has_update a b" and "kid x p a"
  shows "\<exists>es r. proper es \<and> run_entries es x = Some (set_child x p r) \<and> canon r = canon b \<and>
    (\<forall>path rp. update_item upd has_update (Some path) p a b rp = Inr (r, logs path es rp))"
proof (cases "py_eq a b")
  case True
  with assms show ?thesis
    by (intro exI [of _ "[]"] exI [of _ a]) (simp add: update_item_def item_faithful_def set_child_same)
next
  case ne: False
  show ?thesis
  proof (cases "type_of a = type_of b \<and> (case a of VObj c _ \<Rightarrow> has_update c | _ \<Rightarrow> False)")
    case True
    then have "faithful upd a b" using assms(1) by (auto simp: item_faithful_def split: val.splits)
    then obtain es r where es: "proper es" "run_entries es a = Some r" "canon r = canon b"
      "\<And>path rp. upd a b (Some path) rp = Inr (r, logs path es rp)" by (auto simp: faithful_def)
    then show ?thesis
      using run_entries_under [OF assms(2) es(2)] ne True
      by (intro exI [of _ "map (under [p]) es"] exI [of _ r]) (simp add: update_item_def path_plus_def)
  next
    case False
    then have u: "update_item upd has_update (Some path) p a b rp = Inr (b, logs path [(KReplace a b, [p])] rp)" for path rp
      using ne unfolding update_item_def by (simp only: if_False log_op_path rbind_Inr)
    have "run_entries [(KReplace a b, [p])] x = Some (set_child x p b)"
      using assms(2) by (auto simp: rel_op_def apply_operation_def apply_replace_kid)
    then show ?thesis using u by (intro exI [of _ "[(KReplace a b, [p])]"] exI [of _ b]) simp
  qed
qed

subsection \<open>Objects pay the contract\<close>

definition attr_progress ::
    "string set \<Rightarrow> (string \<times> val) list \<Rightarrow> (string \<times> val) list \<Rightarrow> string list \<Rightarrow> (string \<times> val) list \<Rightarrow> bool" where
  "attr_progress N xs ys ns cur \<longleftrightarrow> distinct ns \<and> set ns \<subseteq> N \<and> map fst cur = map fst xs \<and>
     (\<forall>n. n \<in> set ns \<or> n \<notin> N \<longrightarrow> map_of cur n = map_of xs n) \<and>
     (\<forall>n \<in> N - set ns. map_option canon (map_of cur n) = map_option canon (map_of ys n))"

lemma update_attrs_loop:
  assumes names: "distinct ns" "set ns \<subseteq> fst ` set xs" "set ns \<subseteq> fst ` set ys"
    and eq: "\<And>n a b. n \<in> set ns \<Longrightarrow> map_of xs n = Some a \<Longrightarrow> map_of ys n = Some b \<Longrightarrow> py_eq a b \<longleftrightarrow> canon a = canon b"
  shows "\<exists>es r. proper es \<and> run_entries es (VObj c xs) = Some (VObj c r) \<and> attr_progress (set ns) xs ys [] r \<and>
    (\<forall>path rp. update_attrs (\<lambda>_. False) ns xs ys (Some path) rp = Inr (r, logs path es rp))"
  unfolding update_attrs_def
proof (rule logged_loop)
  show "attr_progress (set ns) xs ys ns xs" using names by (simp add: attr_progress_def)
next
  fix n ms cur
  assume P: "attr_progress (set ns) xs ys (n # ms) cur"
  then have n: "n \<in> set ns" "n \<notin> set ms" by (auto simp: attr_progress_def)
  with names obtain a b where a: "map_of xs n = Some a" and b: "map_of ys n = Some b"
    by (metis dict_get_not_None_iff not_None_eq subsetD)
  have cur: "map_of cur n = Some a" using P a by (simp add: attr_progress_def)
  let ?f = "\<lambda>path attr (attrs, rp).
         rbind (attr_lookup ys attr) (\<lambda>new. if False then Inr (attrs, rp)
           else rbind (attr_lookup attrs attr) (\<lambda>old.
             if py_eq old new then Inr (attrs, rp)
             else rbind (log_op (\<lambda>q. rp_replace q old new) (Some path) (PStr attr) rp) (\<lambda>rp.
               Inr (dict_set attrs attr new, rp))))"
  show "\<exists>es r. proper es \<and> run_entries es (VObj c cur) = Some (VObj c r) \<and> attr_progress (set ns) xs ys ms r \<and>
      (\<forall>path rp. ?f path n (cur, rp) = Inr (r, logs path es rp))"
  proof (cases "py_eq a b")
    case True
    then have "attr_progress (set ns) xs ys ms cur"
      using P eq [OF n(1) a b] b cur by (auto simp: attr_progress_def)
    then show ?thesis using True b cur
      by (intro exI [of _ "[] :: entry list"] exI [of _ cur]) (simp add: attr_lookup_def)
  next
    case False
    let ?es = "[(KReplace a b, [PStr n])]"
    have "attr_progress (set ns) xs ys ms (dict_set cur n b)"
      using P n b dict_keys_dict_set [OF dict_get_in_keys [OF cur], of b] by (auto simp: attr_progress_def)
    moreover have "run_entries ?es (VObj c cur) = Some (VObj c (dict_set cur n b))"
      using kid_obj [OF cur, of c] by (auto simp: rel_op_def apply_operation_def apply_replace_kid set_child_def)
    ultimately show ?thesis using False b cur
      by (intro exI [of _ ?es] exI [of _ "dict_set cur n b"]) (simp add: attr_lookup_def)
  qed
qed

lemma universal_update_faithful:
  assumes "state_ok m a" "state_ok m b" "type_of a = type_of b" "a = VObj c xs" "isinst c c"
  shows "faithful (universal_update isinst m) a b"
proof -
  from assms(3,4) obtain ys where b: "b = VObj c ys" by (cases b) auto
  have keys: "map fst xs = m c" "map fst ys = m c" "distinct (m c)"
    using assms(1,2,4) b by (auto simp: state_ok_def)
  then have sets: "fst ` set xs = set (m c)" "fst ` set ys = set (m c)" by (metis list.set_map)+
  have "\<exists>es r. proper es \<and> run_entries es (VObj c xs) = Some (VObj c r) \<and> attr_progress (set (m c)) xs ys [] r \<and>
      (\<forall>path rp. update_attrs (\<lambda>_. False) (m c) xs ys (Some path) rp = Inr (r, logs path es rp))"
  proof (rule update_attrs_loop)
    fix n u v
    assume "map_of xs n = Some u" "map_of ys n = Some v"
    then show "py_eq u v \<longleftrightarrow> canon u = canon v"
      using assms(1,2,4) b by (metis py_eq_state state_ok_attr)
  qed (use keys(3) sets in auto)
  then obtain es r where r: "proper es" "run_entries es (VObj c xs) = Some (VObj c r)"
    "attr_progress (set (m c)) xs ys [] r"
    "\<And>path rp. update_attrs (\<lambda>_. False) (m c) xs ys (Some path) rp = Inr (r, logs path es rp)" by blast
  have r': "map fst r = m c" using r(3) keys by (simp add: attr_progress_def)
  then have "fst ` set r = set (m c)" by (metis list.set_map)
  then have "canon (VObj c r) = canon (VObj c ys)"
    using canon_attrs_eqI [of r ys] r(3) r' keys by (simp add: attr_progress_def)
  with r show ?thesis
    unfolding faithful_def assms(4) b
    by (intro exI [of _ es] exI [of _ "VObj c r"]) (simp add: universal_update_def update_object_def assms(5))
qed

subsection \<open>Containers of updated objects\<close>

text \<open>A dict with string and integer keys as a value.\<close>

definition dict_val :: "string \<Rightarrow> (pathel, val) dict \<Rightarrow> val" where
  "dict_val c d = VDict c (map (map_prod KP id) d)"

lemma map_of_KP: "map_of (map (map_prod KP id) d) (KP p) = map_of d p"
  and map_of_not_KP: "(\<And>p. k \<noteq> KP p) \<Longrightarrow> map_of (map (map_prod KP id) d) k = None"
  by (induction d) (auto simp: map_of_eq_None_iff)

lemma dict_set_KP: "dict_set (map (map_prod KP id) d) (KP p) v = map (map_prod KP id) (dict_set d p v)"
  by (induction d) auto

lemma dict_del_KP: "dict_del (map (map_prod KP id) d) (KP p) = map (map_prod KP id) (dict_del d p)"
  by (induction d) auto

lemma canon_dict_val:
  "canon (dict_val c d) = canon (dict_val c' d') \<longleftrightarrow> (\<forall>p. map_option canon (map_of d p) = map_option canon (map_of d' p))"
proof -
  have c: "canon (dict_val c d) = CDict (\<lambda>k. map_option canon (map_of (map (map_prod KP id) d) k))" for c d
    unfolding dict_val_def canon.simps by (intro arg_cong [of _ _ CDict] ext map_of_map_prod)
  have "map_option canon (map_of (map (map_prod KP id) d) k) = map_option canon (map_of (map (map_prod KP id) d') k)"
    if "\<forall>p. map_option canon (map_of d p) = map_option canon (map_of d' p)" for k
    by (cases k) (simp_all add: map_of_KP map_of_not_KP that)
  then show ?thesis unfolding c by (auto simp: fun_eq_iff) (metis map_of_KP)
qed

lemma kid_dict_val: "map_of d p = Some v \<Longrightarrow> kid (dict_val c d) p v"
  unfolding dict_val_def by (rule kid_dict) (simp add: map_of_KP)

lemma set_child_dict_val: "set_child (dict_val c d) p v = dict_val c (dict_set d p v)"
  by (simp add: dict_val_def set_child_def dict_set_KP)

lemma run_add_dict_val:
  "map_of d p = None \<Longrightarrow> run_entries [(KAdd v, [p])] (dict_val c d) = Some (dict_val c (dict_set d p v))"
  by (simp add: dict_val_def addable_def rel_op_def apply_operation_def op_codes apply_add_def dict_set_KP
      image_image map_of_eq_None_iff) force

lemma run_remove_dict_val:
  assumes "map_of d p = Some v"
  shows "run_entries [(KRemove v, [p])] (dict_val c d) = Some (dict_val c (dict_del d p))"
  using kid_dict_val [OF assms, of c] assms
  by (auto simp: dict_val_def removable_def rel_op_def apply_operation_def op_codes apply_remove_def dict_pop_def
      dict_del_KP map_of_KP)

definition put_progress ::
    "(pathel, val) dict \<Rightarrow> (pathel, val) dict \<Rightarrow> (pathel, val) dict \<Rightarrow> (pathel, val) dict \<Rightarrow> bool" where
  "put_progress original other kvs cur \<longleftrightarrow> (\<exists>pre. other = pre @ kvs \<and> dict_wf cur \<and>
     (\<forall>k \<in> fst ` set pre. map_option canon (map_of cur k) = map_option canon (map_of other k)) \<and>
     (\<forall>k. k \<notin> fst ` set pre \<longrightarrow> map_of cur k = map_of original k))"

definition drop_progress :: "(pathel, val) dict \<Rightarrow> pathel list \<Rightarrow> (pathel, val) dict \<Rightarrow> bool" where
  "drop_progress other ks cur \<longleftrightarrow> distinct ks \<and> set ks \<subseteq> fst ` set cur \<and>
     (\<forall>k \<in> fst ` set other. map_option canon (map_of cur k) = map_option canon (map_of other k)) \<and>
     (\<forall>k. k \<notin> set ks \<longrightarrow> k \<notin> fst ` set other \<longrightarrow> map_of cur k = None)"

lemma dict_drop_step:
  assumes P: "drop_progress other (k # ks) cur"
  shows "\<exists>es r. proper es \<and> run_entries es (dict_val c cur) = Some (dict_val c r) \<and> drop_progress other ks r \<and>
      (\<forall>path rp. dict_drop other (Some path) k (cur, rp) = Inr (r, logs path es rp))"
proof (cases "k \<in> fst ` set other")
  case True
  then have "drop_progress other ks cur" using P by (auto simp: drop_progress_def)
  with True show ?thesis
    by (intro exI [of _ "[] :: entry list"] exI [of _ cur]) (simp add: dict_drop_def)
next
  case False
  from P obtain v where v: "map_of cur k = Some v"
    unfolding drop_progress_def by (metis dict_get_not_None_iff list.set_intros(1) not_None_eq subsetD)
  have "k' \<in> fst ` set other \<Longrightarrow> k' \<noteq> k" for k' using False by auto
  then have "drop_progress other ks (dict_del cur k)" using P by (auto simp: drop_progress_def)
  with False show ?thesis
    using run_remove_dict_val [OF v, of c] v
    by (intro exI [of _ "[(KRemove v, [k])]"] exI [of _ "dict_del cur k"]) (simp add: dict_drop_def dict_lookup_def)
qed

text \<open>The loops of \<open>list_update\<close>: what is left of the positions is related to the list so far.\<close>

lemma eq_upt_simps: "x # xs = [a..<b] \<longleftrightarrow> x = a \<and> a < b \<and> xs = [Suc a..<b]" "[] = [a..<b] \<longleftrightarrow> b \<le> a"
  by (auto simp: upt_eq_Cons_conv eq_commute [of "x # xs"] eq_commute [of "[]"])

definition items_progress :: "val list \<Rightarrow> val list \<Rightarrow> nat list \<Rightarrow> val list \<Rightarrow> bool" where
  "items_progress xs ys is cur \<longleftrightarrow> length cur = length xs \<and> (\<exists>j \<le> min (length xs) (length ys).
     is = [j..<min (length xs) (length ys)] \<and> (\<forall>i < j. canon (cur ! i) = canon (ys ! i)) \<and>
     (\<forall>i < length xs. j \<le> i \<longrightarrow> cur ! i = xs ! i))"

lemma grow_loop:
  assumes "length cur \<le> length ys" "map canon cur = map canon (take (length cur) ys)"
  shows "\<exists>es r. proper es \<and> run_entries es (VList c cur) = Some (VList c r) \<and> map canon r = map canon ys \<and>
    (\<forall>path rp. rfold (list_grow ys (Some path)) [length cur..<length ys] (cur, rp) = Inr (r, logs path es rp))"
proof -
  let ?P = "\<lambda>is cur. is = [length cur..<length ys] \<and> length cur \<le> length ys \<and> map canon cur = map canon (take (length cur) ys)"
  have "?P [length cur..<length ys] cur" using assms by simp
  then have "\<exists>es r. proper es \<and> run_entries es (VList c cur) = Some (VList c r) \<and> ?P [] r \<and>
    (\<forall>path rp. rfold (list_grow ys (Some path)) [length cur..<length ys] (cur, rp) = Inr (r, logs path es rp))"
  proof (rule logged_loop)
    fix i "is" cur
    assume P: "?P (i # is) cur"
    then have i: "i = length cur" "is = [Suc i..<length ys]" "i < length ys" by (auto simp: eq_upt_simps)
    then have "?P is (cur @ [ys ! i])" using P by (simp add: take_Suc_conv_app_nth)
    with i show "\<exists>es r. proper es \<and> run_entries es (VList c cur) = Some (VList c r) \<and> ?P is r \<and>
        (\<forall>path rp. list_grow ys (Some path) i (cur, rp) = Inr (r, logs path es rp))"
      by (intro exI [of _ "[(KAdd (ys ! i), [PInt (int i)])]"] exI [of _ "cur @ [ys ! i]"])
        (simp add: list_grow_def addable_def rel_op_def apply_operation_def op_codes apply_add_def)
  qed
  then obtain es r where r: "proper es" "run_entries es (VList c cur) = Some (VList c r)" "?P [] r"
    "\<And>path rp. rfold (list_grow ys (Some path)) [length cur..<length ys] (cur, rp) = Inr (r, logs path es rp)" by blast
  then have "map canon r = map canon ys" by (simp add: eq_upt_simps)
  with r show ?thesis by blast
qed

lemma remove_tail_loop:
  assumes "n \<le> length xs"
  shows "\<exists>es. proper es \<and> run_entries es (VList c xs) = Some (VList c (take n xs)) \<and>
    (\<forall>path rp. remove_tail n (Some path) xs rp = Inr (take n xs, logs path es rp))"
proof -
  let ?P = "\<lambda>is cur. is = rev [n..<length cur] \<and> n \<le> length cur \<and> take n cur = take n xs"
  have "?P (rev [n..<length xs]) xs" using assms by simp
  then have "\<exists>es r. proper es \<and> run_entries es (VList c xs) = Some (VList c r) \<and> ?P [] r \<and>
    (\<forall>path rp. remove_tail n (Some path) xs rp = Inr (r, logs path es rp))"
    unfolding remove_tail_def
  proof (rule logged_loop)
    fix i "is" cur
    assume P: "?P (i # is) cur"
    then have l: "n < length cur" by (cases "n = length cur") auto
    then obtain ys y where cur: "cur = ys @ [y]" by (metis append_butlast_last_id list.size(3) not_less_zero)
    then have i: "i = length ys" "is = rev [n..<length ys]" "n \<le> length ys" using P l by (auto simp: upt_Suc)
    have "kid (VList c cur) (PInt (int i)) y" using kid_list [of i cur c] cur i by simp
    then have "run_entries [(KRemove y, [PInt (int i)])] (VList c cur) = Some (VList c ys)"
      using cur i by (auto simp: removable_def rel_op_def apply_operation_def op_codes apply_remove_def list_pop_def)
    moreover have "?P is ys" using P i cur by simp
    ultimately show "\<exists>es r. proper es \<and> run_entries es (VList c cur) = Some (VList c r) \<and> ?P is r \<and>
        (\<forall>path rp. (\<lambda>(original, rp).
         rbind (log_op (\<lambda>q. rp_remove q (original ! i)) (Some path) (PInt (int i)) rp) (\<lambda>rp.
           Inr (take i original @ drop (Suc i) original, rp))) (cur, rp) = Inr (r, logs path es rp))"
      using cur i by (intro exI [of _ "[(KRemove y, [PInt (int i)])]"] exI [of _ ys]) simp
  qed
  then obtain es r where r: "proper es" "run_entries es (VList c xs) = Some (VList c r)" "?P [] r"
    "\<And>path rp. remove_tail n (Some path) xs rp = Inr (r, logs path es rp)" by blast
  then have "r = take n xs" by auto
  with r show ?thesis by blast
qed

text \<open>
  The interface between the container helpers and the \<open>update\<close> methods of the objects in the
  containers: on values that satisfy \<open>ok\<close>, \<open>==\<close> is equality of the canonical forms, and an object
  whose class has an \<open>update\<close> method is updated faithfully to another of its class.
\<close>

locale updating =
  fixes upd :: updater and has_update :: "string \<Rightarrow> bool" and ok :: "val \<Rightarrow> bool"
  assumes ok_eq: "ok a \<Longrightarrow> ok b \<Longrightarrow> py_eq a b \<longleftrightarrow> canon a = canon b"
    and ok_update: "ok (VObj c xs) \<Longrightarrow> ok b \<Longrightarrow> has_update c \<Longrightarrow> type_of (VObj c xs) = type_of b \<Longrightarrow> faithful upd (VObj c xs) b"
begin

lemma ok_item: "ok a \<Longrightarrow> ok b \<Longrightarrow> item_faithful upd has_update a b"
  by (auto simp: item_faithful_def ok_eq ok_update)

lemma dict_put_step:
  assumes "dict_wf other" and "\<And>k v. map_of original k = Some v \<Longrightarrow> ok v" and "\<And>k v. (k, v) \<in> set other \<Longrightarrow> ok v"
    and P: "put_progress original other (kv # kvs) cur"
  shows "\<exists>es r. proper es \<and> run_entries es (dict_val c cur) = Some (dict_val c r) \<and> put_progress original other kvs r \<and>
      (\<forall>path rp. dict_put upd has_update (Some path) kv (cur, rp) = Inr (r, logs path es rp))"
proof -
  obtain k v where kv: "kv = (k, v)" by (cases kv)
  from P obtain pre where other: "other = pre @ (k, v) # kvs" and wf: "dict_wf cur"
    and seen: "\<And>k. k \<in> fst ` set pre \<Longrightarrow> map_option canon (map_of cur k) = map_option canon (map_of other k)"
    and rest: "\<And>k. k \<notin> fst ` set pre \<Longrightarrow> map_of cur k = map_of original k"
    unfolding put_progress_def kv by blast
  have fresh: "k \<notin> fst ` set pre" using assms(1) other by force
  then have ov: "map_of other k = Some v" by (simp add: other map_add_def map_of_eq_None_iff [THEN iffD2])
  have okv: "ok v" using assms(3) other by auto
  have step: "put_progress original other kvs (dict_set cur k w)" if "canon w = canon v" for w
    unfolding put_progress_def using that other seen rest ov wf by (intro exI [of _ "pre @ [(k, v)]"]) auto
  show ?thesis
  proof (cases "map_of cur k")
    case None
    then show ?thesis
      using step [OF refl] run_add_dict_val [of cur k v c]
      by (intro exI [of _ "[(KAdd v, [k])]"] exI [of _ "dict_set cur k v"]) (simp add: dict_put_def kv)
  next
    case (Some old)
    then have "ok old" using assms(2) rest [OF fresh] by simp
    with update_item_kid [OF ok_item kid_dict_val [OF Some, of c]] okv obtain es w where
      "proper es" "run_entries es (dict_val c cur) = Some (set_child (dict_val c cur) k w)" "canon w = canon v"
      "\<And>path rp. update_item upd has_update (Some path) k old v rp = Inr (w, logs path es rp)" by metis
    then show ?thesis
      using step [of w] Some
      by (intro exI [of _ es] exI [of _ "dict_set cur k w"]) (simp add: dict_put_def kv set_child_dict_val)
  qed
qed

lemma dict_update_faithful:
  assumes "dict_wf original" "dict_wf other"
    and "\<And>k v. map_of original k = Some v \<Longrightarrow> ok v" and "\<And>k v. (k, v) \<in> set other \<Longrightarrow> ok v"
  shows "\<exists>es r. proper es \<and> run_entries es (dict_val c original) = Some (dict_val c r) \<and>
    canon (dict_val c r) = canon (dict_val c other) \<and>
    (\<forall>path rp. dict_update upd has_update original other (Some path) rp = Inr (r, logs path es rp))"
proof -
  have "put_progress original other other original" using assms(1) by (simp add: put_progress_def)
  then have "\<exists>es r. proper es \<and> run_entries es (dict_val c original) = Some (dict_val c r) \<and>
      put_progress original other [] r \<and>
      (\<forall>path rp. rfold (dict_put upd has_update (Some path)) other (original, rp) = Inr (r, logs path es rp))"
    by (rule logged_loop) (rule dict_put_step [OF assms(2-4)])
  then obtain es1 r1 where 1: "proper es1" "run_entries es1 (dict_val c original) = Some (dict_val c r1)"
    "put_progress original other [] r1"
    "\<And>path rp. rfold (dict_put upd has_update (Some path)) other (original, rp) = Inr (r1, logs path es1 rp)"
    by blast
  have "\<forall>k. k \<notin> fst ` set r1 \<longrightarrow> map_of r1 k = None" by (simp add: map_of_eq_None_iff)
  with 1(3) have "drop_progress other (map fst r1) r1" by (auto simp: put_progress_def drop_progress_def)
  then have "\<exists>es r. proper es \<and> run_entries es (dict_val c r1) = Some (dict_val c r) \<and> drop_progress other [] r \<and>
      (\<forall>path rp. rfold (dict_drop other (Some path)) (map fst r1) (r1, rp) = Inr (r, logs path es rp))"
    by (rule logged_loop) (rule dict_drop_step)
  then obtain es2 r2 where 2: "proper es2" "run_entries es2 (dict_val c r1) = Some (dict_val c r2)"
    "drop_progress other [] r2"
    "\<And>path rp. rfold (dict_drop other (Some path)) (map fst r1) (r1, rp) = Inr (r2, logs path es2 rp)"
    by blast
  have "map_option canon (map_of r2 k) = map_option canon (map_of other k)" for k
    using 2(3) map_of_eq_None_iff [of other k] by (cases "k \<in> fst ` set other") (auto simp: drop_progress_def)
  then have "canon (dict_val c r2) = canon (dict_val c other)" by (simp add: canon_dict_val)
  moreover have "dict_update upd has_update original other (Some path) rp = Inr (r2, logs path (es1 @ es2) rp)" for path rp
    unfolding dict_update_def 1(4) rbind_Inr prod.case 2(4) by simp
  ultimately show ?thesis
    using 1(1,2) 2(1,2) by (intro exI [of _ "es1 @ es2"] exI [of _ r2]) (simp add: run_entries_append)
qed

end

context updating
begin

lemma list_items_step:
  assumes "list_all ok xs" "list_all ok ys"
    and P: "items_progress xs ys (i # is) cur"
  shows "\<exists>es r. proper es \<and> run_entries es (VList c cur) = Some (VList c r) \<and> items_progress xs ys is r \<and>
    (\<forall>path rp. list_put upd has_update ys (Some path) i (cur, rp) = Inr (r, logs path es rp))"
proof -
  from P have i: "is = [Suc i..<min (length xs) (length ys)]" "i < length xs" "i < length ys" "length cur = length xs"
    "cur ! i = xs ! i" by (auto simp: items_progress_def eq_upt_simps)
  from i assms(1,2) have "item_faithful upd has_update (cur ! i) (ys ! i)"
    by (intro ok_item) (simp_all add: list_all_length)
  from update_item_kid [OF this kid_list [of i cur c]] i obtain es v where v: "proper es"
    "run_entries es (VList c cur) = Some (VList c (cur[i := v]))" "canon v = canon (ys ! i)"
    "\<And>path rp. update_item upd has_update (Some path) (PInt (int i)) (cur ! i) (ys ! i) rp = Inr (v, logs path es rp)"
    by (auto simp: set_child_def)
  moreover have "items_progress xs ys is (cur[i := v])"
    using P i v(3) by (auto simp: items_progress_def eq_upt_simps nth_list_update less_Suc_eq intro!: exI [of _ "Suc i"])
  ultimately show ?thesis
    by (intro exI [of _ es] exI [of _ "cur[i := v]"]) (simp add: list_put_def)
qed

lemma list_update_faithful:
  assumes "list_all ok xs" "list_all ok ys"
  shows "\<exists>es r. proper es \<and> run_entries es (VList c xs) = Some (VList c r) \<and>
    canon (VList c r) = canon (VList c ys) \<and>
    (\<forall>path rp. list_update_py upd has_update (Some xs) (Some ys) (Some path) rp = Inr (Some r, logs path es rp))"
proof -
  let ?m = "min (length xs) (length ys)"
  have "items_progress xs ys [0..<?m] xs" by (auto simp: items_progress_def)
  then have "\<exists>es r. proper es \<and> run_entries es (VList c xs) = Some (VList c r) \<and> items_progress xs ys [] r \<and>
      (\<forall>path rp. rfold (list_put upd has_update ys (Some path)) [0..<?m] (xs, rp) = Inr (r, logs path es rp))"
    by (rule logged_loop) (rule list_items_step [OF assms])
  then obtain es1 r1 where 1: "proper es1" "run_entries es1 (VList c xs) = Some (VList c r1)" "items_progress xs ys [] r1"
    "\<And>path rp. rfold (list_put upd has_update ys (Some path)) [0..<?m] (xs, rp) = Inr (r1, logs path es1 rp)" by blast
  then have len: "length r1 = length xs" and same: "\<And>i. i < ?m \<Longrightarrow> canon (r1 ! i) = canon (ys ! i)"
    by (auto simp: items_progress_def eq_upt_simps)
  let ?rest = "\<lambda>path rp. if length r1 < length ys then rfold (list_grow ys (Some path)) [length r1..<length ys] (r1, rp)
      else if length ys < length r1 then remove_tail (length ys) (Some path) r1 rp else Inr (r1, rp)"
  have "\<exists>es r. proper es \<and> run_entries es (VList c r1) = Some (VList c r) \<and> map canon r = map canon ys \<and>
      (\<forall>path rp. ?rest path rp = Inr (r, logs path es rp))"
  proof (cases "length r1 < length ys")
    case True
    then have "map canon r1 = map canon (take (length r1) ys)" using same len by (auto intro!: nth_equalityI)
    with grow_loop [of r1 ys c] True show ?thesis by auto
  next
    case False
    show ?thesis
    proof (cases "length ys = length r1")
      case True
      with same len have "map canon r1 = map canon ys" by (auto intro!: nth_equalityI)
      with True show ?thesis by (intro exI [of _ "[] :: entry list"] exI [of _ r1]) simp
    next
      case F: False
      with False have l: "length ys < length r1" by simp
      then have "map canon (take (length ys) r1) = map canon ys" using same len by (auto intro!: nth_equalityI)
      with remove_tail_loop [of "length ys" r1 c] l show ?thesis by auto
    qed
  qed
  then obtain es2 r2 where 2: "proper es2" "run_entries es2 (VList c r1) = Some (VList c r2)" "map canon r2 = map canon ys"
    "\<And>path rp. ?rest path rp = Inr (r2, logs path es2 rp)" by blast
  have "list_update_py upd has_update (Some xs) (Some ys) (Some path) rp = Inr (Some r2, logs path (es1 @ es2) rp)" for path rp
    unfolding list_update_py_def prod.case option.case 1(4) rbind_Inr 2(4) by simp
  with 1(1,2) 2(1-3) show ?thesis
    by (intro exI [of _ "es1 @ es2"] exI [of _ r2]) (simp add: run_entries_append)
qed

end

subsection \<open>The update of mapped objects\<close>

text \<open>\<open>universal_update\<close> meets the interface on the objects the recorder is meant for.\<close>

interpretation universal: updating "universal_update (=) m" has_update "state_ok m" for m has_update
proof unfold_locales
  fix c xs b
  assume "state_ok m (VObj c xs)" "state_ok m b" "type_of (VObj c xs) = type_of b"
  then show "faithful (universal_update (=) m) (VObj c xs) b" by (rule universal_update_faithful) simp_all
qed (rule py_eq_state)

text \<open>What is logged into a new patch replays forward and backward.\<close>

lemma logged_patch_replays:
  assumes "proper es" "run_entries es a = Some r" "canon r = canon b"
  shows "\<exists>rp a'. logs [] es (Some new_bipatch) = Some rp \<and>
    apply_ops (patch_ops (forward_patch rp)) a = Inr r \<and>
    apply_ops (patch_ops (backward_patch rp)) r = Inr a' \<and> canon a' = canon a"
  using run_entries_patch [OF assms(2,1)] by (auto simp: logs_def patch_ops_new under_nil)

text \<open>C9: Updating a dict to another with \<open>dict_update\<close>, where the objects in it are updated in place
  by \<open>universal_update\<close>, ends in a dict equal (as Python's \<open>==\<close>) to the other.  The patch it fills
  turns the dict as it was into the updated one when applied forward, and the updated one into a
  dict equal to the old one when applied backward.  Without a patch the same dict results.\<close>

theorem dict_update_replays:
  assumes "dict_wf original" "dict_wf other"
    and "list_all (\<lambda>(k, v). state_ok m v) original" "list_all (\<lambda>(k, v). state_ok m v) other"
  shows "\<exists>r rp a'. dict_update (universal_update (=) m) has_update original other (Some []) (Some new_bipatch) = Inr (r, Some rp) \<and>
    dict_update (universal_update (=) m) has_update original other (Some path) None = Inr (r, None) \<and>
    canon (dict_val c r) = canon (dict_val c other) \<and>
    apply_ops (patch_ops (forward_patch rp)) (dict_val c original) = Inr (dict_val c r) \<and>
    apply_ops (patch_ops (backward_patch rp)) (dict_val c r) = Inr a' \<and> canon a' = canon (dict_val c original)"
proof -
  have ok: "\<And>k v. map_of original k = Some v \<Longrightarrow> state_ok m v" "\<And>k v. (k, v) \<in> set other \<Longrightarrow> state_ok m v"
    using assms(3,4) by (auto simp: list_all_iff dest!: map_of_SomeD)
  have "\<exists>es r. proper es \<and> run_entries es (dict_val c original) = Some (dict_val c r) \<and>
      canon (dict_val c r) = canon (dict_val c other) \<and>
      (\<forall>path rp. dict_update (universal_update (=) m) has_update original other (Some path) rp = Inr (r, logs path es rp))"
    by (rule universal.dict_update_faithful [OF assms(1,2)]) (use ok in auto)
  then obtain es r where
    r: "proper es" "run_entries es (dict_val c original) = Some (dict_val c r)" "canon (dict_val c r) = canon (dict_val c other)"
    "\<And>path rp. dict_update (universal_update (=) m) has_update original other (Some path) rp = Inr (r, logs path es rp)"
    by blast
  with logged_patch_replays [OF r(1-3)] show ?thesis by (auto simp: logs_def)
qed

definition sample_units :: "(pathel, val) dict" where
  "sample_units = [(PInt 7, VObj ''Unit'' [(''hp'', VInt 10), (''name'', VStr ''a'')]), (PInt 8, VInt 1)]"

definition sample_new_units :: "(pathel, val) dict" where
  "sample_new_units = [(PInt 9, VStr ''n''), (PInt 7, VObj ''Unit'' [(''hp'', VInt 4), (''name'', VStr ''a'')])]"

theorem dict_update_replays_witness:
  "\<exists>r rp a'. dict_update (universal_update (=) (\<lambda>_. [''hp'', ''name''])) (\<lambda>_. True) sample_units sample_new_units (Some []) (Some new_bipatch) = Inr (r, Some rp) \<and>
    dict_update (universal_update (=) (\<lambda>_. [''hp'', ''name''])) (\<lambda>_. True) sample_units sample_new_units (Some []) None = Inr (r, None) \<and>
    canon (dict_val ''dict'' r) = canon (dict_val ''dict'' sample_new_units) \<and>
    apply_ops (patch_ops (forward_patch rp)) (dict_val ''dict'' sample_units) = Inr (dict_val ''dict'' r) \<and>
    apply_ops (patch_ops (backward_patch rp)) (dict_val ''dict'' r) = Inr a' \<and> canon a' = canon (dict_val ''dict'' sample_units)"
  by (rule dict_update_replays)
    (simp_all add: sample_units_def sample_new_units_def state_ok_def)

text \<open>C15: Updating a list to another with \<open>list_update\<close> ends in a list equal to the other, and the
  patch it fills replays forward and backward.  A list that is not there cannot be updated to one that
  is (\<open>AssertionError\<close>), and an absent new list empties the old one.\<close>

theorem list_update_replays:
  assumes "list_all (state_ok m) xs" "list_all (state_ok m) ys"
  shows "(\<exists>r rp a'. list_update_py (universal_update (=) m) has_update (Some xs) (Some ys) (Some []) (Some new_bipatch) = Inr (Some r, Some rp) \<and>
      canon (VList c r) = canon (VList c ys) \<and>
      apply_ops (patch_ops (forward_patch rp)) (VList c xs) = Inr (VList c r) \<and>
      apply_ops (patch_ops (backward_patch rp)) (VList c r) = Inr a' \<and> canon a' = canon (VList c xs)) \<and>
    list_update_py upd has_update None (Some ys) path rp = Inl AssertionError \<and>
    (\<exists>rp. list_update_py upd has_update (Some xs) None (Some []) (Some new_bipatch) = Inr (Some [], Some rp) \<and>
      apply_ops (patch_ops (forward_patch rp)) (VList c xs) = Inr (VList c []))"
proof -
  from universal.list_update_faithful [OF assms, of c has_update] obtain es r where
    r: "proper es" "run_entries es (VList c xs) = Some (VList c r)" "canon (VList c r) = canon (VList c ys)"
    "\<And>path rp. list_update_py (universal_update (=) m) has_update (Some xs) (Some ys) (Some path) rp = Inr (Some r, logs path es rp)"
    by blast
  from remove_tail_loop [of 0 xs c] obtain es0 where e: "proper es0" "run_entries es0 (VList c xs) = Some (VList c [])"
    "\<And>path rp. remove_tail 0 (Some path) xs rp = Inr ([], logs path es0 rp)" by auto
  have "\<exists>rp. list_update_py upd has_update (Some xs) None (Some []) (Some new_bipatch) = Inr (Some [], Some rp) \<and>
      apply_ops (patch_ops (forward_patch rp)) (VList c xs) = Inr (VList c [])"
    using logged_patch_replays [OF e(1,2) refl] e(3) by (auto simp: list_update_py_def)
  moreover have "list_update_py upd has_update None (Some ys) path rp = Inl AssertionError"
    by (simp add: list_update_py_def)
  ultimately show ?thesis using logged_patch_replays [OF r(1-3)] r(3,4) by auto
qed

theorem list_update_replays_witness:
  "(\<exists>r rp a'. list_update_py (universal_update (=) (\<lambda>_. [''hp''])) (\<lambda>_. True)
        (Some [VObj ''Unit'' [(''hp'', VInt 1)], VInt 2, VInt 3]) (Some [VObj ''Unit'' [(''hp'', VInt 5)]])
        (Some []) (Some new_bipatch) = Inr (Some r, Some rp) \<and>
      canon (VList ''list'' r) = canon (VList ''list'' [VObj ''Unit'' [(''hp'', VInt 5)]]) \<and>
      apply_ops (patch_ops (forward_patch rp)) (VList ''list'' [VObj ''Unit'' [(''hp'', VInt 1)], VInt 2, VInt 3]) = Inr (VList ''list'' r) \<and>
      apply_ops (patch_ops (backward_patch rp)) (VList ''list'' r) = Inr a' \<and>
      canon a' = canon (VList ''list'' [VObj ''Unit'' [(''hp'', VInt 1)], VInt 2, VInt 3]))"
  using list_update_replays [of "\<lambda>_. [''hp'']" "[VObj ''Unit'' [(''hp'', VInt 1)], VInt 2, VInt 3]"
      "[VObj ''Unit'' [(''hp'', VInt 5)]]" "\<lambda>_. True" "''list''"]
  by (simp add: state_ok_def)

text \<open>A partial update takes over the attributes that are set in the new object and keeps the others,
  up to Python equality.\<close>

lemma partial_update_attr:
  assumes "distinct ns" "set ns \<subseteq> fst ` set attrs" "set ns \<subseteq> fst ` set attrs'"
  shows "\<exists>r. update_attrs (\<lambda>v. v = VNone) ns attrs attrs' path None = Inr (r, None) \<and>
    (\<forall>n. map_of r n = (if n \<in> set ns \<and> map_of attrs' n \<noteq> Some VNone \<and> \<not> py_eq (the (map_of attrs n)) (the (map_of attrs' n))
       then map_of attrs' n else map_of attrs n))"
  using assms
proof (induction ns arbitrary: attrs)
  case (Cons n ns)
  then obtain a b where a: "map_of attrs n = Some a" and b: "map_of attrs' n = Some b"
    by (metis dict_get_not_None_iff list.set_intros(1) not_None_eq subsetD)
  let ?at = "if b = VNone \<or> py_eq a b then attrs else dict_set attrs n b"
  have "update_attrs (\<lambda>v. v = VNone) (n # ns) attrs attrs' path None = update_attrs (\<lambda>v. v = VNone) ns ?at attrs' path None"
    using a b by (simp add: update_attrs_def attr_lookup_def log_op_def)
  moreover have "\<exists>r. update_attrs (\<lambda>v. v = VNone) ns ?at attrs' path None = Inr (r, None) \<and>
    (\<forall>k. map_of r k = (if k \<in> set ns \<and> map_of attrs' k \<noteq> Some VNone \<and> \<not> py_eq (the (map_of ?at k)) (the (map_of attrs' k))
       then map_of attrs' k else map_of ?at k))"
    using Cons.prems by (intro Cons.IH) auto
  ultimately show ?case using Cons.prems(1) a b by (auto split: if_splits)
qed (simp add: update_attrs_def)

end
