(* ===== verification/LongPatch.thy ===== *)
theory LongPatch
  imports Steiner PatchGraph Bipatch
begin

text \<open>
  Merging the patches between two times into one (\<open>replay/long_patch.py\<close>,
  \<open>replay/op_tree.cpp\<close>).

  The operations of a sequence of patches are merged path by path into slots, the slots are read from
  the root of the Steiner tree of the changed paths downwards, and what lies below a slot is applied
  to the slot's value.  The program mutates that value in place; here \<open>dfs_apply_ops\<close> returns it, and
  \<open>put_child\<close> puts a changed child back, as the values of different operations share no objects.  An
  \<open>unordered_map\<close> and a \<open>set\<close> have no fixed order: here it is the order of insertion, and the
  result, sorted by the times of the slots, does not depend on it.

  The two queue loops are partial functions (\<open>None\<close> when a loop does not end), the recursion of
  \<open>dfs_apply_ops\<close> has fuel: the number of nodes of the path tree bounds its depth.
\<close>

subsection \<open>Slots: one operation per path\<close>

record op_node =
  slot_type :: int
  slot_path :: int
  value_composite :: "64 word"
  creation_time :: nat
  last_changed_time :: nat

definition composite :: "nat \<Rightarrow> nat \<Rightarrow> 64 word" where
  "composite patch_idx val_idx = or (push_bit 32 (word_of_nat patch_idx)) (word_of_nat val_idx)"

definition new_slot :: "nat \<Rightarrow> nat \<Rightarrow> nat \<Rightarrow> int \<Rightarrow> nat \<Rightarrow> op_node" where
  "new_slot t patch_idx i op_type path =
     \<lparr>slot_type = op_type, slot_path = int path, value_composite = composite patch_idx i,
      creation_time = t, last_changed_time = t\<rparr>"

definition merge_slot :: "nat \<Rightarrow> nat \<Rightarrow> nat \<Rightarrow> int \<Rightarrow> nat \<Rightarrow> op_node \<Rightarrow> op_node" where
  "merge_slot t patch_idx i op_type path s =
     (let old_op = slot_type s;
          s' = s\<lparr>slot_path := int path, value_composite := composite patch_idx i, last_changed_time := t\<rparr>
      in if old_op = REMOVE_OPERATION \<and> op_type = ADD_OPERATION then s'\<lparr>slot_type := REPLACE_OPERATION\<rparr>
         else if old_op = ADD_OPERATION \<and> op_type = REMOVE_OPERATION
         then s\<lparr>slot_type := -1, slot_path := -1, value_composite := -1, last_changed_time := t\<rparr>
         else if old_op = ADD_OPERATION \<and> op_type = REPLACE_OPERATION then s'\<lparr>slot_type := ADD_OPERATION\<rparr>
         else if old_op = REPLACE_OPERATION \<and> op_type = REMOVE_OPERATION
         then s'\<lparr>slot_type := REMOVE_OPERATION, creation_time := t\<rparr>
         else s'\<lparr>slot_type := op_type\<rparr>)"

definition put_op :: "nat \<Rightarrow> nat \<Rightarrow> nat \<Rightarrow> int \<Rightarrow> nat \<Rightarrow> op_node option \<Rightarrow> op_node" where
  "put_op t patch_idx i op_type path slot =
     (case slot of None \<Rightarrow> new_slot t patch_idx i op_type path
                 | Some s \<Rightarrow> merge_slot t patch_idx i op_type path s)"

text \<open>The queue that gives every node of the Steiner tree an empty slot.\<close>

partial_function (option) init_slots ::
    "adjacency \<Rightarrow> nat list \<Rightarrow> (nat, op_node option) dict \<Rightarrow> (nat, op_node option) dict option" where
  [code]: "init_slots ad q d =
     (case q of
        [] \<Rightarrow> Some d
      | u # q' \<Rightarrow> init_slots ad (q' @ (case dict_get ad u of None \<Rightarrow> [] | Some vs \<Rightarrow> vs)) (dict_set d u None))"

text \<open>The operations of all patches in order, each with the index of its patch and its index there;
  the lists of a patch are parallel.\<close>

definition all_ops :: "int list list \<Rightarrow> nat list list \<Rightarrow> (nat \<times> nat \<times> int \<times> nat) list" where
  "all_ops ops_per_patch paths_per_patch =
     concat (map (\<lambda>(patch_idx, ops, ps). map (\<lambda>(i, op_type, path). (patch_idx, i, op_type, path)) (enumerate 0 (zip ops ps)))
       (enumerate 0 (zip ops_per_patch paths_per_patch)))"

definition process_ops ::
    "(nat \<times> nat \<times> nat \<times> int \<times> nat) list \<Rightarrow> (nat, op_node option) dict \<Rightarrow> (nat, op_node option) dict" where
  "process_ops = fold (\<lambda>(t, patch_idx, i, op_type, path) d.
     dict_set d path (Some (put_op t patch_idx i op_type path (case dict_get d path of None \<Rightarrow> None | Some s \<Rightarrow> s))))"

definition build_op_tree_fast ::
    "int list list \<Rightarrow> nat list list \<Rightarrow> adjacency \<Rightarrow> nat \<Rightarrow> (nat, op_node option) dict option" where
  "build_op_tree_fast ops_per_patch paths_per_patch ad start =
     map_option (process_ops (enumerate 0 (all_ops ops_per_patch paths_per_patch))) (init_slots ad [start] [])"

subsection \<open>Slots with their values\<close>

text \<open>\<open>value_composite\<close> is a Python integer once it has left the C++ code.\<close>

definition decode_composite :: "64 word \<Rightarrow> int \<times> int" where
  "decode_composite w = (drop_bit 32 (sint w), and (sint w) (2 ^ 32 - 1))"

type_synonym tree_op = "int \<times> int \<times> val \<times> nat \<times> nat"

type_synonym op_tree = "(nat, tree_op option) dict"

definition decode_slot :: "patch_node list \<Rightarrow> op_node option \<Rightarrow> tree_op option result" where
  "decode_slot patch_path slot =
     (case slot of
        None \<Rightarrow> Inr None
      | Some s \<Rightarrow>
          if slot_type s = -1
          then Inr (Some (slot_type s, slot_path s, VInt (sint (value_composite s)), creation_time s, last_changed_time s))
          else case decode_composite (value_composite s) of (patch_idx, value_idx) \<Rightarrow>
            rbind (py_index patch_path patch_idx) (\<lambda>p.
            rbind (py_index (node_values p) value_idx) (\<lambda>v.
              Inr (Some (slot_type s, slot_path s, v, creation_time s, last_changed_time s)))))"

text \<open>A path that the tree did not know is \<open>None\<close>, which the C++ code does not take.\<close>

definition known_path :: "nat option \<Rightarrow> nat result" where
  "known_path p = (case p of None \<Rightarrow> Inl TypeError | Some i \<Rightarrow> Inr i)"

definition build_op_tree :: "patch_node list \<Rightarrow> adjacency \<Rightarrow> nat \<Rightarrow> op_tree result option" where
  "build_op_tree patch_path ad start =
     (case rmap (\<lambda>p. rmap known_path (node_paths p)) patch_path of
        Inl e \<Rightarrow> Some (Inl e)
      | Inr paths_per_patch \<Rightarrow>
          map_option (rmap (\<lambda>(idx, slot). rbind (decode_slot patch_path slot) (\<lambda>n. Inr (idx, n))))
            (build_op_tree_fast (map node_op_types patch_path) paths_per_patch ad start))"

subsection \<open>Applying what lies below a slot\<close>

definition get_child_value :: "val \<Rightarrow> pathel \<Rightarrow> val result" where
  "get_child_value value pe =
     (case value of
        VObj c attrs \<Rightarrow> (case pe of PInt _ \<Rightarrow> Inl TypeError | PStr n \<Rightarrow> attr_lookup attrs n)
      | VList c xs \<Rightarrow> (case pe of PInt i \<Rightarrow> py_index xs i | PStr _ \<Rightarrow> Inl TypeError)
      | VDict c kvs \<Rightarrow> dict_lookup kvs (KP pe)
      | _ \<Rightarrow> Inl TypeError)"

definition put_child :: "val \<Rightarrow> pathel \<Rightarrow> val \<Rightarrow> val" where
  "put_child value p child =
     (case (value, p) of
        (VObj c attrs, PStr n) \<Rightarrow> VObj c (dict_set attrs n child)
      | (VList c xs, PInt i) \<Rightarrow> VList c (xs[nat (if i < 0 then i + int (length xs) else i) := child])
      | (VDict c kvs, p) \<Rightarrow> VDict c (dict_set kvs (KP p) child)
      | _ \<Rightarrow> value)"

definition prune_children :: "op_tree \<Rightarrow> nat \<Rightarrow> nat list \<Rightarrow> (nat \<times> int \<times> val \<times> nat) list result" where
  "prune_children idx_to_opnode node_last_changed_time vs =
     rbind (rmap (\<lambda>v. rbind (dict_lookup idx_to_opnode v) (\<lambda>n.
         Inr (case n of
                None \<Rightarrow> []
              | Some (child_op_type, _, child_value, child_creation_time, child_last_changed_time) \<Rightarrow>
                  if child_last_changed_time < node_last_changed_time then []
                  else [(child_creation_time, child_op_type, child_value, v)])))
       vs) (\<lambda>ops. Inr (sort_key fst (concat ops)))"

fun dfs_apply_ops :: "nat \<Rightarrow> 'r path_tree \<Rightarrow> op_tree \<Rightarrow> adjacency \<Rightarrow> nat \<Rightarrow> val \<Rightarrow> val result option" where
  "dfs_apply_ops 0 t idx_to_opnode ad u value = None"
| "dfs_apply_ops (Suc fuel) t idx_to_opnode ad u value =
     (let vs = (case dict_get ad u of None \<Rightarrow> [] | Some ws \<Rightarrow> ws) in
      if vs = [] \<or> value = VNone then Some (Inr value)
      else obind (Some (dict_lookup idx_to_opnode u)) (\<lambda>n.
        case n of
          None \<Rightarrow> Some (Inr value)
        | Some (_, _, _, _, node_last_changed_time) \<Rightarrow>
            obind (Some (prune_children idx_to_opnode node_last_changed_time vs)) (\<lambda>pruned.
              ofold (\<lambda>(_, child_op_type, child_value, v) value.
                 obind (Some (rbind (dict_lookup (idx_to_node t) v) (\<lambda>nd. Inr (path_element nd)))) (\<lambda>pe.
                 obind (Some (apply_operation child_op_type child_value value pe)) (\<lambda>value.
                 if child_op_type = -1 \<or> child_op_type = REMOVE_OPERATION then Some (Inr value)
                 else obind (Some (get_child_value value pe)) (\<lambda>child.
                      obind (dfs_apply_ops fuel t idx_to_opnode ad v child) (\<lambda>child'.
                        Some (Inr (put_child value pe child')))))))
              pruned value)))"

subsection \<open>Reading the slots from the root\<close>

type_synonym found_op = "nat \<times> int \<times> int \<times> val"

partial_function (option) collapse_loop ::
    "nat \<Rightarrow> 'r path_tree \<Rightarrow> op_tree \<Rightarrow> adjacency \<Rightarrow> nat list \<Rightarrow> found_op list \<Rightarrow> found_op list result option" where
  [code]: "collapse_loop fuel t idx_to_opnode ad q found =
     (case q of
        [] \<Rightarrow> Some (Inr found)
      | u # q' \<Rightarrow>
          (case dict_lookup idx_to_opnode u of
             Inl e \<Rightarrow> Some (Inl e)
           | Inr None \<Rightarrow>
               collapse_loop fuel t idx_to_opnode ad (q' @ (case dict_get ad u of None \<Rightarrow> [] | Some vs \<Rightarrow> vs)) found
           | Inr (Some (op_type, path, value, ct, _)) \<Rightarrow>
               if op_type = -1 then collapse_loop fuel t idx_to_opnode ad q' found
               else (case dfs_apply_ops fuel t idx_to_opnode ad u value of
                       None \<Rightarrow> None
                     | Some (Inl e) \<Rightarrow> Some (Inl e)
                     | Some (Inr value') \<Rightarrow>
                         collapse_loop fuel t idx_to_opnode ad q' (found @ [(ct, op_type, path, value')]))))"

text \<open>The times of the slots differ (\<open>creation_times_distinct\<close>), so that sorting the tuples is
  sorting by time; unpacking the columns of an empty list raises \<open>ValueError\<close>.\<close>

definition collapse_op_tree ::
    "'r path_tree \<Rightarrow> op_tree \<Rightarrow> adjacency \<Rightarrow> (int list \<times> int list \<times> val list) result option" where
  "collapse_op_tree t idx_to_opnode ad =
     obind (collapse_loop (Suc (idx_counter t)) t idx_to_opnode ad [0] []) (\<lambda>found.
       let ops = map snd (sort_key fst found) in
       if ops = [] then Some (Inl ValueError)
       else Some (Inr (map fst ops, map (fst \<circ> snd) ops, map (snd \<circ> snd) ops)))"

definition create_adj_list :: "tables \<Rightarrow> patch_node list \<Rightarrow> adjacency result option" where
  "create_adj_list tb patch_path =
     obind (Some (rmap known_path (remdups (concat (map node_paths patch_path))))) (build_steiner_tree tb)"

definition create_long_patch ::
    "dijkstra \<Rightarrow> rat \<Rightarrow> rat \<Rightarrow> patch_graph \<Rightarrow> 'r path_tree \<Rightarrow> tables \<Rightarrow> patch_node result option" where
  "create_long_patch dijk from_time to_time g t tb =
     obind (find_patch_path dijk from_time to_time g) (\<lambda>shortest_path.
     obind (create_adj_list tb shortest_path) (\<lambda>ad.
     obind (build_op_tree shortest_path ad 0) (\<lambda>op_tree.
     obind (collapse_op_tree t op_tree ad) (\<lambda>(ops, ps, vs).
       Some (Inr (new_patch_node (ts_int from_time) (ts_int to_time) ops (map (Some \<circ> nat) ps) vs None))))))"

subsection \<open>The place of a value in its patch\<close>

lemma nat_bit_high: "i < 2 ^ 32 \<Longrightarrow> 32 \<le> n \<Longrightarrow> \<not> bit (i :: nat) n"
  using bit_take_bit_iff [of 32 i n] by (simp add: take_bit_nat_eq_self)

lemma composite_eq:
  assumes "i < 2 ^ 32"
  shows "composite p i = word_of_nat (p * 2 ^ 32 + i)"
proof -
  have "and (push_bit 32 (word_of_nat p)) (word_of_nat i :: 64 word) = 0"
    by (rule bit_eqI) (use assms nat_bit_high in \<open>auto simp: bit_simps\<close>)
  then have "composite p i = push_bit 32 (word_of_nat p) + word_of_nat i"
    by (simp add: composite_def disjunctive_add_eq_or)
  then show ?thesis by (simp add: push_bit_eq_mult mult.commute)
qed

lemma composite_decodes:
  assumes "p < 2 ^ 31" "i < 2 ^ 32"
  shows "decode_composite (composite p i) = (int p, int i)"
proof -
  let ?n = "p * 2 ^ 32 + i"
  have small: "n < 2 ^ 63 \<Longrightarrow> sint (word_of_nat n :: 64 word) = int n" for n
    by (simp add: signed_of_nat signed_take_bit_int_eq_self)
  have "sint (word_of_nat ?n :: 64 word) = int ?n" by (rule small) (use assms in simp)
  moreover have "drop_bit 32 (int ?n) = int p" "take_bit 32 (int ?n) = int i"
    using assms(2) by (simp_all add: drop_bit_eq_div take_bit_eq_mod)
  ultimately show ?thesis
    unfolding decode_composite_def composite_eq [OF assms(2)] by (simp only: take_bit_eq_mask mask_eq_exp_minus_1)
qed

subsection \<open>Merging the operations on one path\<close>

text \<open>
  What an operation at position \<open>p\<close> of a container does to its canonical form: \<open>Some c\<close> is put
  there, \<open>None\<close> takes away what is there.
\<close>

fun cset :: "cval \<Rightarrow> pathel \<Rightarrow> cval option \<Rightarrow> cval" where
  "cset (CDict m) p v = CDict (m(KP p := v))"
| "cset (CObj c attrs) (PStr n) v = CObj c (dict_set attrs n (case v of None \<Rightarrow> CNone | Some w \<Rightarrow> w))"
| "cset (CList xs) (PInt i) v =
     CList (case v of None \<Rightarrow> take (nat i) xs
                    | Some w \<Rightarrow> if nat i < length xs then xs[nat i := w] else xs @ [w])"
| "cset c p v = c"

lemma add_cset: "addable x p \<Longrightarrow> \<exists>z. apply_add v x p = Inr z \<and> canon z = cset (canon x) p (Some (canon v))"
  by (cases x) (auto simp: addable_def apply_add_def map_prod_dict_set fun_eq_iff map_of_map_prod)

lemma replace_cset:
  assumes "kid x p c"
  shows "\<exists>z. apply_replace v x p = Inr z \<and> canon z = cset (canon x) p (Some (canon v))"
  using apply_replace_kid [OF assms, of v] assms
  by (auto elim!: kid_cases simp: set_child_def map_update map_prod_dict_set fun_eq_iff map_of_map_prod)

lemma remove_cset:
  assumes "kid x p c" "removable x p"
  shows "\<exists>z. apply_remove x p = Inr z \<and> canon z = cset (canon x) p None"
  using assms(1)
proof (cases rule: kid_cases)
  case (list cl xs i)
  then have "xs \<noteq> []" "int i = int (length xs) - 1" using assms(2) by (auto simp: removable_def)
  with list show ?thesis by (auto simp: apply_remove_def list_pop_def take_map)
next
  case (dict cl kvs)
  then show ?thesis by (auto simp: apply_remove_def dict_pop_def fun_eq_iff map_of_map_prod)
next
  case (obj cl attrs n)
  then show ?thesis by (auto simp: apply_remove_def has_attr_def map_prod_dict_set dict_get_in_keys)
qed

definition operable :: "cval \<Rightarrow> pathel \<Rightarrow> bool" where
  "operable c p \<longleftrightarrow>
     (case c of CList xs \<Rightarrow> (\<exists>i. p = PInt (int i) \<and> i \<le> length xs) | CObj _ _ \<Rightarrow> (\<exists>n. p = PStr n) | CDict _ \<Rightarrow> True | _ \<Rightarrow> False)"

definition ends_at :: "cval \<Rightarrow> pathel \<Rightarrow> bool" where
  "ends_at c p \<longleftrightarrow> (case c of CList xs \<Rightarrow> (\<exists>i. p = PInt (int i) \<and> length xs \<le> Suc i) | _ \<Rightarrow> True)"

lemma put_last: "length xs \<le> Suc i \<Longrightarrow> i < length xs \<Longrightarrow> take i xs @ [a] = xs[i := a]"
  by (simp add: upd_conv_take_nth_drop)

lemma cset_cset:
  "operable c p \<Longrightarrow> (v = None \<Longrightarrow> ends_at c p) \<Longrightarrow> cset (cset c p v) p w = cset c p w"
  by (cases c; cases v; cases w)
    (auto simp: operable_def ends_at_def dict_set_twice min_def le_less_Suc_eq less_Suc_eq_le take_Suc_conv_app_nth
      list_update_append nth_append put_last split: if_splits)

lemma cset_put: "operable c p \<Longrightarrow> cset (cset c p (Some v)) p w = cset c p w"
  and cset_take: "operable c p \<Longrightarrow> ends_at c p \<Longrightarrow> cset (cset c p None) p w = cset c p w"
  by (rule cset_cset; simp)+

lemma cset_absent: "addable x p \<Longrightarrow> cset (canon x) p None = canon x"
  by (cases x) (auto simp: addable_def fun_eq_iff map_of_map_prod map_of_eq_None_iff [THEN iffD2] map_prod_dict_set
      intro!: dict_set_same)

lemma operable_kid: "kid x p c \<Longrightarrow> operable (canon x) p"
  and operable_addable: "addable x p \<Longrightarrow> operable (canon x) p"
  by (auto simp: operable_def addable_def elim!: kid_cases split: val.splits)

definition merged_type :: "int \<Rightarrow> int \<Rightarrow> int" where
  "merged_type old_op op_type =
     (if old_op = REMOVE_OPERATION \<and> op_type = ADD_OPERATION then REPLACE_OPERATION
      else if old_op = ADD_OPERATION \<and> op_type = REMOVE_OPERATION then -1
      else if old_op = ADD_OPERATION \<and> op_type = REPLACE_OPERATION then ADD_OPERATION
      else if old_op = REPLACE_OPERATION \<and> op_type = REMOVE_OPERATION then REMOVE_OPERATION
      else op_type)"

fun effect :: "kind \<Rightarrow> cval option" where
  "effect (KAdd v) = Some (canon v)"
| "effect (KReplace old v) = Some (canon v)"
| "effect (KRemove old) = None"

fun kind_code :: "kind \<Rightarrow> int" where
  "kind_code (KAdd v) = ADD_OPERATION"
| "kind_code (KReplace old v) = REPLACE_OPERATION"
| "kind_code (KRemove old) = REMOVE_OPERATION"

fun kind_value :: "kind \<Rightarrow> val" where
  "kind_value (KAdd v) = v"
| "kind_value (KReplace old v) = v"
| "kind_value (KRemove old) = VNone"

lemma forward_op_kind: "forward_op (k, p) = (kind_code k, p, kind_value k)" "op_code (kind_code k)"
  by (cases k; simp)+

fun sets_None :: "kind \<Rightarrow> bool" where
  "sets_None (KAdd v) = (v = VNone)"
| "sets_None (KReplace old v) = (v = VNone)"
| "sets_None (KRemove old) = False"

lemma step_effect:
  assumes "step_ok k x p"
  shows "\<exists>z. rel_op (forward_op (k, [p])) x = Inr z \<and> canon z = cset (canon x) p (effect k)"
  using assms by (cases k)
    (auto simp: rel_op_def apply_operation_def op_codes intro: add_cset replace_cset remove_cset)

text \<open>A slot of an operation sequence that takes \<open>x\<close> to \<open>y\<close>.\<close>

definition slot_ok :: "val \<Rightarrow> pathel \<Rightarrow> val \<Rightarrow> int \<Rightarrow> val \<Rightarrow> bool" where
  "slot_ok x p y op_type v \<longleftrightarrow>
     op_type = -1 \<and> addable x p \<and> canon y = canon x \<or>
     op_type = ADD_OPERATION \<and> addable x p \<and> canon y = cset (canon x) p (Some (canon v)) \<or>
     op_type = REPLACE_OPERATION \<and> (\<exists>c. kid x p c) \<and> v \<noteq> VNone \<and> canon y = cset (canon x) p (Some (canon v)) \<or>
     op_type = REMOVE_OPERATION \<and> (\<exists>c. kid x p c) \<and> removable x p \<and> canon y = cset (canon x) p None"

lemma removable_ends_at:
  assumes "kid x p c" "removable x p"
  shows "ends_at (canon x) p"
  using assms(1)
proof (cases rule: kid_cases)
  case (list cl xs i)
  then have "length xs = Suc i" using assms(2) by (simp add: removable_def)
  then show ?thesis using list by (auto simp: ends_at_def)
qed (simp_all add: ends_at_def)

lemma removable_cset:
  assumes "removable y p" "kid x p c" "canon y = cset (canon x) p (Some w)"
  shows "removable x p"
  using assms(2)
proof (cases rule: kid_cases)
  case (list cl xs i)
  with assms(3) obtain d ys where y: "y = VList d ys" "map canon ys = (map canon xs)[i := w]"
    by (auto simp: canon_list_iff)
  from arg_cong [OF y(2), of length] have "length ys = length xs" by simp
  then show ?thesis using assms(1) list y(1) by (simp add: removable_def)
qed (simp_all add: removable_def)

lemma removable_canon: "removable y p \<Longrightarrow> canon y = canon x \<Longrightarrow> removable x p"
  by (cases x) (auto simp: removable_def canon_list_iff dest: arg_cong [of "map canon _" _ length])

lemma addable_cset:
  assumes "addable y p" "kid x p c" "canon y = cset (canon x) p (Some w)"
  shows "w = CNone"
  using assms(2)
proof (cases rule: kid_cases)
  case (list cl xs i)
  with assms(3) obtain d ys where y: "y = VList d ys" "map canon ys = (map canon xs)[i := w]"
    by (auto simp: canon_list_iff)
  from arg_cong [OF y(2), of length] have "length ys = length xs" by simp
  then show ?thesis using assms(1) list y(1) by (simp add: addable_def)
next
  case (dict cl kvs)
  with assms(3) obtain d kvs' where y: "y = VDict d kvs'"
    "map_of (map (map_prod id canon) kvs') = (map_of (map (map_prod id canon) kvs))(KP p := Some w)"
    by (auto simp: canon_dict_iff)
  from fun_cong [OF y(2), of "KP p"] have "map_option canon (map_of kvs' (KP p)) = Some w" by (simp add: map_of_map_prod)
  then show ?thesis using assms(1) y(1) by (auto simp: addable_def dest: dict_get_in_keys)
next
  case (obj cl attrs n)
  with assms(3) obtain attrs' where y: "y = VObj cl attrs'"
    "map (map_prod id canon) attrs' = dict_set (map (map_prod id canon) attrs) n w"
    by (auto simp: canon_obj_iff)
  from arg_cong [OF y(2), of "\<lambda>m. map_of m n"] have "map_option canon (map_of attrs' n) = Some w"
    by (simp add: map_of_map_prod)
  then show ?thesis using assms(1) y(1) obj(2) by (auto simp: addable_def)
qed

lemma slot_ok_merge:
  assumes s: "slot_ok x p y op_type v" and k: "step_ok k y p" "\<not> sets_None k"
    and y': "rel_op (forward_op (k, [p])) y = Inr y'"
  shows "slot_ok x p y' (merged_type op_type (kind_code k)) (kind_value k)"
proof -
  from step_effect [OF k(1)] y' have "canon y' = cset (canon y) p (effect k)" by auto
  then have c: "canon y' = cset (canon x) p (effect k)"
    using s unfolding slot_ok_def
    by (elim disjE conjE exE)
      (simp_all add: cset_put operable_addable operable_kid cset_take removable_ends_at)
  have kid: "\<exists>c. kid x p c" if "kid y p d" "canon y = canon x" for d
    using kid_canon [OF that] by blast
  show ?thesis
  proof (cases k)
    case (KAdd w)
    then show ?thesis using s k c
      by (auto simp: slot_ok_def merged_type_def op_codes dest: addable_cset)
  next
    case (KReplace old w)
    then show ?thesis using s k c kid
      by (auto simp: slot_ok_def merged_type_def op_codes)
  next
    case (KRemove old)
    then show ?thesis using s k c kid
      by (auto simp: slot_ok_def merged_type_def op_codes cset_absent intro: removable_cset removable_canon)
  qed
qed

lemma slot_type_put_op:
  "slot_type (put_op t pn i op_type q slot) =
     (case slot of None \<Rightarrow> op_type | Some s \<Rightarrow> merged_type (slot_type s) op_type)"
  by (auto simp: put_op_def new_slot_def merge_slot_def merged_type_def Let_def op_codes split: option.splits)

lemma value_composite_put_op:
  "op_code op_type \<Longrightarrow> slot_type (put_op t pn i op_type q slot) \<noteq> -1 \<Longrightarrow>
   value_composite (put_op t pn i op_type q slot) = composite pn i"
  by (auto simp: put_op_def new_slot_def merge_slot_def Let_def op_codes op_code_def split: option.splits if_splits)

definition value_at :: "patch_node list \<Rightarrow> nat \<Rightarrow> nat \<Rightarrow> val" where
  "value_at patch_path pn i = node_values (patch_path ! pn) ! i"

definition located :: "patch_node list \<Rightarrow> nat \<Rightarrow> nat \<Rightarrow> bool" where
  "located patch_path pn i \<longleftrightarrow> pn < length patch_path \<and> i < length (node_values (patch_path ! pn)) \<and>
     pn < 2 ^ 31 \<and> i < 2 ^ 32"

lemma decode_put_op:
  assumes "located patch_path pn i" "op_code op_type"
  obtains pth v c l where
    "decode_slot patch_path (Some (put_op t pn i op_type q slot)) =
       Inr (Some (slot_type (put_op t pn i op_type q slot), pth, v, c, l))"
    "slot_type (put_op t pn i op_type q slot) \<noteq> -1 \<Longrightarrow> v = value_at patch_path pn i"
proof (cases "slot_type (put_op t pn i op_type q slot) = -1")
  case True
  then show ?thesis using that by (simp add: decode_slot_def)
next
  case False
  from value_composite_put_op [OF assms(2) False] show ?thesis
    using that False assms(1) composite_decodes [of pn i]
    by (simp add: decode_slot_def located_def value_at_def)
qed

text \<open>The slot that a sequence of operations on one path leaves.\<close>

definition slot_of_ops :: "(nat \<times> nat \<times> nat \<times> int \<times> nat) list \<Rightarrow> op_node option \<Rightarrow> op_node option" where
  "slot_of_ops = fold (\<lambda>(t, pn, i, op_type, q) slot. Some (put_op t pn i op_type q slot))"

lemma process_ops_slot:
  "(case dict_get (process_ops es d) q of None \<Rightarrow> None | Some s \<Rightarrow> s) =
     slot_of_ops (filter (\<lambda>(t, pn, i, op_type, path). path = q) es) (case dict_get d q of None \<Rightarrow> None | Some s \<Rightarrow> s)"
proof (induction es arbitrary: d)
  case (Cons e es)
  obtain t pn i op_type path where e: "e = (t, pn, i, op_type, path)" by (cases e)
  show ?case using Cons.IH [of "dict_set d path (Some (put_op t pn i op_type path (case dict_get d path of None \<Rightarrow> None | Some s \<Rightarrow> s)))"]
    by (auto simp: e process_ops_def slot_of_ops_def)
qed (simp add: process_ops_def slot_of_ops_def)

fun matches :: "patch_node list \<Rightarrow> nat \<times> nat \<times> nat \<times> int \<times> nat \<Rightarrow> kind \<Rightarrow> bool" where
  "matches patch_path (t, pn, i, op_type, q) k \<longleftrightarrow> located patch_path pn i \<and>
     op_type = kind_code k \<and> value_at patch_path pn i = kind_value k"

lemma slot_of_ops_ok:
  assumes "list_all2 (matches patch_path) es ks" "run_entries (map (\<lambda>k. (k, [p])) ks) y = Some z"
    and "\<not> list_ex sets_None ks" "slot_ok x p y (slot_type s) v"
    and "decode_slot patch_path (Some s) = Inr (Some (slot_type s, pth, v, c, l))"
  shows "\<exists>s' pth' v' c' l'. slot_of_ops es (Some s) = Some s' \<and> slot_ok x p z (slot_type s') v' \<and>
    decode_slot patch_path (Some s') = Inr (Some (slot_type s', pth', v', c', l'))"
  using assms
proof (induction es ks arbitrary: y s v pth c l rule: list_all2_induct)
  case Nil
  then show ?case by (auto simp: slot_of_ops_def)
next
  case (Cons e es k ks)
  obtain t pn i op_type q where e: "e = (t, pn, i, op_type, q)" by (cases e)
  let ?s = "put_op t pn i op_type q (Some s)"
  from Cons.hyps(1) e have m: "located patch_path pn i" "op_type = kind_code k" "op_code op_type"
    "value_at patch_path pn i = kind_value k" by (simp_all add: forward_op_kind)
  from Cons.prems(1) obtain y' where y': "step_ok k y p" "rel_op (forward_op (k, [p])) y = Inr y'"
    "run_entries (map (\<lambda>k. (k, [p])) ks) y' = Some z" by (auto split: if_splits sum.splits)
  have ok: "slot_ok x p y' (slot_type ?s) (value_at patch_path pn i)"
    using slot_ok_merge [OF Cons.prems(3) y'(1) _ y'(2)] Cons.prems(2) m by (simp add: slot_type_put_op)
  from decode_put_op [OF m(1,3)] obtain pth v c l where d: "decode_slot patch_path (Some ?s) = Inr (Some (slot_type ?s, pth, v, c, l))"
    "slot_type ?s \<noteq> -1 \<Longrightarrow> v = value_at patch_path pn i" by blast
  have "slot_ok x p y' (slot_type ?s) v"
    using ok d(2) by (cases "slot_type ?s = -1") (auto simp: slot_ok_def op_codes)
  from Cons.IH [OF y'(3) _ this d(1)] Cons.prems(2) show ?case by (simp add: e slot_of_ops_def)
qed

lemma slot_ok_applies:
  assumes "slot_ok x p y op_type v"
  shows "if op_type = -1 then canon y = canon x
         else \<exists>z. apply_operation op_type v x p = Inr z \<and> canon z = canon y"
  using assms add_cset [of x p v] replace_cset [of x p _ v] remove_cset [of x p]
  unfolding slot_ok_def by (elim disjE conjE exE) (auto simp: apply_operation_def op_codes)

subsection \<open>The slots of a sequence of patches\<close>

definition parallel :: "patch_node \<Rightarrow> bool" where
  "parallel n \<longleftrightarrow> length (node_paths n) = length (node_op_types n) \<and> length (node_values n) = length (node_op_types n)"

text \<open>The operations on one path, with their values, in the order of the patches.\<close>

definition ops_at :: "patch_node list \<Rightarrow> nat \<Rightarrow> (int \<times> val) list" where
  "ops_at patch_path q =
     map snd (filter (\<lambda>(path, _). path = Some q)
       (concat (map (\<lambda>n. zip (node_paths n) (zip (node_op_types n) (node_values n))) patch_path)))"

lemma enumerate_zip_nth:
  assumes "length xs = length ys"
  shows "enumerate 0 (zip xs ys) = map (\<lambda>j. (j, xs ! j, ys ! j)) [0..<length xs]"
  using assms by (auto intro: nth_equalityI simp: nth_enumerate_eq)

lemma all_ops_nth:
  assumes "length opss = length pss"
  shows "all_ops opss pss = concat (map (\<lambda>j. map (\<lambda>(i, op_type, path). (j, i, op_type, path))
    (enumerate 0 (zip (opss ! j) (pss ! j)))) [0..<length opss])"
  by (simp add: all_ops_def enumerate_zip_nth [OF assms] comp_def)

lemma all_ops_located:
  assumes "(j, i, op_type, path) \<in> set (all_ops opss pss)" "length opss = length pss"
  shows "j < length opss \<and> i < length (opss ! j)"
  using assms(1) unfolding all_ops_nth [OF assms(2)] by (auto simp: in_set_enumerate_eq)

lemma all_ops_values:
  assumes "list_all parallel pp" "list_all2 (\<lambda>n ps. node_paths n = map Some ps) pp pss"
  shows "map (\<lambda>(j, i, op_type, path). (Some path, op_type, value_at pp j i)) (all_ops (map node_op_types pp) pss) =
    concat (map (\<lambda>n. zip (node_paths n) (zip (node_op_types n) (node_values n))) pp)"
proof -
  have len: "length pp = length pss" using assms(2) by (rule list_all2_lengthD)
  then have len': "length (map node_op_types pp) = length pss" by simp
  have one: "map (\<lambda>(i, op_type, path). (Some path, op_type, value_at pp j i)) (enumerate 0 (zip (node_op_types (pp ! j)) (pss ! j))) =
      zip (node_paths (pp ! j)) (zip (node_op_types (pp ! j)) (node_values (pp ! j)))" if j: "j < length pp" for j
  proof -
    have "parallel (pp ! j)" "node_paths (pp ! j) = map Some (pss ! j)"
      using assms j by (auto simp: list_all_length list_all2_conv_all_nth)
    then show ?thesis by (auto intro!: nth_equalityI simp: parallel_def nth_enumerate_eq value_at_def)
  qed
  have "map (\<lambda>(j, i, op_type, path). (Some path, op_type, value_at pp j i)) (all_ops (map node_op_types pp) pss) =
      concat (map (\<lambda>j. zip (node_paths (pp ! j)) (zip (node_op_types (pp ! j)) (node_values (pp ! j)))) [0..<length pp])"
    unfolding all_ops_nth [OF len'] map_concat map_map length_map
    by (intro arg_cong [of _ _ concat] map_cong refl)
      (use one in \<open>auto simp: comp_def case_prod_beta'\<close>)
  also have "\<dots> = concat (map (\<lambda>n. zip (node_paths n) (zip (node_op_types n) (node_values n))) (map ((!) pp) [0..<length pp]))"
    by (simp add: comp_def)
  finally show ?thesis by (simp add: map_nth)
qed

lemma list_all2_map_eq:
  "map f xs = map g ys \<Longrightarrow> (\<And>x. x \<in> set xs \<Longrightarrow> Q x) \<Longrightarrow> list_all2 (\<lambda>x y. Q x \<and> f x = g y) xs ys"
  by (induction xs arbitrary: ys) (auto simp: Cons_eq_map_conv)

lemma all_ops_places:
  assumes "list_all parallel pp" "list_all2 (\<lambda>n ps. node_paths n = map Some ps) pp pss"
    and "length pp \<le> 2 ^ 31" "\<forall>n \<in> set pp. length (node_op_types n) \<le> 2 ^ 32"
    and "(t, j, i, op_type, path) \<in> set (enumerate 0 (all_ops (map node_op_types pp) pss))"
  shows "located pp j i"
proof -
  let ?all = "all_ops (map node_op_types pp) pss"
  have len: "length (map node_op_types pp) = length pss" using list_all2_lengthD [OF assms(2)] by simp
  from assms(5) have "snd (t, j, i, op_type, path) \<in> snd ` set (enumerate 0 ?all)" by (rule imageI)
  then have "(j, i, op_type, path) \<in> set ?all" by (simp flip: set_map)
  from all_ops_located [OF this len] have b: "j < length pp" "i < length (node_op_types (pp ! j))" by auto
  moreover have "parallel (pp ! j)" "length (node_op_types (pp ! j)) \<le> 2 ^ 32"
    using assms(1,4) b by (auto simp: list_all_length)
  ultimately show ?thesis using assms(3) by (auto simp: located_def parallel_def)
qed

lemma all_ops_codes:
  assumes "\<forall>n \<in> set pp. list_all op_code (node_op_types n)"
    and "(t, j, i, op_type, path) \<in> set (enumerate 0 (all_ops (map node_op_types pp) pss))"
  shows "op_code op_type"
proof -
  from assms(2) have "snd (t, j, i, op_type, path) \<in> snd ` set (enumerate 0 (all_ops (map node_op_types pp) pss))" by (rule imageI)
  then have "(j, i, op_type, path) \<in> set (all_ops (map node_op_types pp) pss)" by (simp flip: set_map)
  then obtain n where "n \<in> set pp" "op_type \<in> set (node_op_types n)"
    by (auto simp: all_ops_def in_set_enumerate_eq) (metis (no_types, lifting) length_map nth_map nth_mem)
  then show ?thesis using assms(1) by (simp add: list_all_iff)
qed

lemma ops_at_matches:
  assumes "list_all parallel pp" "list_all2 (\<lambda>n ps. node_paths n = map Some ps) pp pss"
    and "length pp \<le> 2 ^ 31" "\<forall>n \<in> set pp. length (node_op_types n) \<le> 2 ^ 32"
    and "ops_at pp q = map (\<lambda>k. (kind_code k, kind_value k)) ks"
  shows "list_all2 (matches pp) (filter (\<lambda>(t, pn, i, op_type, path). path = q) (enumerate 0 (all_ops (map node_op_types pp) pss))) ks"
proof -
  let ?all = "all_ops (map node_op_types pp) pss"
  let ?es = "filter (\<lambda>(t, pn, i, op_type, path). path = q) (enumerate 0 ?all)"
  have len: "length (map node_op_types pp) = length pss" using list_all2_lengthD [OF assms(2)] by simp
  have all: "?all = map snd (enumerate 0 ?all)" by simp
  have drop: "map snd (filter (\<lambda>(path, _). path = Some q)
      (map (\<lambda>(j, i, op_type, path). (Some path, op_type, value_at pp j i)) (map snd es))) =
      map (\<lambda>(t, j, i, op_type, path). (op_type, value_at pp j i)) (filter (\<lambda>(t, pn, i, op_type, path). path = q) es)"
    for es :: "(nat \<times> nat \<times> nat \<times> int \<times> nat) list"
    by (induction es) (auto split: prod.splits)
  have "ops_at pp q = map snd (filter (\<lambda>(path, _). path = Some q)
      (map (\<lambda>(j, i, op_type, path). (Some path, op_type, value_at pp j i)) (map snd (enumerate 0 ?all))))"
    unfolding ops_at_def all_ops_values [OF assms(1,2), symmetric] by (simp only: all [symmetric])
  also have "\<dots> = map (\<lambda>(t, j, i, op_type, path). (op_type, value_at pp j i)) ?es" by (rule drop)
  finally have eq: "map (\<lambda>(t, j, i, op_type, path). (op_type, value_at pp j i)) ?es = map (\<lambda>k. (kind_code k, kind_value k)) ks"
    using assms(5) by simp
  have loc: "located pp j i" if "(t, j, i, op_type, path) \<in> set ?es" for t j i op_type path
    by (rule all_ops_places [OF assms(1-4)]) (use that in auto)
  have "list_all2 (\<lambda>e k. (case e of (t, j, i, op_type, path) \<Rightarrow> located pp j i) \<and>
      (case e of (t, j, i, op_type, path) \<Rightarrow> (op_type, value_at pp j i)) = (kind_code k, kind_value k)) ?es ks"
    using eq by (rule list_all2_map_eq) (use loc in \<open>auto split: prod.splits\<close>)
  then show ?thesis by (rule list_all2_mono) (auto split: prod.splits)
qed

lemma init_slots_None:
  assumes "init_slots ad us d = Some d'" "(case dict_get d q of None \<Rightarrow> None | Some s \<Rightarrow> s) = None"
  shows "(case dict_get d' q of None \<Rightarrow> None | Some s \<Rightarrow> s) = None"
proof -
  let ?P = "\<lambda>d d'. (case dict_get d q of None \<Rightarrow> None | Some s \<Rightarrow> s) = None \<longrightarrow> (case dict_get d' q of None \<Rightarrow> None | Some s \<Rightarrow> s) = None"
  have "?P d d'"
  proof (rule init_slots.raw_induct [where P = "\<lambda>ad us d d'. ?P d d'", OF _ assms(1)])
    fix loop ad us d d'
    assume IH: "\<And>ad us d d'. loop ad us d = Some d' \<Longrightarrow> ?P d d'"
      and step: "(case us of [] \<Rightarrow> Some d | u # q' \<Rightarrow>
        loop ad (q' @ (case dict_get ad u of None \<Rightarrow> [] | Some vs \<Rightarrow> vs)) (dict_set d u None)) = Some d'"
    show "?P d d'"
    proof (cases us)
      case (Cons u q')
      with IH [of ad "q' @ (case dict_get ad u of None \<Rightarrow> [] | Some vs \<Rightarrow> vs)" "dict_set d u None" d'] step
      show ?thesis by simp
    qed (use step in simp)
  qed
  with assms(2) show ?thesis by simp
qed

lemma decoded_get:
  "rmap (\<lambda>(idx, slot). rbind (f slot) (\<lambda>n. Inr (idx, n))) d = Inr d' \<Longrightarrow>
   dict_get d q = Some s \<Longrightarrow> \<exists>n. f s = Inr n \<and> dict_get d' q = Some n"
  by (induction d arbitrary: d') (auto simp: rbind_eq_Inr_iff split: if_splits)

lemma known_paths: "rmap (\<lambda>p. rmap known_path (node_paths p)) pp = Inr pss \<Longrightarrow>
   list_all2 (\<lambda>n ps. node_paths n = map Some ps) pp pss"
proof (induction pp arbitrary: pss)
  case (Cons n pp)
  have known: "rmap known_path xs = Inr ys \<Longrightarrow> xs = map Some ys" for xs ys
    by (induction xs arbitrary: ys) (auto simp: rbind_eq_Inr_iff known_path_def split: option.splits)
  from Cons show ?case by (auto simp: rbind_eq_Inr_iff dest: known)
qed simp

text \<open>C6: The slot of a path stands for all the operations on it: when the operations that the patches
  hold for one position of a container, performed one after the other, take the container \<open>x\<close> to \<open>y\<close>
  (each of them fit for the container as it is then, none of them writing \<open>None\<close>), then the one
  merged operation in the operation tree takes \<open>x\<close> to a container equal to \<open>y\<close>; if it is the NO-OP
  marker, \<open>y\<close> equals \<open>x\<close>.\<close>

theorem merged_operation_equivalent:
  assumes "build_op_tree patch_path ad start = Some (Inr tree)"
    and "list_all parallel patch_path" "length patch_path \<le> 2 ^ 31"
    and "\<forall>n \<in> set patch_path. length (node_op_types n) \<le> 2 ^ 32"
    and "ops_at patch_path q = map (\<lambda>k. (kind_code k, kind_value k)) ks" "ks \<noteq> []" "\<not> list_ex sets_None ks"
    and "run_entries (map (\<lambda>k. (k, [p])) ks) x = Some y"
  shows "\<exists>op_type pth v c l. dict_get tree q = Some (Some (op_type, pth, v, c, l)) \<and>
    (if op_type = -1 then canon y = canon x
     else \<exists>z. apply_operation op_type v x p = Inr z \<and> canon z = canon y)"
proof -
  let ?slot = "\<lambda>d. case dict_get d q of None \<Rightarrow> None | Some s \<Rightarrow> s"
  from assms(1) obtain pss d0 where pss: "rmap (\<lambda>p. rmap known_path (node_paths p)) patch_path = Inr pss"
    and d0: "init_slots ad [start] [] = Some d0"
    and tree: "rmap (\<lambda>(idx, slot). rbind (decode_slot patch_path slot) (\<lambda>n. Inr (idx, n)))
      (process_ops (enumerate 0 (all_ops (map node_op_types patch_path) pss)) d0) = Inr tree"
    by (auto simp: build_op_tree_def build_op_tree_fast_def split: sum.splits)
  let ?es = "filter (\<lambda>(t, pn, i, op_type, path). path = q) (enumerate 0 (all_ops (map node_op_types patch_path) pss))"
  have m: "list_all2 (matches patch_path) ?es ks"
    by (rule ops_at_matches [OF assms(2) known_paths [OF pss] assms(3-5)])
  from assms(6) obtain k ks' where ks: "ks = k # ks'" by (cases ks) auto
  from m ks obtain e es where es: "?es = e # es" "matches patch_path e k" "list_all2 (matches patch_path) es ks'"
    by (auto simp: list_all2_Cons2)
  obtain t pn i op_type path where e: "e = (t, pn, i, op_type, path)" by (cases e)
  have fresh: "?slot d0 = None" by (rule init_slots_None [OF d0]) simp
  let ?s = "put_op t pn i op_type path None"
  from es(2) e have loc: "located patch_path pn i" "op_type = kind_code k" "value_at patch_path pn i = kind_value k" by simp_all
  from assms(8) ks obtain x1 where x1: "step_ok k x p" "rel_op (forward_op (k, [p])) x = Inr x1"
    "run_entries (map (\<lambda>k. (k, [p])) ks') x1 = Some y" by (auto split: if_splits sum.splits)
  from decode_put_op [OF loc(1), of op_type] loc(2) forward_op_kind(2) obtain pth v c l where
    d: "decode_slot patch_path (Some ?s) = Inr (Some (slot_type ?s, pth, v, c, l))"
      "slot_type ?s \<noteq> -1 \<Longrightarrow> v = value_at patch_path pn i" by metis
  have "slot_ok x p x1 (kind_code k) (kind_value k)"
    using step_effect [OF x1(1)] x1(1,2) assms(7) ks by (cases k) (auto simp: slot_ok_def op_codes)
  moreover have st: "slot_type ?s = kind_code k" "kind_code k \<noteq> -1"
    using loc(2) by (cases k; simp add: slot_type_put_op op_codes)+
  ultimately have ok: "slot_ok x p x1 (slot_type ?s) v" using d(2) loc(3) by simp
  from slot_of_ops_ok [OF es(3) x1(3) _ ok d(1)] assms(7) ks obtain s' pth' v' c' l' where
    s': "slot_of_ops es (Some ?s) = Some s'" "slot_ok x p y (slot_type s') v'"
      "decode_slot patch_path (Some s') = Inr (Some (slot_type s', pth', v', c', l'))" by auto
  have "?slot (process_ops (enumerate 0 (all_ops (map node_op_types patch_path) pss)) d0) = Some s'"
    unfolding process_ops_slot fresh es(1) using s'(1) by (simp add: slot_of_ops_def e)
  then have "dict_get (process_ops (enumerate 0 (all_ops (map node_op_types patch_path) pss)) d0) q = Some (Some s')"
    by (simp split: option.splits)
  from decoded_get [OF tree this] s'(3) have "dict_get tree q = Some (Some (slot_type s', pth', v', c', l'))" by auto
  with slot_ok_applies [OF s'(2)] show ?thesis by blast
qed

subsection \<open>A change below a change\<close>

definition nested_tree :: "nat path_tree" where
  "nested_tree = (case fill_with_paths [[PStr ''a''], [PStr ''a'', PStr ''b''], [PStr ''a'', PStr ''b'', PStr ''c'']] new_path_tree of
     Inr (t, _) \<Rightarrow> t | Inl _ \<Rightarrow> new_path_tree)"

definition nested_tables :: tables where
  "nested_tables = (case precompute nested_tree of Some (Inr tb) \<Rightarrow> tb | _ \<Rightarrow> (new_tour 0, [], []))"

definition nested_value :: "int \<Rightarrow> val" where
  "nested_value i = VDict ''dict'' [(KP (PStr ''b''), VDict ''dict'' [(KP (PStr ''c''), VInt i)])]"

definition nested_patches :: "patch_node list" where
  "nested_patches =
     [new_patch_node 0 1 [REPLACE_OPERATION] [Some 1] [nested_value 1] None,
      new_patch_node 1 2 [REPLACE_OPERATION] [Some 3] [VInt 2] None]"

definition nested_graph :: patch_graph where
  "nested_graph = (case rbind (rfold add_edge_and_vertices nested_patches new_patch_graph) finalize of
     Inr g \<Rightarrow> g | Inl _ \<Rightarrow> new_patch_graph)"


text \<open>Two patches that undo each other leave nothing to write, and the long patch between such times
  raises \<open>ValueError\<close> instead of being empty.\<close>

lemma empty_long_patch_raises:
  "create_long_patch (\<lambda>_ _ _. ([Some 0, Some 1, Some 2], [-9999, 0, 1])) 0 2
     (case rbind (rfold add_edge_and_vertices
         [new_patch_node 0 1 [ADD_OPERATION] [Some 1] [VInt 5] None, new_patch_node 1 2 [REMOVE_OPERATION] [Some 1] [VNone] None]
         new_patch_graph) finalize of Inr g \<Rightarrow> g | Inl _ \<Rightarrow> new_patch_graph) nested_tree nested_tables = Some (Inl ValueError)"
  by code_simp

subsection \<open>What the slots know\<close>

definition slot_in :: "(nat, op_node option) dict \<Rightarrow> nat \<Rightarrow> op_node option" where
  "slot_in d q = (case dict_get d q of None \<Rightarrow> None | Some s \<Rightarrow> s)"

text \<open>The operations seen so far give the slots: a slot for exactly the paths operated on, created at
  the time of one of the operations on its path, and naming its path and the place of one of their
  values unless it is the NO-OP marker.\<close>

definition slots_ok :: "(nat \<times> nat \<times> nat \<times> int \<times> nat) set \<Rightarrow> (nat, op_node option) dict \<Rightarrow> bool" where
  "slots_ok E d \<longleftrightarrow>
     (\<forall>q. slot_in d q = None \<longleftrightarrow> (\<forall>(t, pn, i, op_type, path) \<in> E. path \<noteq> q)) \<and>
     (\<forall>q s. slot_in d q = Some s \<longrightarrow>
        (slot_type s \<noteq> -1 \<longrightarrow> slot_path s = int q \<and>
           (\<exists>t pn i op_type. value_composite s = composite pn i \<and> (t, pn, i, op_type, q) \<in> E)) \<and>
        (\<exists>pn i op_type. (creation_time s, pn, i, op_type, q) \<in> E))"

lemma creation_time_put_op: "creation_time (put_op t pn i op_type q slot) = t \<or>
   (\<exists>s. slot = Some s \<and> creation_time (put_op t pn i op_type q slot) = creation_time s)"
  by (auto simp: put_op_def new_slot_def merge_slot_def Let_def split: option.splits)

lemma slot_path_put_op: "op_code op_type \<Longrightarrow> slot_type (put_op t pn i op_type q slot) \<noteq> -1 \<Longrightarrow>
   slot_path (put_op t pn i op_type q slot) = int q"
  by (auto simp: put_op_def new_slot_def merge_slot_def Let_def op_codes op_code_def split: option.splits if_splits)

lemma slots_ok_step:
  assumes "slots_ok E d" "op_code op_type"
  shows "slots_ok (insert (t, pn, i, op_type, q) E) (dict_set d q (Some (put_op t pn i op_type q (slot_in d q))))"
proof -
  let ?d = "dict_set d q (Some (put_op t pn i op_type q (slot_in d q)))"
  have get: "slot_in ?d q' = (if q' = q then Some (put_op t pn i op_type q (slot_in d q)) else slot_in d q')" for q'
    by (simp add: slot_in_def)
  have "\<exists>pn' i' op'. (creation_time (put_op t pn i op_type q (slot_in d q)), pn', i', op', q) \<in> insert (t, pn, i, op_type, q) E"
    using creation_time_put_op [of t pn i op_type q "slot_in d q"] assms(1) unfolding slots_ok_def by (metis insertI1 insertI2)
  moreover have "\<exists>t' pn' i' op'. value_composite (put_op t pn i op_type q (slot_in d q)) = composite pn' i' \<and>
      (t', pn', i', op', q) \<in> insert (t, pn, i, op_type, q) E" if "slot_type (put_op t pn i op_type q (slot_in d q)) \<noteq> -1"
    using value_composite_put_op [OF assms(2) that] by blast
  ultimately show ?thesis
    using assms slot_path_put_op [OF assms(2)] unfolding slots_ok_def get by (auto split: if_splits)
qed

lemma process_ops_ok:
  "slots_ok E d \<Longrightarrow> \<forall>(t, pn, i, op_type, q) \<in> set es. op_code op_type \<Longrightarrow> slots_ok (E \<union> set es) (process_ops es d)"
proof (induction es arbitrary: E d)
  case (Cons e es)
  obtain t pn i op_type q where e: "e = (t, pn, i, op_type, q)" by (cases e)
  have "slots_ok (insert e E \<union> set es) (process_ops es (dict_set d q (Some (put_op t pn i op_type q (slot_in d q)))))"
    using Cons.prems slots_ok_step [OF Cons.prems(1), of op_type t pn i q] by (intro Cons.IH) (auto simp: e)
  then show ?case by (simp add: e process_ops_def slot_in_def)
qed (simp add: process_ops_def)

lemma creation_times_distinct:
  assumes "slots_ok (set (enumerate 0 xs)) d" "slot_in d q = Some s" "slot_in d q' = Some s'" "creation_time s = creation_time s'"
  shows "q = q'"
proof -
  from assms obtain a b where "(creation_time s, a) \<in> set (enumerate 0 xs)" "(creation_time s, b) \<in> set (enumerate 0 xs)"
    "snd (snd (snd a)) = q" "snd (snd (snd b)) = q'" unfolding slots_ok_def by (metis snd_conv)
  then show ?thesis by (auto simp: in_set_enumerate_eq)
qed

subsection \<open>The queue loops end\<close>

definition nexts :: "adjacency \<Rightarrow> nat \<Rightarrow> nat list" where
  "nexts ad u = (case dict_get ad u of None \<Rightarrow> [] | Some vs \<Rightarrow> vs)"

definition branches :: "'r path_tree \<Rightarrow> adjacency \<Rightarrow> bool" where
  "branches t ad \<longleftrightarrow> (\<forall>u. distinct (nexts ad u) \<and> set (nexts ad u) \<subseteq> set (kids t u))"

definition weight :: "'r path_tree \<Rightarrow> nat list \<Rightarrow> nat" where
  "weight t us = sum_list (map (\<lambda>u. card (desc t u)) us)"

lemma finite_desc: "tree_wf t \<Longrightarrow> i < idx_counter t \<Longrightarrow> finite (desc t i)"
  using desc_lt [of t i] by (meson finite_lessThan finite_subset lessThan_iff subsetI)

lemma weight_kids:
  assumes "tree_wf t" "i < idx_counter t" "distinct vs" "set vs \<subseteq> set (kids t i)"
  shows "weight t vs < card (desc t i)"
proof -
  have lt: "c < idx_counter t" if "c \<in> set vs" for c using kids_wf [OF assms(1)] assms(4) that by blast
  have "weight t vs = (\<Sum>c \<in> set vs. card (desc t c))"
    unfolding weight_def using assms(3) by (simp add: sum_list_distinct_conv_sum_set)
  also have "\<dots> = card (\<Union>c \<in> set vs. desc t c)"
  proof (rule card_UN_disjoint [symmetric])
    show "\<forall>c \<in> set vs. finite (desc t c)" by (intro ballI finite_desc [OF assms(1) lt])
    show "\<forall>c \<in> set vs. \<forall>c' \<in> set vs. c \<noteq> c' \<longrightarrow> desc t c \<inter> desc t c' = {}"
      by (intro ballI impI kids_disjoint [OF assms(1) subsetD [OF assms(4)] subsetD [OF assms(4)]])
  qed simp
  also have "\<dots> < card (desc t i)"
  proof (rule psubset_card_mono [OF finite_desc [OF assms(1,2)]])
    have sub: "(\<Union>c \<in> set vs. desc t c) \<subseteq> desc t i"
      by (intro UN_least subsetI desc_trans [OF kid_desc [OF assms(1) subsetD [OF assms(4)]]])
    have "i \<notin> (\<Union>c \<in> set vs. desc t c)"
      using not_in_kid [OF assms(1) subsetD [OF assms(4)]] by auto
    then show "(\<Union>c \<in> set vs. desc t c) \<subset> desc t i" using sub desc_self [of i t] by (metis psubsetI)
  qed
  finally show ?thesis .
qed

lemma weight_step:
  assumes "tree_wf t" "branches t ad" "u < idx_counter t"
  shows "weight t (us @ nexts ad u) < weight t (u # us)"
  using weight_kids [OF assms(1,3), of "nexts ad u"] assms(2) by (simp add: branches_def weight_def)

lemma branches_lt: "tree_wf t \<Longrightarrow> branches t ad \<Longrightarrow> v \<in> set (nexts ad u) \<Longrightarrow> v < idx_counter t"
  using kids_wf unfolding branches_def by blast

text \<open>The queue gives a slot to every node it starts from, and with a node to its children.\<close>

lemma init_slots_ends:
  assumes "tree_wf t" "branches t ad" "fst ` set d \<union> set us \<subseteq> {..<idx_counter t}"
    and "\<forall>u \<in> fst ` set d. set (nexts ad u) \<subseteq> fst ` set d \<union> set us"
  shows "\<exists>d'. init_slots ad us d = Some d' \<and> fst ` set d \<union> set us \<subseteq> fst ` set d' \<and>
    fst ` set d' \<subseteq> {..<idx_counter t} \<and> (\<forall>u \<in> fst ` set d'. set (nexts ad u) \<subseteq> fst ` set d') \<and> (dict_wf d \<longrightarrow> dict_wf d')"
  using assms(3,4)
proof (induction "weight t us" arbitrary: us d rule: less_induct)
  case less
  show ?case
  proof (cases us)
    case Nil
    with less.prems show ?thesis by (simp add: init_slots.simps [of ad "[]"])
  next
    case (Cons u vs)
    have "\<exists>d'. init_slots ad (vs @ nexts ad u) (dict_set d u None) = Some d' \<and>
        fst ` set (dict_set d u None) \<union> set (vs @ nexts ad u) \<subseteq> fst ` set d' \<and> fst ` set d' \<subseteq> {..<idx_counter t} \<and>
        (\<forall>u \<in> fst ` set d'. set (nexts ad u) \<subseteq> fst ` set d') \<and> (dict_wf (dict_set d u None) \<longrightarrow> dict_wf d')"
      using less.prems Cons branches_lt [OF assms(1,2)]
      by (intro less.hyps) (auto simp: weight_step [OF assms(1,2)])
    then show ?thesis by (auto simp: Cons init_slots.simps [of ad "u # vs"] nexts_def)
  qed
qed

subsection \<open>Independent changes\<close>

text \<open>The tree that the loops walk: every node on it has a slot or none, its children lead to the nodes
  with a slot, and no slot lies below another.\<close>

definition op_nodes :: "op_tree \<Rightarrow> nat set" where
  "op_nodes tree = {u. \<exists>n. dict_get tree u = Some (Some n)}"

definition independent :: "'r path_tree \<Rightarrow> adjacency \<Rightarrow> op_tree \<Rightarrow> bool" where
  "independent t ad tree \<longleftrightarrow> tree_wf t \<and> branches t ad \<and>
     (\<forall>u \<in> fst ` set tree. u < idx_counter t \<and> set (nexts ad u) \<subseteq> fst ` set tree \<and>
        (\<forall>c. c \<in> set (nexts ad u) \<longleftrightarrow> c \<in> set (kids t u) \<and> (\<exists>v \<in> op_nodes tree. v \<in> desc t c))) \<and>
     (\<forall>u \<in> op_nodes tree. \<forall>v \<in> op_nodes tree. v \<in> desc t u \<longrightarrow> v = u)"

definition entry_of :: "op_tree \<Rightarrow> nat \<Rightarrow> found_op" where
  "entry_of tree u = (case dict_get tree u of Some (Some (op_type, path, v, c, l)) \<Rightarrow> (c, op_type, path, v) | _ \<Rightarrow> (0, -1, -1, VNone))"

definition live :: "op_tree \<Rightarrow> nat \<Rightarrow> bool" where
  "live tree u \<longleftrightarrow> fst (snd (entry_of tree u)) \<noteq> -1"

definition apart :: "'r path_tree \<Rightarrow> nat list \<Rightarrow> bool" where
  "apart t us \<longleftrightarrow> distinct us \<and> (\<forall>u \<in> set us. \<forall>w \<in> set us. u \<noteq> w \<longrightarrow> (\<forall>x. x \<in> desc t u \<longrightarrow> x \<notin> desc t w))"

lemma independentD:
  assumes "independent t ad tree"
  shows "tree_wf t" "branches t ad"
    and "u \<in> fst ` set tree \<Longrightarrow> u < idx_counter t"
    and "u \<in> fst ` set tree \<Longrightarrow> set (nexts ad u) \<subseteq> fst ` set tree"
    and "u \<in> fst ` set tree \<Longrightarrow> c \<in> set (nexts ad u) \<longleftrightarrow> c \<in> set (kids t u) \<and> (\<exists>v \<in> op_nodes tree. v \<in> desc t c)"
    and "u \<in> op_nodes tree \<Longrightarrow> v \<in> op_nodes tree \<Longrightarrow> v \<in> desc t u \<Longrightarrow> v = u"
proof -
  note D = assms [unfolded independent_def, THEN conjunct2, THEN conjunct2]
  show "tree_wf t" "branches t ad" using assms unfolding independent_def by iprover+
  show "u \<in> fst ` set tree \<Longrightarrow> u < idx_counter t" by (rule D [THEN conjunct1, THEN bspec, THEN conjunct1])
  show "u \<in> fst ` set tree \<Longrightarrow> set (nexts ad u) \<subseteq> fst ` set tree"
    by (rule D [THEN conjunct1, THEN bspec, THEN conjunct2, THEN conjunct1])
  show "u \<in> fst ` set tree \<Longrightarrow> c \<in> set (nexts ad u) \<longleftrightarrow> c \<in> set (kids t u) \<and> (\<exists>v \<in> op_nodes tree. v \<in> desc t c)"
    by (rule D [THEN conjunct1, THEN bspec, THEN conjunct2, THEN conjunct2, THEN spec])
  show "u \<in> op_nodes tree \<Longrightarrow> v \<in> op_nodes tree \<Longrightarrow> v \<in> desc t u \<Longrightarrow> v = u"
    by (rule D [THEN conjunct2, THEN bspec, THEN bspec, THEN mp])
qed

lemma op_node_leaf:
  assumes "independent t ad tree" "u \<in> op_nodes tree"
  shows "nexts ad u = []"
proof -
  have u: "u \<in> fst ` set tree" using assms(2) by (auto simp: op_nodes_def dest: dict_get_in_keys)
  have "c \<notin> set (nexts ad u)" for c
  proof
    assume c: "c \<in> set (nexts ad u)"
    with independentD(5) [OF assms(1) u] obtain v where v: "c \<in> set (kids t u)" "v \<in> op_nodes tree" "v \<in> desc t c"
      by blast
    note t = independentD(1) [OF assms(1)]
    have "v \<in> desc t u" by (rule desc_trans [OF kid_desc [OF t v(1)] v(3)])
    then have "v = u" by (rule independentD(6) [OF assms v(2)])
    with not_in_kid [OF t v(1)] v(3) show False by simp
  qed
  then show ?thesis by (cases "nexts ad u") auto
qed

lemma apart_step:
  assumes "tree_wf t" "apart t (u # us)" "distinct vs" "set vs \<subseteq> set (kids t u)"
  shows "apart t (us @ vs)"
proof -
  have sub: "x \<in> desc t c \<Longrightarrow> x \<in> desc t u" if "c \<in> set vs" for x c
    using desc_trans [OF kid_desc [OF assms(1) subsetD [OF assms(4) that]]] .
  have away: "x \<in> desc t w \<Longrightarrow> x \<notin> desc t u" if "w \<in> set us" for x w
    using assms(2) that unfolding apart_def by (metis distinct.simps(2) list.set_intros)
  have kid: "x \<in> desc t c \<Longrightarrow> x \<notin> desc t c'" if "c \<in> set vs" "c' \<in> set vs" "c \<noteq> c'" for x c c'
    using kids_disjoint [OF assms(1) subsetD [OF assms(4) that(1)] subsetD [OF assms(4) that(2)] that(3)] by (metis IntI empty_iff)
  have "set us \<inter> set vs = {}" using away sub desc_self by (metis disjoint_iff)
  then have "distinct (us @ vs)" using assms(2,3) by (simp add: apart_def)
  moreover have "x \<notin> desc t w'" if "w \<in> set (us @ vs)" "w' \<in> set (us @ vs)" "w \<noteq> w'" "x \<in> desc t w" for w w' x
  proof -
    from that(1,2) consider "w \<in> set us" "w' \<in> set us" | "w \<in> set us" "w' \<in> set vs"
      | "w \<in> set vs" "w' \<in> set us" | "w \<in> set vs" "w' \<in> set vs" by auto
    then show ?thesis
    proof cases
      case 1
      then show ?thesis using assms(2) that(3,4) by (simp add: apart_def)
    next
      case 2
      then show ?thesis using away that(4) sub by metis
    next
      case 3
      then show ?thesis using away that(4) sub by metis
    next
      case 4
      then show ?thesis using kid that(3,4) by metis
    qed
  qed
  ultimately show ?thesis unfolding apart_def by metis
qed

lemma op_nodes_below:
  assumes "independent t ad tree" "u \<in> fst ` set tree" "u \<notin> op_nodes tree" "x \<in> op_nodes tree"
  shows "x \<in> desc t u \<longleftrightarrow> (\<exists>c \<in> set (nexts ad u). x \<in> desc t c)"
proof -
  note t = independentD(1) [OF assms(1)] independentD(3) [OF assms(1,2)]
  note n = independentD(5) [OF assms(1,2)]
  have "x \<noteq> u" using assms(3,4) by metis
  then have "x \<in> desc t u \<longleftrightarrow> (\<exists>c \<in> set (kids t u). x \<in> desc t c)"
    unfolding desc_kids [OF t] by simp
  then show ?thesis unfolding Bex_def n using assms(4) by auto
qed

lemma collapse_loop_independent:
  assumes ind: "independent t ad tree" and "set us \<subseteq> fst ` set tree" "apart t us" "0 < fuel"
  shows "\<exists>vs. collapse_loop fuel t tree ad us found = Some (Inr (found @ map (entry_of tree) (filter (live tree) vs))) \<and>
    distinct vs \<and> (\<forall>x. x \<in> set vs \<longleftrightarrow> x \<in> op_nodes tree \<and> (\<exists>u \<in> set us. x \<in> desc t u))"
  using assms(2,3)
proof (induction "weight t us" arbitrary: us found rule: less_induct)
  case less
  note t = independentD(1,2) [OF ind]
  show ?case
  proof (cases us)
    case Nil
    then show ?thesis by (simp add: collapse_loop.simps [of fuel t tree ad "[]"])
  next
    case (Cons u us')
    have u: "u \<in> fst ` set tree" "u < idx_counter t" using less.prems(1) Cons independentD(3) [OF ind] by auto
    then obtain n where n: "dict_get tree u = Some n" by (metis dict_get_not_None_iff not_None_eq)
    have w: "weight t (us' @ nexts ad u) < weight t us" using weight_step [OF t u(2)] Cons by simp
    have sub: "set (us' @ nexts ad u) \<subseteq> fst ` set tree" using less.prems(1) Cons independentD(4) [OF ind u(1)] by auto
    have ap: "apart t (us' @ nexts ad u)"
      using apart_step [OF t(1) less.prems(2) [unfolded Cons]] t(2) by (simp add: branches_def)
    note IH = less.hyps [OF w sub ap]
    show ?thesis
    proof (cases n)
      case None
      from IH [of found] obtain vs where vs:
        "collapse_loop fuel t tree ad (us' @ nexts ad u) found = Some (Inr (found @ map (entry_of tree) (filter (live tree) vs)))"
        "distinct vs" "\<And>x. x \<in> set vs \<longleftrightarrow> x \<in> op_nodes tree \<and> (\<exists>w \<in> set (us' @ nexts ad u). x \<in> desc t w)" by blast
      have "u \<notin> op_nodes tree" using n None by (simp add: op_nodes_def)
      from op_nodes_below [OF ind u(1) this] vs(3)
      have "x \<in> set vs \<longleftrightarrow> x \<in> op_nodes tree \<and> (\<exists>w \<in> set us. x \<in> desc t w)" for x
        unfolding Cons by (simp add: bex_Un) iprover
      moreover have "collapse_loop fuel t tree ad us found = Some (Inr (found @ map (entry_of tree) (filter (live tree) vs)))"
        using vs(1) n None by (simp add: Cons collapse_loop.simps [of fuel t tree ad "u # us'"] dict_lookup_def nexts_def)
      ultimately show ?thesis using vs(2) by metis
    next
      case (Some m)
      obtain op_type pth v c l where m: "m = (op_type, pth, v, c, l)" by (cases m)
      have un: "u \<in> op_nodes tree" using n Some m by (simp add: op_nodes_def)
      have leaf: "nexts ad u = []" by (rule op_node_leaf [OF ind un])
      have e: "entry_of tree u = (c, op_type, pth, v)" using n Some m by (simp add: entry_of_def)
      let ?found = "if live tree u then found @ [entry_of tree u] else found"
      from IH [of ?found] obtain vs where vs:
        "collapse_loop fuel t tree ad us' ?found = Some (Inr (?found @ map (entry_of tree) (filter (live tree) vs)))"
        "distinct vs" "\<And>x. x \<in> set vs \<longleftrightarrow> x \<in> op_nodes tree \<and> (\<exists>w \<in> set us'. x \<in> desc t w)"
        unfolding leaf append_Nil2 by blast
      have dfs: "dfs_apply_ops fuel t tree ad u v = Some (Inr v)"
        using assms(4) leaf by (cases fuel) (auto simp: nexts_def Let_def split: option.splits)
      have "collapse_loop fuel t tree ad us found = Some (Inr (found @ map (entry_of tree) (filter (live tree) (u # vs))))"
        using vs(1) n Some m dfs e
        by (auto simp: Cons collapse_loop.simps [of fuel t tree ad "u # us'"] dict_lookup_def live_def split: if_splits)
      moreover have "distinct (u # vs)"
        using vs(2,3) less.prems(2) desc_self [of u t] unfolding Cons apart_def by (metis distinct.simps(2) list.set_intros)
      moreover have "x \<in> set (u # vs) \<longleftrightarrow> x \<in> op_nodes tree \<and> (\<exists>w \<in> set us. x \<in> desc t w)" for x
        using vs(3) [of x] independentD(6) [OF ind un, of x] un desc_self [of u t] unfolding Cons by auto
      ultimately show ?thesis by metis
    qed
  qed
qed

lemma decode_all:
  assumes "\<forall>s \<in> snd ` set d. \<exists>n. f s = Inr n"
  shows "\<exists>d'. rmap (\<lambda>(idx, slot). rbind (f slot) (\<lambda>n. Inr (idx, n))) d = Inr d' \<and> map fst d' = map fst d \<and>
    (\<forall>q n. dict_get d' q = Some n \<longleftrightarrow> (\<exists>s. dict_get d q = Some s \<and> f s = Inr n))"
  using assms
proof (induction d)
  case (Cons e d)
  obtain idx slot where e: "e = (idx, slot)" by (cases e)
  from Cons obtain d' where d': "rmap (\<lambda>(idx, slot). rbind (f slot) (\<lambda>n. Inr (idx, n))) d = Inr d'" "map fst d' = map fst d"
    "\<forall>q n. dict_get d' q = Some n \<longleftrightarrow> (\<exists>s. dict_get d q = Some s \<and> f s = Inr n)" by auto
  from Cons.prems e obtain n where "f slot = Inr n" by auto
  with d' show ?case by (intro exI [of _ "(idx, n) # d'"]) (auto simp: e)
qed simp

lemma process_ops_wf: "dict_wf d \<Longrightarrow> dict_wf (process_ops es d)"
proof (induction es arbitrary: d)
  case (Cons e es)
  then show ?case by (cases e) (simp add: process_ops_def)
qed (simp add: process_ops_def)

lemma process_ops_keys: "fst ` set (process_ops es d) = fst ` set d \<union> (\<lambda>(t, pn, i, op_type, q). q) ` set es"
proof (induction es arbitrary: d)
  case (Cons e es)
  then show ?case by (cases e) (auto simp: process_ops_def)
qed (simp add: process_ops_def)

text \<open>The Steiner tree of the changed paths, as the loops use it.\<close>

lemma adj_list_spans:
  assumes t: "tree_wf t" and tb: "precompute t = Some (Inr tb)"
    and paths: "\<forall>n \<in> set pp. \<forall>x \<in> set (node_paths n). \<exists>q < idx_counter t. x = Some q"
    and X: "X = {q. \<exists>n \<in> set pp. Some q \<in> set (node_paths n)}"
  obtains ad where "create_adj_list tb pp = Some (Inr ad)" "branches t ad"
    "\<forall>u c. c \<in> set (nexts ad u) \<longleftrightarrow> c \<in> set (kids t u) \<and> (\<exists>v \<in> X. v \<in> desc t c)"
proof -
  let ?ps = "remdups (concat (map node_paths pp))"
  have "rmap known_path ?ps = Inr (map the ?ps)"
    by (rule rmap_Inr) (use paths in \<open>fastforce simp: known_path_def\<close>)
  then have known: "rmap known_path ?ps = Inr (map the ?ps)" .
  have set: "set (map the ?ps) = X" unfolding X using paths by (force simp: image_iff)
  have lt: "set (map the ?ps) \<subseteq> {..<idx_counter t}" using paths by force
  have tb': "tb = (euler_tour_of t, precompute_rmq (tour_depths (euler_tour_of t)))"
    using precompute_ok [OF t] tb by simp
  from path_tour.steiner_spans [OF t lt] obtain ad where
    ad: "build_steiner_tree tb (map the ?ps) = Some (Inr ad)" "fst ` set ad = {u. \<exists>v \<in> insert 0 X. v \<in> desc t u}"
    and all: "\<forall>u vs. dict_get ad u = Some vs \<longrightarrow> distinct vs \<and> sorted (map ((!) (tin (euler_tour_of t))) vs) \<and>
      set vs = {c \<in> set (kids t u). \<exists>v \<in> X. v \<in> desc t c}"
    unfolding tb' set by (elim exE conjE)
  have lists: "distinct vs" "set vs = {c \<in> set (kids t u). \<exists>v \<in> X. v \<in> desc t c}" if "dict_get ad u = Some vs" for u vs
    using all that by iprover+
  have none: "\<not> (\<exists>v \<in> X. v \<in> desc t c)" if "dict_get ad u = None" "c \<in> set (kids t u)" for u c
  proof
    assume "\<exists>v \<in> X. v \<in> desc t c"
    then obtain v where v: "v \<in> X" "v \<in> desc t c" by (rule bexE)
    have "v \<in> desc t u" by (rule desc_trans [OF kid_desc [OF t that(2)] v(2)])
    with v(1) have "u \<in> fst ` set ad" unfolding ad(2) by auto
    with that(1) show False by (metis dict_get_not_None_iff)
  qed
  have mem: "c \<in> set (nexts ad u) \<longleftrightarrow> c \<in> set (kids t u) \<and> (\<exists>v \<in> X. v \<in> desc t c)" for u c
  proof (cases "dict_get ad u")
    case None
    then show ?thesis using none [OF None, of c] by (auto simp: nexts_def)
  next
    case (Some vs)
    then show ?thesis using lists(2) [OF Some] by (simp add: nexts_def)
  qed
  have "distinct (nexts ad u)" for u using lists(1) [of u] by (cases "dict_get ad u") (auto simp: nexts_def)
  then have "branches t ad" unfolding branches_def using mem by (metis subsetI)
  with that [of ad] mem known ad(1) show ?thesis by (simp add: create_adj_list_def)
qed

definition changed_paths :: "patch_node list \<Rightarrow> nat set" where
  "changed_paths pp = {q. \<exists>n \<in> set pp. Some q \<in> set (node_paths n)}"

definition storable_ops :: "'r path_tree \<Rightarrow> patch_node list \<Rightarrow> bool" where
  "storable_ops t pp \<longleftrightarrow> length pp \<le> 2 ^ 31 \<and>
     (\<forall>n \<in> set pp. parallel n \<and> length (node_op_types n) \<le> 2 ^ 32 \<and> list_all op_code (node_op_types n) \<and>
        (\<forall>x \<in> set (node_paths n). \<exists>q < idx_counter t. x = Some q))"

lemma Some_image_mem: "Some ` A = B \<Longrightarrow> q \<in> A \<longleftrightarrow> Some q \<in> B"
  by auto

lemma all_ops_paths:
  assumes "list_all parallel pp" "list_all2 (\<lambda>n ps. node_paths n = map Some ps) pp pss"
  shows "(\<lambda>(t, pn, i, op_type, q). q) ` set (enumerate 0 (all_ops (map node_op_types pp) pss)) = changed_paths pp"
proof -
  let ?all = "all_ops (map node_op_types pp) pss"
  have one: "fst ` set (zip (node_paths n) (zip (node_op_types n) (node_values n))) = set (node_paths n)" if "n \<in> set pp" for n
  proof -
    have "parallel n" using assms(1) that by (simp add: list_all_iff)
    then have "map fst (zip (node_paths n) (zip (node_op_types n) (node_values n))) = node_paths n"
      by (simp add: parallel_def)
    then show ?thesis by (metis set_map)
  qed
  have "(\<lambda>(t, pn, i, op_type, q). Some q) ` set (enumerate 0 ?all) = (\<lambda>(j, i, op_type, path). Some path) ` snd ` set (enumerate 0 ?all)"
    by (simp add: image_image case_prod_beta')
  also have "\<dots> = fst ` set (map (\<lambda>(j, i, op_type, path). (Some path, op_type, value_at pp j i)) ?all)"
    by (simp add: image_image case_prod_beta' comp_def flip: set_map)
  also have "\<dots> = (\<Union>n \<in> set pp. set (node_paths n))"
    unfolding all_ops_values [OF assms] set_concat image_UN set_map image_image by (intro SUP_cong refl one)
  finally have "Some ` ((\<lambda>(t, pn, i, op_type, q). q) ` set (enumerate 0 ?all)) = (\<Union>n \<in> set pp. set (node_paths n))"
    by (simp add: image_image case_prod_beta')
  then have "q \<in> (\<lambda>(t, pn, i, op_type, q). q) ` set (enumerate 0 ?all) \<longleftrightarrow> Some q \<in> (\<Union>n \<in> set pp. set (node_paths n))" for q
    by (rule Some_image_mem)
  then show ?thesis by (intro set_eqI) (simp only: changed_paths_def mem_Collect_eq UN_iff)
qed

lemma independent_op_tree:
  assumes t: "tree_wf t" and tb: "precompute t = Some (Inr tb)" and pp: "storable_ops t pp"
    and sep: "\<forall>u \<in> changed_paths pp. \<forall>v \<in> changed_paths pp. v \<in> desc t u \<longrightarrow> v = u"
  shows "\<exists>ad tree. create_adj_list tb pp = Some (Inr ad) \<and> build_op_tree pp ad 0 = Some (Inr tree) \<and>
    independent t ad tree \<and> 0 \<in> fst ` set tree \<and> op_nodes tree = changed_paths pp \<and>
    (\<forall>u op_type pth v c l. dict_get tree u = Some (Some (op_type, pth, v, c, l)) \<longrightarrow> op_type \<noteq> -1 \<longrightarrow> pth = int u)"
proof -
  let ?X = "changed_paths pp"
  have par: "list_all parallel pp" and known: "\<forall>n \<in> set pp. \<forall>x \<in> set (node_paths n). \<exists>q < idx_counter t. x = Some q"
    and codes: "\<forall>n \<in> set pp. list_all op_code (node_op_types n)"
    using pp by (auto simp: storable_ops_def list_all_iff)
  from adj_list_spans [OF t tb known changed_paths_def] obtain ad where ad: "create_adj_list tb pp = Some (Inr ad)" "branches t ad"
    "\<forall>u c. c \<in> set (nexts ad u) \<longleftrightarrow> c \<in> set (kids t u) \<and> (\<exists>v \<in> ?X. v \<in> desc t c)" .
  have "rmap known_path (node_paths n) = Inr (map the (node_paths n))" if "n \<in> set pp" for n
    by (rule rmap_Inr) (use known that in \<open>fastforce simp: known_path_def\<close>)
  then have "rmap (\<lambda>p. rmap known_path (node_paths p)) pp = Inr (map (\<lambda>n. map the (node_paths n)) pp)" by (rule rmap_Inr)
  then obtain pss where pss: "rmap (\<lambda>p. rmap known_path (node_paths p)) pp = Inr pss" by iprover
  note k2 = known_paths [OF pss]
  let ?es = "enumerate 0 (all_ops (map node_op_types pp) pss)"
  note paths = all_ops_paths [OF par k2]
  have t0: "0 < idx_counter t" using t by (simp add: tree_wf_def)
  let ?e = "[] :: (nat \<times> op_node option) list"
  have "\<exists>d'. init_slots ad [0] ?e = Some d' \<and> fst ` set ?e \<union> set [0] \<subseteq> fst ` set d' \<and>
      fst ` set d' \<subseteq> {..<idx_counter t} \<and> (\<forall>u \<in> fst ` set d'. set (nexts ad u) \<subseteq> fst ` set d') \<and> (dict_wf ?e \<longrightarrow> dict_wf d')"
    by (rule init_slots_ends [OF t ad(2)]) (use t0 in auto)
  then obtain d0 where d0: "init_slots ad [0] ?e = Some d0" "fst ` set ?e \<union> set [0] \<subseteq> fst ` set d0"
    "fst ` set d0 \<subseteq> {..<idx_counter t}" "\<forall>u \<in> fst ` set d0. set (nexts ad u) \<subseteq> fst ` set d0"
    "dict_wf ?e \<longrightarrow> dict_wf d0" by (elim exE conjE)
  let ?d = "process_ops ?es d0"
  have wf: "dict_wf ?d" using d0(5) by (simp add: process_ops_wf)
  have keys: "fst ` set ?d = fst ` set d0 \<union> ?X" unfolding process_ops_keys paths ..
  have "slot_in d0 q = None" for q unfolding slot_in_def by (rule init_slots_None [OF d0(1)]) simp
  then have "slots_ok {} d0" by (simp add: slots_ok_def)
  moreover have "case e of (t, pn, i, op_type, q) \<Rightarrow> op_code op_type" if "e \<in> set ?es" for e
  proof -
    obtain a b c d f where e: "e = (a, b, c, d, f)" by (rule prod_cases5)
    show ?thesis using all_ops_codes [OF codes that [unfolded e]] by (simp add: e)
  qed
  ultimately have ok: "slots_ok (set ?es) ?d" using process_ops_ok [of "{}" d0 ?es] by simp
  have dec: "\<exists>n. decode_slot pp s = Inr n" if "s \<in> snd ` set ?d" for s
  proof -
    from that obtain q where "(q, s) \<in> set ?d" by auto
    then have q: "slot_in ?d q = s" using wf by (simp add: slot_in_def map_of_is_SomeI)
    show ?thesis
    proof (cases s)
      case (Some s')
      show ?thesis
      proof (cases "slot_type s' = -1")
        case False
        with ok q Some obtain t' pn i op_type where c: "value_composite s' = composite pn i" "(t', pn, i, op_type, q) \<in> set ?es"
          unfolding slots_ok_def by blast
        have "located pp pn i" by (rule all_ops_places [OF par k2 _ _ c(2)]) (use pp in \<open>auto simp: storable_ops_def\<close>)
        then show ?thesis using Some False c(1) composite_decodes [of pn i] by (simp add: decode_slot_def located_def)
      qed (simp add: Some decode_slot_def)
    qed (simp add: decode_slot_def)
  qed
  have "\<forall>s \<in> snd ` set ?d. \<exists>n. decode_slot pp s = Inr n" by (intro ballI dec)
  from decode_all [of ?d "decode_slot pp", OF this] obtain tree where
    tree: "rmap (\<lambda>(idx, slot). rbind (decode_slot pp slot) (\<lambda>n. Inr (idx, n))) ?d = Inr tree" "map fst tree = map fst ?d"
    "\<forall>q n. dict_get tree q = Some n \<longleftrightarrow> (\<exists>s. dict_get ?d q = Some s \<and> decode_slot pp s = Inr n)" by (elim exE conjE)
  have tk: "fst ` set tree = fst ` set d0 \<union> ?X" using tree(2) keys by (metis set_map)
  have slot: "\<exists>s. slot_in ?d u = Some s \<and> decode_slot pp (Some s) = Inr (Some n)" if "dict_get tree u = Some (Some n)" for u n
  proof -
    from that tree(3) obtain s where s: "dict_get ?d u = Some s" "decode_slot pp s = Inr (Some n)" by iprover
    then show ?thesis by (cases s) (simp_all add: slot_in_def decode_slot_def)
  qed
  have ops: "op_nodes tree = ?X"
  proof (intro set_eqI)
    fix u
    have "u \<in> op_nodes tree \<longleftrightarrow> slot_in ?d u \<noteq> None"
    proof
      assume "u \<in> op_nodes tree"
      then show "slot_in ?d u \<noteq> None" using slot unfolding op_nodes_def by blast
    next
      assume "slot_in ?d u \<noteq> None"
      then obtain s where s: "dict_get ?d u = Some (Some s)" by (auto simp: slot_in_def split: option.splits)
      then obtain n where n: "decode_slot pp (Some s) = Inr n" using dec by (metis image_eqI map_of_SomeD snd_conv)
      then obtain m where "n = Some m" by (auto simp: decode_slot_def rbind_eq_Inr_iff split: if_splits prod.splits)
      with s n tree(3) show "u \<in> op_nodes tree" unfolding op_nodes_def by blast
    qed
    also have "\<dots> \<longleftrightarrow> u \<in> (\<lambda>(t, pn, i, op_type, q). q) ` set ?es" using ok unfolding slots_ok_def by force
    finally show "u \<in> op_nodes tree \<longleftrightarrow> u \<in> ?X" unfolding paths .
  qed
  have path: "pth = int u" if n: "dict_get tree u = Some (Some (op_type, pth, v, c, l))" and "op_type \<noteq> -1" for u op_type pth v c l
  proof -
    from slot [OF n] obtain s where s: "slot_in ?d u = Some s" "decode_slot pp (Some s) = Inr (Some (op_type, pth, v, c, l))" by iprover
    from s(2) have "op_type = slot_type s" "pth = slot_path s"
      by (auto simp: decode_slot_def rbind_eq_Inr_iff split: if_splits prod.splits)
    then show ?thesis using ok s(1) that(2) unfolding slots_ok_def by iprover
  qed
  have leaf: "nexts ad u = []" if u: "u \<in> ?X" for u
  proof -
    have "c \<notin> set (nexts ad u)" for c
    proof
      assume "c \<in> set (nexts ad u)"
      with ad(3) have c: "c \<in> set (kids t u)" "\<exists>v \<in> ?X. v \<in> desc t c" by iprover+
      from c(2) obtain v where v: "v \<in> ?X" "v \<in> desc t c" by (rule bexE)
      have "v = u" by (rule sep [rule_format, OF u v(1) desc_trans [OF kid_desc [OF t c(1)] v(2)]])
      with not_in_kid [OF t c(1)] v(2) show False by simp
    qed
    then show ?thesis by (cases "nexts ad u") auto
  qed
  have "independent t ad tree"
    unfolding independent_def ops tk
  proof (intro conjI ballI allI impI t ad(2))
    fix u
    assume u: "u \<in> fst ` set d0 \<union> ?X"
    have "?X \<subseteq> {..<idx_counter t}" using known unfolding changed_paths_def by fastforce
    with u d0(3) show "u < idx_counter t" by auto
    show "set (nexts ad u) \<subseteq> fst ` set d0 \<union> ?X"
      using u d0(4) leaf by (metis Un_iff empty_subsetI empty_set subset_trans sup_ge1)
    show "c \<in> set (nexts ad u) \<longleftrightarrow> c \<in> set (kids t u) \<and> (\<exists>v \<in> ?X. v \<in> desc t c)" for c by (rule ad(3) [rule_format])
  next
    fix u v
    assume "u \<in> ?X" "v \<in> ?X" "v \<in> desc t u"
    then show "v = u" by (rule sep [rule_format])
  qed
  moreover have "0 \<in> fst ` set tree" unfolding tk using d0(2) by simp
  moreover have "build_op_tree pp ad 0 = Some (Inr tree)"
    unfolding build_op_tree_def build_op_tree_fast_def pss d0(1) sum.case option.map tree(1) ..
  ultimately show ?thesis using ad(1) ops path by (intro exI [of _ ad] exI [of _ tree] conjI allI impI)
qed

lemma sorted_columns:
  assumes "distinct vs" "\<And>u. u \<in> set vs \<Longrightarrow> \<exists>c op_type v. e u = (c, op_type, int u, v)"
  defines "ops \<equiv> map snd (sort_key fst (map e vs))"
  shows "distinct (map (fst \<circ> snd) ops)" "set ops = (\<lambda>u. snd (e u)) ` set vs"
    "sorted (map (\<lambda>p. fst (e (nat p))) (map (fst \<circ> snd) ops))"
proof -
  have p: "fst (snd (snd (e u))) = int u" if "u \<in> set vs" for u using assms(2) [OF that] by auto
  have "mset (map (fst \<circ> snd) ops) = image_mset (\<lambda>x. fst (snd (snd x))) (mset (map e vs))"
    unfolding ops_def map_map mset_map mset_sort [symmetric, of "map e vs" fst] by (simp add: comp_def)
  also have "\<dots> = mset (map (\<lambda>u. fst (snd (snd (e u)))) vs)" by (simp add: comp_def image_mset.compositionality)
  also have "map (\<lambda>u. fst (snd (snd (e u)))) vs = map int vs" using p by (intro map_cong refl)
  finally have "mset (map (fst \<circ> snd) ops) = mset (map int vs)" .
  then show "distinct (map (fst \<circ> snd) ops)"
    using assms(1) by (metis mset_eq_imp_distinct_iff distinct_map inj_on_of_nat)
  show "set ops = (\<lambda>u. snd (e u)) ` set vs" unfolding ops_def by (auto simp: image_image)
  have "map (\<lambda>p. fst (e (nat p))) (map (fst \<circ> snd) ops) = map fst (sort_key fst (map e vs))"
    unfolding ops_def using p by (auto simp: p)
  then show "sorted (map (\<lambda>p. fst (e (nat p))) (map (fst \<circ> snd) ops))" by simp
qed

text \<open>C10: Changes that do not lie below one another are all carried over: when no path the patches change
  lies below another, merging them ends without running out of the tree, every changed path has one
  slot, and the long patch holds exactly the merged operation of every path that is not a NO-OP, once
  each, in the order of the times of the slots.  When nothing is left, the call raises \<open>ValueError\<close>.\<close>

theorem independent_changes_merge:
  assumes "tree_wf t" "precompute t = Some (Inr tb)" "storable_ops t patch_path"
    and "\<forall>u \<in> changed_paths patch_path. \<forall>v \<in> changed_paths patch_path. \<forall>ps. walk t u ps = Some v \<longrightarrow> v = u"
  shows "\<exists>ad tree ops ps vs. create_adj_list tb patch_path = Some (Inr ad) \<and>
    build_op_tree patch_path ad 0 = Some (Inr tree) \<and>
    {q. \<exists>n. dict_get tree q = Some (Some n)} = changed_paths patch_path \<and>
    collapse_op_tree t tree ad = Some (if ops = [] then Inl ValueError else Inr (ops, ps, vs)) \<and>
    length ps = length ops \<and> length vs = length ops \<and> distinct ps \<and>
    set (zip ops (zip ps vs)) =
      {(op_type, int q, v) | op_type q v. \<exists>c l. op_type \<noteq> -1 \<and> dict_get tree q = Some (Some (op_type, int q, v, c, l))} \<and>
    sorted (map (\<lambda>p. fst (entry_of tree (nat p))) ps)"
proof -
  have "\<forall>u \<in> changed_paths patch_path. \<forall>v \<in> changed_paths patch_path. v \<in> desc t u \<longrightarrow> v = u"
    using assms(4) unfolding desc_def by blast
  from independent_op_tree [OF assms(1-3) this] obtain ad tree where
    a: "create_adj_list tb patch_path = Some (Inr ad)" "build_op_tree patch_path ad 0 = Some (Inr tree)"
      "independent t ad tree" "0 \<in> fst ` set tree" "op_nodes tree = changed_paths patch_path"
      "\<forall>u op_type pth v c l. dict_get tree u = Some (Some (op_type, pth, v, c, l)) \<longrightarrow> op_type \<noteq> -1 \<longrightarrow> pth = int u"
    by (elim exE conjE)
  have "set [0] \<subseteq> fst ` set tree" "apart t [0]" using a(4) by (simp_all add: apart_def)
  from collapse_loop_independent [OF a(3) this zero_less_Suc [of "idx_counter t"], of "[]"] obtain us where
    us: "collapse_loop (Suc (idx_counter t)) t tree ad [0] [] = Some (Inr ([] @ map (entry_of tree) (filter (live tree) us)))"
      "distinct us" "\<forall>x. x \<in> set us \<longleftrightarrow> x \<in> op_nodes tree \<and> (\<exists>u \<in> set [0]. x \<in> desc t u)" by (elim exE conjE)
  let ?ws = "filter (live tree) us"
  let ?ops = "map snd (sort_key fst (map (entry_of tree) ?ws))"
  have lt: "x < idx_counter t" if "x \<in> op_nodes tree" for x
    using that independentD(3) [OF a(3)] dict_get_in_keys [of tree x] by (auto simp: op_nodes_def)
  have mem: "x \<in> set us \<longleftrightarrow> x \<in> op_nodes tree" for x
    using us(3) root_desc [OF assms(1) lt] by auto
  have live: "\<exists>c l. op_type \<noteq> -1 \<and> dict_get tree u = Some (Some (op_type, int u, v, c, l))"
    if "u \<in> set ?ws" "snd (entry_of tree u) = (op_type, p, v)" for u op_type p v
    using that mem a(6) by (auto simp: live_def entry_of_def op_nodes_def split: option.splits prod.splits)
  have ent: "\<exists>c op_type v. entry_of tree u = (c, op_type, int u, v)" if "u \<in> set ?ws" for u
    using that mem a(6) by (fastforce simp: live_def entry_of_def op_nodes_def split: option.splits prod.splits)
  note cols = sorted_columns [of ?ws "entry_of tree", OF _ ent]
  have set: "set ?ops = {(op_type, int q, v) | op_type q v. \<exists>c l. op_type \<noteq> -1 \<and> dict_get tree q = Some (Some (op_type, int q, v, c, l))}"
    (is "_ = ?R")
  proof (intro set_eqI iffI)
    fix x
    assume "x \<in> set ?ops"
    then obtain u where u: "u \<in> set ?ws" "x = snd (entry_of tree u)" using cols(2) us(2) by auto
    from ent [OF u(1)] obtain c op_type v where e: "entry_of tree u = (c, op_type, int u, v)" by iprover
    with live [OF u(1), of op_type "int u" v] u(2) show "x \<in> ?R" by auto
  next
    fix x
    assume "x \<in> ?R"
    then obtain op_type q v c l where x: "x = (op_type, int q, v)" "op_type \<noteq> -1" "dict_get tree q = Some (Some (op_type, int q, v, c, l))"
      by blast
    then have "q \<in> set ?ws" "snd (entry_of tree q) = x" using mem by (auto simp: op_nodes_def live_def entry_of_def)
    then show "x \<in> set ?ops" using cols(2) us(2) by force
  qed
  let ?o = "map fst ?ops" and ?p = "map (fst \<circ> snd) ?ops" and ?v = "map (snd \<circ> snd) ?ops"
  have zip: "zip ?o (zip ?p ?v) = ?ops" by (intro nth_equalityI) auto
  have "collapse_op_tree t tree ad = Some (if ?o = [] then Inl ValueError else Inr (?o, ?p, ?v))"
    unfolding collapse_op_tree_def us(1) by (simp add: Let_def)
  moreover have "{q. \<exists>n. dict_get tree q = Some (Some n)} = changed_paths patch_path"
    using a(5) unfolding op_nodes_def .
  moreover have "distinct ?p" "sorted (map (\<lambda>p. fst (entry_of tree (nat p))) ?p)" using cols us(2) by auto
  ultimately show ?thesis using a(1,2) set zip
    by (intro exI [of _ ad] exI [of _ tree] exI [of _ ?o] exI [of _ ?p] exI [of _ ?v] conjI) (simp_all only: length_map)
qed

theorem merged_operation_equivalent_witness:
  "build_op_tree [new_patch_node 0 1 [ADD_OPERATION] [Some 1] [VInt 5] None, new_patch_node 1 2 [REPLACE_OPERATION] [Some 1] [VInt 6] None]
     [(0, [1]), (1, [])] 0 = Some (Inr [(0, None), (1, Some (ADD_OPERATION, 1, VInt 6, 0, 1))]) \<and>
   (\<exists>z. apply_operation ADD_OPERATION (VInt 6) (VDict ''dict'' []) (PStr ''k'') = Inr z \<and>
      canon z = canon (VDict ''dict'' [(KP (PStr ''k''), VInt 6)]))"
proof -
  let ?pp = "[new_patch_node 0 1 [ADD_OPERATION] [Some 1] [VInt 5] None, new_patch_node 1 2 [REPLACE_OPERATION] [Some 1] [VInt 6] None]"
  let ?ks = "[KAdd (VInt 5), KReplace (VInt 5) (VInt 6)]"
  have b: "build_op_tree ?pp [(0, [1]), (1, [])] 0 = Some (Inr [(0, None), (1, Some (ADD_OPERATION, 1, VInt 6, 0, 1))])"
    by code_simp
  have r: "run_entries (map (\<lambda>k. (k, [PStr ''k''])) ?ks) (VDict ''dict'' []) = Some (VDict ''dict'' [(KP (PStr ''k''), VInt 6)])"
    by (auto simp: addable_def kid_def is_container_def child_ref_def rel_op_def apply_operation_def op_codes
        apply_add_def apply_replace_def)
  have o: "ops_at ?pp 1 = map (\<lambda>k. (kind_code k, kind_value k)) ?ks" by (simp add: ops_at_def new_patch_node_def)
  show ?thesis
    using merged_operation_equivalent [OF b _ _ _ o _ _ r] b
    by (auto simp: parallel_def new_patch_node_def op_codes)
qed

theorem independent_changes_merge_witness:
  "\<exists>tb ad tree ops ps vs. precompute sample_tree = Some (Inr tb) \<and>
    create_adj_list tb [new_patch_node 0 1 [REPLACE_OPERATION, ADD_OPERATION] [Some 2, Some 3] [VInt 5, VInt 6] None] = Some (Inr ad) \<and>
    build_op_tree [new_patch_node 0 1 [REPLACE_OPERATION, ADD_OPERATION] [Some 2, Some 3] [VInt 5, VInt 6] None] ad 0 = Some (Inr tree) \<and>
    {q. \<exists>n. dict_get tree q = Some (Some n)} = {2, 3} \<and>
    collapse_op_tree sample_tree tree ad = Some (if ops = [] then Inl ValueError else Inr (ops, ps, vs)) \<and> distinct ps"
proof -
  let ?pp = "[new_patch_node 0 1 [REPLACE_OPERATION, ADD_OPERATION] [Some 2, Some 3] [VInt 5, VInt 6] None]"
  have c: "changed_paths ?pp = {2, 3}" by (auto simp: changed_paths_def new_patch_node_def)
  have s: "storable_ops sample_tree ?pp"
    by (simp add: storable_ops_def parallel_def new_patch_node_def path_tree_eval)
  have leaf: "walk sample_tree 2 ps = Some v \<Longrightarrow> v = 2" "walk sample_tree 3 ps = Some v \<Longrightarrow> v = 3" for ps v
    by (cases ps; simp add: path_tree_eval)+
  have l: "\<forall>u \<in> changed_paths ?pp. \<forall>v \<in> changed_paths ?pp. \<forall>ps. walk sample_tree u ps = Some v \<longrightarrow> v = u"
    unfolding c by (auto dest: leaf)
  note p = precompute_ok [OF sample_tree_wf]
  show ?thesis
    using independent_changes_merge [OF sample_tree_wf p s l] p unfolding c by (elim exE conjE) (intro exI conjI)
qed

end
