(* ===== verification/Objects.thy ===== *)
theory Objects
  imports Apply "HOL-Library.Sublist"
begin

text \<open>
  The objects of a played game state as they lie in memory.

  A patch is played on the live game state: its operations change lists, dicts and
  \<open>GameObject\<close>s in place, the path tree keeps references to them, and the values of a patch become
  part of the state without being copied.  Here a container is a cell at an address; what a list, a
  dict or an attribute holds is a slot, a primitive value or the address of a container.  The cell
  operations are the ones of \<open>replay/apply_replay_helper.py\<close>; they are written once over the type of
  the slots, so that the value operations of theory \<open>Apply\<close> are the same functions
  (\<open>apply_operation_cell\<close>).

  \<open>rep h s v A\<close> says that slot \<open>s\<close> stands for the value \<open>v\<close> in memory \<open>h\<close> and that \<open>A\<close> are the
  addresses in use; \<open>distinct A\<close> says that no object is shared.  The lemmas of this theory show how
  such a tree-shaped state behaves under a change of one cell.
\<close>

subsection \<open>Cells\<close>

datatype 'a cell =
    LCell string "'a list"
  | DCell string "(key \<times> 'a) list"
  | OCell string "(string \<times> 'a) list"

type_synonym addr = nat

datatype slot = SPrim val | SRef addr

type_synonym heap = "addr \<Rightarrow> slot cell option"

definition cell_child :: "'a cell \<Rightarrow> pathel \<Rightarrow> 'a result" where
  "cell_child c p =
     (case c of
        OCell cl attrs \<Rightarrow>
          (case p of
             PInt _ \<Rightarrow> Inl TypeError
           | PStr n \<Rightarrow> (case map_of attrs n of Some v \<Rightarrow> Inr v | None \<Rightarrow> Inl ValueError))
      | LCell cl xs \<Rightarrow>
          (case p of
             PStr _ \<Rightarrow> Inl IndexError
           | PInt i \<Rightarrow> if i < 0 \<or> int (length xs) \<le> i then Inl IndexError else Inr (xs ! nat i))
      | DCell cl kvs \<Rightarrow> dict_lookup kvs (KP p))"

definition cell_replace :: "'a \<Rightarrow> 'a cell \<Rightarrow> pathel \<Rightarrow> 'a cell result" where
  "cell_replace value c pos =
     (case c of
        OCell cl attrs \<Rightarrow>
          (case pos of
             PInt _ \<Rightarrow> Inl ValueError
           | PStr n \<Rightarrow> if has_attr attrs n then Inr (OCell cl (dict_set attrs n value)) else Inl ValueError)
      | LCell cl xs \<Rightarrow> rbind (list_assign xs pos value) (\<lambda>xs'. Inr (LCell cl xs'))
      | DCell cl kvs \<Rightarrow> Inr (DCell cl (dict_set kvs (KP pos) value)))"

definition cell_add :: "'a \<Rightarrow> 'a \<Rightarrow> 'a cell \<Rightarrow> pathel \<Rightarrow> 'a cell result" where
  "cell_add none value c pos =
     (case c of
        LCell cl xs \<Rightarrow> Inr (LCell cl (xs @ [value]))
      | DCell cl kvs \<Rightarrow> Inr (DCell cl (dict_set kvs (KP pos) value))
      | OCell cl attrs \<Rightarrow>
          (case pos of
             PInt _ \<Rightarrow> Inl ValueError
           | PStr n \<Rightarrow>
               (case map_of attrs n of
                  None \<Rightarrow> Inl ValueError
                | Some old \<Rightarrow>
                    if old \<noteq> none then Inl ValueError else Inr (OCell cl (dict_set attrs n value)))))"

definition cell_remove :: "'a \<Rightarrow> 'a cell \<Rightarrow> pathel \<Rightarrow> 'a cell result" where
  "cell_remove none c pos =
     (case c of
        OCell cl attrs \<Rightarrow>
          (case pos of
             PInt _ \<Rightarrow> Inl ValueError
           | PStr n \<Rightarrow> if has_attr attrs n then Inr (OCell cl (dict_set attrs n none)) else Inl ValueError)
      | LCell cl xs \<Rightarrow>
          rbind (py_assert (pos = PInt (int (length xs) - 1)))
            (\<lambda>_. rbind (list_pop xs pos) (\<lambda>xs'. Inr (LCell cl xs')))
      | DCell cl kvs \<Rightarrow> rbind (dict_pop kvs (KP pos)) (\<lambda>(_, kvs'). Inr (DCell cl kvs')))"

definition cell_operation :: "'a \<Rightarrow> int \<Rightarrow> 'a \<Rightarrow> 'a cell \<Rightarrow> pathel \<Rightarrow> 'a cell result" where
  "cell_operation none op_type value c pos =
     (if op_type = REPLACE_OPERATION then cell_replace value c pos
      else if op_type = ADD_OPERATION then cell_add none value c pos
      else if op_type = REMOVE_OPERATION then cell_remove none c pos
      else Inr c)"

subsection \<open>Operations on memory\<close>

text \<open>\<open>get_reference_from_direct_parent\<close> on a slot, and \<open>apply_operation\<close> on the cell a reference
  points to.  A reference is \<open>None\<close> where the program has \<open>None\<close>; an address without a cell does not
  occur.\<close>

definition heap_child :: "heap \<Rightarrow> slot \<Rightarrow> pathel \<Rightarrow> slot result" where
  "heap_child h s p =
     (case s of
        SPrim v \<Rightarrow> if v = VNone then Inl ValueError else Inr (SPrim VNone)
      | SRef a \<Rightarrow> (case h a of None \<Rightarrow> Inl RuntimeError | Some c \<Rightarrow> cell_child c p))"

definition as_reference :: "slot \<Rightarrow> slot option" where
  "as_reference s = (if s = SPrim VNone then None else Some s)"

definition deref :: "heap \<Rightarrow> slot \<Rightarrow> pathel \<Rightarrow> slot option result" where
  "deref h s p = rbind (heap_child h s p) (\<lambda>s'. Inr (as_reference s'))"

definition heap_operation :: "int \<Rightarrow> slot \<Rightarrow> slot option \<Rightarrow> pathel \<Rightarrow> heap \<Rightarrow> heap result" where
  "heap_operation op_type value target pos h =
     (case target of
        Some (SRef a) \<Rightarrow>
          (case h a of
             None \<Rightarrow> Inl RuntimeError
           | Some c \<Rightarrow> rbind (cell_operation (SPrim VNone) op_type value c pos) (\<lambda>c'. Inr (h(a \<mapsto> c'))))
      | _ \<Rightarrow>
          if op_type = REPLACE_OPERATION \<or> op_type = ADD_OPERATION then Inl ValueError
          else if op_type = REMOVE_OPERATION then Inl AttributeError
          else Inr h)"

text \<open>The truth value of a reference: \<open>None\<close>, zero, the empty string and empty containers are false.\<close>

definition truthy :: "heap \<Rightarrow> slot option \<Rightarrow> bool" where
  "truthy h r =
     (case r of
        None \<Rightarrow> False
      | Some (SPrim v) \<Rightarrow>
          (case v of VNone \<Rightarrow> False | VStr n \<Rightarrow> n \<noteq> [] | VTimedelta _ d \<Rightarrow> d \<noteq> 0 | _ \<Rightarrow> num_of v \<noteq> Some 0)
      | Some (SRef a) \<Rightarrow>
          (case h a of
             Some (LCell _ xs) \<Rightarrow> xs \<noteq> []
           | Some (DCell _ kvs) \<Rightarrow> kvs \<noteq> []
           | _ \<Rightarrow> True))"


subsection \<open>Values as cells\<close>

fun view :: "val \<Rightarrow> val cell option" where
  "view (VList c xs) = Some (LCell c xs)"
| "view (VDict c kvs) = Some (DCell c kvs)"
| "view (VObj c attrs) = Some (OCell c attrs)"
| "view _ = None"

fun unview :: "val cell \<Rightarrow> val" where
  "unview (LCell c xs) = VList c xs"
| "unview (DCell c kvs) = VDict c kvs"
| "unview (OCell c attrs) = VObj c attrs"

lemma unview_view: "view v = Some w \<Longrightarrow> unview w = v"
  by (cases v) auto

lemma view_unview [simp]: "view (unview w) = Some w"
  by (cases w) auto

lemma view_container: "is_container v \<longleftrightarrow> view v \<noteq> None"
  by (cases v) (auto simp: is_container_def)

text \<open>The operations on values are the operations on cells.\<close>

lemma child_ref_cell: "view v = Some w \<Longrightarrow> child_ref v p = cell_child w p"
  by (cases v) (auto simp: child_ref_def cell_child_def)

lemma apply_operation_cell:
  "view v = Some w \<Longrightarrow>
   apply_operation t x v p = rbind (cell_operation VNone t x w p) (\<lambda>w'. Inr (unview w'))"
  by (cases v) (auto simp: apply_operation_def cell_operation_def apply_replace_def cell_replace_def apply_add_def
      cell_add_def apply_remove_def cell_remove_def rbind_assoc split: pathel.split option.split prod.split intro!: rbind_cong)

lemma apply_operation_container:
  "apply_operation t x v p = Inr v' \<Longrightarrow> op_code t \<Longrightarrow> \<exists>w. view v = Some w"
  by (cases v) (auto simp: apply_operation_def op_code_def apply_replace_def apply_add_def apply_remove_def split: if_splits)

subsection \<open>Positions\<close>

primrec key_pos :: "'k list \<Rightarrow> 'k \<Rightarrow> nat option" where
  "key_pos [] k = None"
| "key_pos (x # xs) k = (if x = k then Some 0 else map_option Suc (key_pos xs k))"

lemma key_pos_Some: "key_pos ks k = Some i \<Longrightarrow> i < length ks \<and> ks ! i = k"
  by (induction ks arbitrary: i) (auto split: if_splits)

lemma key_pos_None: "key_pos ks k = None \<longleftrightarrow> k \<notin> set ks"
  by (induction ks) auto

lemma map_of_key_pos: "map_of d k = map_option (\<lambda>i. snd (d ! i)) (key_pos (map fst d) k)"
  by (induction d) (auto simp: option.map_comp comp_def)

lemma update_key_pos:
  "AList.update k v d = (case key_pos (map fst d) k of Some i \<Rightarrow> d[i := (k, v)] | None \<Rightarrow> d @ [(k, v)])"
  by (induction d) (auto split: option.splits)

lemma delete_key_pos:
  "dict_wf d \<Longrightarrow> key_pos (map fst d) k = Some i \<Longrightarrow> AList.delete k d = take i d @ drop (Suc i) d"
proof (induction d arbitrary: i)
  case (Cons e d)
  show ?case
  proof (cases "fst e = k")
    case True
    then have "AList.delete k d = d" using Cons.prems by (intro delete_id) auto
    with True Cons.prems show ?thesis by (cases e) (auto simp: AList.delete_simps)
  next
    case False
    then obtain j where "key_pos (map fst d) k = Some j" "i = Suc j" using Cons.prems(2) by auto
    with False Cons show ?thesis by (cases e) (auto simp: AList.delete_simps)
  qed
qed simp

fun items :: "'a cell \<Rightarrow> 'a list" where
  "items (LCell c xs) = xs"
| "items (DCell c kvs) = map snd kvs"
| "items (OCell c attrs) = map snd attrs"

fun cell_wf :: "'a cell \<Rightarrow> bool" where
  "cell_wf (LCell c xs) = True"
| "cell_wf (DCell c kvs) = dict_wf kvs"
| "cell_wf (OCell c attrs) = dict_wf attrs"

fun same_shape :: "'a cell \<Rightarrow> 'b cell \<Rightarrow> bool" where
  "same_shape (LCell c xs) (LCell d ys) = (c = d \<and> length xs = length ys)"
| "same_shape (DCell c xs) (DCell d ys) = (c = d \<and> map fst xs = map fst ys)"
| "same_shape (OCell c xs) (OCell d ys) = (c = d \<and> map fst xs = map fst ys)"
| "same_shape _ _ = False"

fun position :: "'a cell \<Rightarrow> pathel \<Rightarrow> nat option" where
  "position (LCell c xs) (PInt i) = (if i < 0 \<or> int (length xs) \<le> i then None else Some (nat i))"
| "position (LCell c xs) (PStr n) = None"
| "position (DCell c kvs) p = key_pos (map fst kvs) (KP p)"
| "position (OCell c attrs) (PStr n) = key_pos (map fst attrs) n"
| "position (OCell c attrs) (PInt i) = None"

lemma position_items: "position c p = Some k \<Longrightarrow> k < length (items c)"
  by (cases "(c, p)" rule: position.cases) (auto split: if_splits dest: key_pos_Some)

lemma position_inj: "position c p = Some k \<Longrightarrow> position c q = Some k \<Longrightarrow> p = q"
proof (cases "(c, p)" rule: position.cases)
  case (1 cl xs i)
  then show "position c p = Some k \<Longrightarrow> position c q = Some k \<Longrightarrow> p = q" by (cases q) (auto split: if_splits)
next
  case (3 cl kvs p')
  then show "position c p = Some k \<Longrightarrow> position c q = Some k \<Longrightarrow> p = q" by (auto dest!: key_pos_Some)
next
  case (4 cl attrs n)
  then show "position c p = Some k \<Longrightarrow> position c q = Some k \<Longrightarrow> p = q" by (cases q) (auto dest!: key_pos_Some)
qed auto

lemma cell_child_position: "cell_child c p = Inr x \<longleftrightarrow> (\<exists>k. position c p = Some k \<and> x = items c ! k)"
  by (cases "(c, p)" rule: position.cases)
    (auto simp: cell_child_def dict_lookup_def map_of_key_pos split: option.splits dest: key_pos_Some)

lemma same_shape_position: "same_shape c w \<Longrightarrow> position c p = position w p"
  by (cases "(c, w)" rule: same_shape.cases; cases p) auto

lemma same_shape_items: "same_shape c w \<Longrightarrow> length (items c) = length (items w)"
  by (cases "(c, w)" rule: same_shape.cases) (auto dest: map_eq_imp_length_eq)

lemma same_shape_wf: "same_shape c w \<Longrightarrow> cell_wf c \<longleftrightarrow> cell_wf w"
  by (cases "(c, w)" rule: same_shape.cases) auto

fun set_item :: "nat \<Rightarrow> 'a \<Rightarrow> 'a cell \<Rightarrow> 'a cell" where
  "set_item k x (LCell c xs) = LCell c (xs[k := x])"
| "set_item k x (DCell c kvs) = DCell c (kvs[k := (fst (kvs ! k), x)])"
| "set_item k x (OCell c kvs) = OCell c (kvs[k := (fst (kvs ! k), x)])"

lemma items_set_item [simp]: "items (set_item k x c) = (items c)[k := x]"
  by (cases c) (simp_all add: map_update)

lemma map_fst_set_item: "map fst (kvs[k := (fst (kvs ! k), x)]) = map fst kvs"
proof -
  have "map fst (kvs[k := (fst (kvs ! k), x)]) = (map fst kvs)[k := fst (kvs ! k)]" by (simp add: map_update)
  also have "\<dots> = map fst kvs" by (cases "k < length kvs") (simp_all add: list_update_same_conv list_update_beyond)
  finally show ?thesis .
qed

lemma same_shape_set_item: "same_shape c w \<Longrightarrow> same_shape c (set_item k x w)"
  by (cases "(c, w)" rule: same_shape.cases) (auto simp: map_fst_set_item)

lemma same_shape_refl [simp]: "same_shape c c"
  by (cases c) auto

lemma same_shape_sym: "same_shape c w \<Longrightarrow> same_shape w c"
  by (cases "(c, w)" rule: same_shape.cases) auto

lemma set_child_item:
  assumes "view v = Some w" and "position w p = Some k"
  shows "set_child v p x = unview (set_item k x w)"
proof (cases v)
  case (VList c xs)
  with assms show ?thesis by (cases p) (auto simp: set_child_def split: if_splits)
next
  case (VDict c kvs)
  with assms key_pos_Some [of "map fst kvs" "KP p" k] show ?thesis by (auto simp: set_child_def update_key_pos)
next
  case (VObj c attrs)
  with assms obtain n where "p = PStr n" "w = OCell c attrs" "key_pos (map fst attrs) n = Some k" by (cases p) auto
  with VObj key_pos_Some [of "map fst attrs" n k] show ?thesis by (auto simp: set_child_def update_key_pos)
qed (use assms in auto)

subsection \<open>What an operation does to a cell\<close>

text \<open>Every operation leaves the items alone, sets one of them, adds one at the end or takes one away.
  Which of these, and where, depends on the shape of the cell only.\<close>

datatype edit = Keep | Put nat | Clear nat | Push | Drop nat

fun run_edit :: "edit \<Rightarrow> 'a \<Rightarrow> 'a \<Rightarrow> 'a list \<Rightarrow> 'a list" where
  "run_edit Keep n x xs = xs"
| "run_edit (Put k) n x xs = xs[k := x]"
| "run_edit (Clear k) n x xs = xs[k := n]"
| "run_edit Push n x xs = xs @ [x]"
| "run_edit (Drop k) n x xs = take k xs @ drop (Suc k) xs"

definition follows :: "edit \<Rightarrow> 'a \<Rightarrow> 'a \<Rightarrow> 'a cell \<Rightarrow> 'a cell \<Rightarrow> 'b \<Rightarrow> 'b \<Rightarrow> 'b cell \<Rightarrow> 'b cell result \<Rightarrow> bool" where
  "follows e n s c c' m x w r \<longleftrightarrow> items c' = run_edit e n s (items c) \<and> cell_wf c' \<and>
     (\<exists>w'. r = Inr w' \<and> same_shape c' w' \<and> items w' = run_edit e m x (items w))"

lemma same_keys_cases:
  assumes "same_shape c w"
  obtains (list) cl xs ys where "c = LCell cl xs" "w = LCell cl ys" "length xs = length ys"
  | (dict) cl xs ys where "c = DCell cl xs" "w = DCell cl ys" "map fst xs = map fst ys"
  | (obj) cl xs ys where "c = OCell cl xs" "w = OCell cl ys" "map fst xs = map fst ys"
  using assms by (cases "(c, w)" rule: same_shape.cases) auto

lemma dict_set_edit:
  fixes xs :: "('k, 'a) dict" and ys :: "('k, 'b) dict"
  assumes "map fst xs = map fst ys"
  obtains e where "map snd (dict_set xs k s) = run_edit e n s (map snd xs)"
    "map snd (dict_set ys k x) = run_edit e m x (map snd ys)" "map fst (dict_set xs k s) = map fst (dict_set ys k x)"
proof (cases "key_pos (map fst xs) k")
  case None
  then show ?thesis using assms that [of Push] by (simp add: update_key_pos)
next
  case (Some i)
  then have "i < length xs" "i < length ys" using assms by (auto dest!: key_pos_Some dest: map_eq_imp_length_eq)
  with Some show ?thesis using assms that [of "Put i"] by (simp add: update_key_pos map_update)
qed

lemma cell_replace_edit:
  assumes shape: "same_shape c w" and wf: "cell_wf c" and c': "cell_replace s c p = Inr c'"
  shows "\<exists>e. follows e n s c c' m x w (cell_replace x w p)"
  using shape
proof (cases rule: same_keys_cases)
  case (list cl xs ys)
  from c' obtain i where i: "p = PInt i" using list(1) by (cases p) (auto simp: cell_replace_def list_assign_def)
  define j where "j = (if i < 0 then i + int (length xs) else i)"
  have "0 \<le> j" "j < int (length xs)" "c' = LCell cl (xs[nat j := s])"
    using c' list(1) by (auto simp: cell_replace_def list_assign_def i j_def Let_def split: if_splits)
  moreover from this have "cell_replace x w p = Inr (LCell cl (ys[nat j := x]))"
    using list(2,3) by (auto simp: cell_replace_def list_assign_def i Let_def j_def split: if_splits)
  ultimately have "follows (Put (nat j)) n s c c' m x w (cell_replace x w p)"
    using list by (simp add: follows_def)
  then show ?thesis ..
next
  case (dict cl xs ys)
  obtain e where "map snd (dict_set xs (KP p) s) = run_edit e n s (map snd xs)"
    "map snd (dict_set ys (KP p) x) = run_edit e m x (map snd ys)"
    "map fst (dict_set xs (KP p) s) = map fst (dict_set ys (KP p) x)" by (rule dict_set_edit [OF dict(3)])
  moreover have "dict_wf (dict_set xs (KP p) s)" using wf dict(1) by simp
  ultimately have "follows e n s c c' m x w (cell_replace x w p)"
    using c' dict(1,2) by (auto simp: cell_replace_def follows_def)
  then show ?thesis ..
next
  case (obj cl xs ys)
  from c' obtain k where k: "p = PStr k" "has_attr xs k" "c' = OCell cl (dict_set xs k s)"
    using obj(1) by (cases p) (auto simp: cell_replace_def split: if_splits)
  obtain e where "map snd (dict_set xs k s) = run_edit e n s (map snd xs)"
    "map snd (dict_set ys k x) = run_edit e m x (map snd ys)"
    "map fst (dict_set xs k s) = map fst (dict_set ys k x)" by (rule dict_set_edit [OF obj(3)])
  then have "follows e n s c c' m x w (cell_replace x w p)"
    using wf k obj by (simp add: cell_replace_def follows_def has_attr_def)
  then show ?thesis ..
qed

lemma cell_add_edit:
  assumes shape: "same_shape c w" and wf: "cell_wf c" and c': "cell_add n s c p = Inr c'"
    and none: "\<forall>k < length (items c). items c ! k = n \<longleftrightarrow> items w ! k = m"
  shows "\<exists>e. follows e n s c c' m x w (cell_add m x w p)"
  using shape
proof (cases rule: same_keys_cases)
  case (list cl xs ys)
  then have "follows Push n s c c' m x w (cell_add m x w p)" using c' by (auto simp: cell_add_def follows_def)
  then show ?thesis ..
next
  case (dict cl xs ys)
  then have "cell_replace s c p = Inr c'" "cell_add m x w p = cell_replace x w p"
    using c' by (simp_all add: cell_add_def cell_replace_def)
  with cell_replace_edit [OF shape wf] show ?thesis by simp
next
  case (obj cl xs ys)
  from c' obtain k where k: "p = PStr k" "map_of xs k = Some n" "cell_replace s c p = Inr c'"
    using obj(1) by (cases p) (auto simp: cell_add_def cell_replace_def has_attr_def dict_get_in_keys split: option.splits if_splits)
  then obtain i where i: "key_pos (map fst xs) k = Some i" "snd (xs ! i) = n" by (auto simp: map_of_key_pos)
  then have "i < length xs" "key_pos (map fst ys) k = Some i" using obj(3) key_pos_Some [OF i(1)] i(1) map_eq_imp_length_eq [OF obj(3)] by simp_all
  moreover from this have "snd (ys ! i) = m" using none i(2) obj map_eq_imp_length_eq [OF obj(3)] by auto
  ultimately have "map_of ys k = Some m" by (simp add: map_of_key_pos)
  then have "cell_add m x w p = cell_replace x w p"
    using k(1) obj(2) by (simp add: cell_add_def cell_replace_def has_attr_def dict_get_in_keys)
  with cell_replace_edit [OF shape wf k(3)] show ?thesis by simp
qed

lemma cell_remove_edit:
  assumes shape: "same_shape c w" and wf: "cell_wf c" and c': "cell_remove n c p = Inr c'"
  shows "\<exists>e. follows e n s c c' m x w (cell_remove m w p)"
  using shape
proof (cases rule: same_keys_cases)
  case (list cl xs ys)
  then have "follows (Drop (length xs - 1)) n s c c' m x w (cell_remove m w p)" using c'
    by (auto simp: cell_remove_def follows_def rbind_eq_Inr_iff py_assert_def list_pop_def Let_def nat_diff_distrib' split: if_splits)
  then show ?thesis ..
next
  case (dict cl xs ys)
  from c' obtain v where v: "dict_get xs (KP p) = Some v" "c' = DCell cl (dict_del xs (KP p))"
    using dict(1) by (auto simp: cell_remove_def dict_pop_def rbind_eq_Inr_iff split: option.splits)
  then obtain i where i: "key_pos (map fst xs) (KP p) = Some i" by (auto simp: map_of_key_pos)
  have del: "dict_del xs (KP p) = take i xs @ drop (Suc i) xs" "dict_del ys (KP p) = take i ys @ drop (Suc i) ys"
    using i wf dict by (auto intro!: delete_key_pos)
  have "dict_get ys (KP p) = Some (snd (ys ! i))" using i dict(3) by (simp add: map_of_key_pos)
  moreover have "map fst (take i xs @ drop (Suc i) xs) = map fst (take i ys @ drop (Suc i) ys)"
    using dict(3) by (simp flip: take_map drop_map)
  moreover have "dict_wf (dict_del xs (KP p))" using wf dict(1) by simp
  ultimately have "follows (Drop i) n s c c' m x w (cell_remove m w p)"
    using v(2) dict(1,2) by (simp add: follows_def cell_remove_def dict_pop_def del take_map drop_map)
  then show ?thesis ..
next
  case (obj cl xs ys)
  then have r: "cell_replace n c p = Inr c'" "cell_remove m w p = cell_replace m w p"
    using c' by (auto simp: cell_remove_def cell_replace_def)
  then obtain k where k: "p = PStr k" "has_attr xs k" "c' = OCell cl (dict_set xs k n)"
    using obj(1) by (cases p) (auto simp: cell_replace_def split: if_splits)
  then obtain i where i: "key_pos (map fst xs) k = Some i" "key_pos (map fst ys) k = Some i"
    using obj(3) key_pos_None [of "map fst xs" k] by (auto simp: has_attr_def)
  then have "dict_set xs k n = xs[i := (k, n)]" "dict_set ys k m = ys[i := (k, m)]" by (simp_all add: update_key_pos)
  moreover have "dict_wf (dict_set xs k n)" using wf obj(1) by simp
  moreover have "(map fst xs)[i := k] = (map fst ys)[i := k]" using obj(3) by simp
  ultimately have "follows (Clear i) n s c c' m x w (cell_remove m w p)"
    using k r(2) obj by (simp add: follows_def cell_replace_def has_attr_def map_update)
  then show ?thesis ..
qed

lemma cell_operation_edit:
  assumes "same_shape c w" and "cell_wf c" and "cell_operation n t s c p = Inr c'"
    and "\<forall>k < length (items c). items c ! k = n \<longleftrightarrow> items w ! k = m"
  shows "\<exists>e. follows e n s c c' m x w (cell_operation m t x w p)"
proof -
  have "follows Keep n s c c m x w (Inr w)" using assms by (simp add: follows_def)
  then show ?thesis
    using assms cell_replace_edit [OF assms(1,2)] cell_add_edit [OF assms(1,2)] cell_remove_edit [OF assms(1,2)]
    by (auto simp: cell_operation_def split: if_splits)
qed

text \<open>An operation does not move the other children.\<close>

lemma cell_operation_others:
  assumes "cell_wf c" and "cell_operation n t s c p = Inr c'" and "q \<noteq> p" and "cell_child c q = Inr y"
    and nonneg: "\<forall>i < 0. t = REPLACE_OPERATION \<longrightarrow> p \<noteq> PInt i"
  shows "cell_child c' q = Inr y"
  using assms(1-4)
proof (cases c)
  case (LCell cl xs)
  with assms(4) obtain i where i: "q = PInt i" "0 \<le> i" "i < int (length xs)" "y = xs ! nat i"
    by (cases q) (auto simp: cell_child_def split: if_splits)
  consider "t = REPLACE_OPERATION" | "t = ADD_OPERATION" | "t = REMOVE_OPERATION" | "c' = c"
    using assms(2) by (auto simp: cell_operation_def split: if_splits)
  then show ?thesis
  proof cases
    case 1
    then obtain j where "p = PInt j" "0 \<le> j" "c' = LCell cl (xs[nat j := s])"
      using assms(2) nonneg LCell
      by (cases p) (auto simp: cell_operation_def cell_replace_def list_assign_def op_codes Let_def split: if_splits)
    with i assms(3) show ?thesis by (simp add: cell_child_def nat_eq_iff)
  next
    case 2
    then show ?thesis using assms(2) LCell i
      by (auto simp: cell_operation_def cell_add_def cell_child_def op_codes nth_append)
  next
    case 3
    then have "c' = LCell cl (take (length xs - 1) xs)" "p = PInt (int (length xs) - 1)" using assms(2) LCell
      by (auto simp: cell_operation_def cell_remove_def list_pop_def op_codes rbind_eq_Inr_iff py_assert_def Let_def
          nat_diff_distrib' split: if_splits)
    with i assms(3) show ?thesis by (auto simp: cell_child_def)
  qed (use assms in simp)
next
  case (DCell cl kvs)
  then show ?thesis using assms(1-4)
    by (auto simp: cell_operation_def cell_replace_def cell_add_def cell_remove_def cell_child_def dict_lookup_def
        dict_pop_def rbind_eq_Inr_iff split: if_splits option.splits)
next
  case (OCell cl attrs)
  then show ?thesis using assms(1-4)
    by (cases p; cases q)
      (auto simp: cell_operation_def cell_replace_def cell_add_def cell_remove_def cell_child_def split: if_splits option.splits)
qed

subsection \<open>Memory that stands for a value\<close>

inductive rep :: "heap \<Rightarrow> slot \<Rightarrow> val \<Rightarrow> addr list \<Rightarrow> bool"
  and reps :: "heap \<Rightarrow> slot list \<Rightarrow> val list \<Rightarrow> addr list \<Rightarrow> bool"
  for h :: heap where
  prim: "\<not> is_container v \<Longrightarrow> rep h (SPrim v) v []"
| cell: "h a = Some c \<Longrightarrow> view v = Some w \<Longrightarrow> same_shape c w \<Longrightarrow> cell_wf c \<Longrightarrow>
    reps h (items c) (items w) A \<Longrightarrow> rep h (SRef a) v (a # A)"
| nil: "reps h [] [] []"
| cons: "rep h s v A \<Longrightarrow> reps h ss vs B \<Longrightarrow> reps h (s # ss) (v # vs) (A @ B)"

inductive_cases rep_primE: "rep h (SPrim x) v A"
inductive_cases rep_refE: "rep h (SRef a) v A"
inductive_cases reps_NilE: "reps h [] vs A"
inductive_cases reps_ConsE: "reps h (s # ss) vs A"

lemma reps_length: "reps h ss vs A \<Longrightarrow> length ss = length vs"
  by (induction ss arbitrary: vs A) (auto elim!: reps_NilE reps_ConsE)

text \<open>What a slot stands for depends on the addresses in use only.\<close>

lemma rep_frame:
  shows "rep h s v A \<Longrightarrow> (\<And>b. b \<in> set A \<Longrightarrow> h' b = h b) \<Longrightarrow> rep h' s v A"
    and "reps h ss vs A \<Longrightarrow> (\<And>b. b \<in> set A \<Longrightarrow> h' b = h b) \<Longrightarrow> reps h' ss vs A"
  by (induction rule: rep_reps.inducts) (auto intro: rep_reps.intros)

lemma rep_none: "rep h s v A \<Longrightarrow> s = SPrim VNone \<longleftrightarrow> v = VNone"
  by (cases s) (auto elim!: rep_primE rep_refE)

lemma reps_append: "reps h ss vs A \<Longrightarrow> reps h ss' vs' B \<Longrightarrow> reps h (ss @ ss') (vs @ vs') (A @ B)"
proof (induction ss arbitrary: vs A)
  case (Cons s ss)
  then show ?case using rep_reps.cons [of h s _ _ "ss @ ss'"] by (fastforce elim: reps_ConsE)
qed (auto elim: reps_NilE)

lemma reps_split:
  "reps h (ss @ ss') vs A \<Longrightarrow>
   \<exists>vs1 vs2 A1 A2. vs = vs1 @ vs2 \<and> A = A1 @ A2 \<and> reps h ss vs1 A1 \<and> reps h ss' vs2 A2"
proof (induction ss arbitrary: vs A)
  case Nil
  then have "vs = [] @ vs \<and> A = [] @ A \<and> reps h [] [] [] \<and> reps h ss' vs A" by (simp add: rep_reps.nil)
  then show ?case by blast
next
  case (Cons s ss)
  then obtain v vs1 B C where v: "vs = v # vs1" "A = B @ C" "rep h s v B" "reps h (ss @ ss') vs1 C"
    by (auto elim: reps_ConsE)
  from Cons.IH [OF v(4)] obtain us1 us2 A1 A2 where
    "vs1 = us1 @ us2" "C = A1 @ A2" "reps h ss us1 A1" "reps h ss' us2 A2" by blast
  with v have "vs = (v # us1) @ us2 \<and> A = (B @ A1) @ A2 \<and> reps h (s # ss) (v # us1) (B @ A1) \<and> reps h ss' us2 A2"
    by (auto intro: rep_reps.intros)
  then show ?case by blast
qed

lemma reps_nth:
  assumes "reps h ss vs A" and "k < length ss"
  obtains A1 B A2 where "A = A1 @ B @ A2" "rep h (ss ! k) (vs ! k) B"
    "reps h (take k ss) (take k vs) A1" "reps h (drop (Suc k) ss) (drop (Suc k) vs) A2"
proof -
  have ss: "ss = take k ss @ ss ! k # drop (Suc k) ss" using assms(2) by (rule id_take_nth_drop)
  with reps_split [of h "take k ss" "ss ! k # drop (Suc k) ss" vs A] assms(1) obtain vs1 vs2 A1 A2 where
    v: "vs = vs1 @ vs2" "A = A1 @ A2" "reps h (take k ss) vs1 A1" "reps h (ss ! k # drop (Suc k) ss) vs2 A2" by metis
  from v(4) obtain x vs3 B A3 where x: "vs2 = x # vs3" "A2 = B @ A3" "rep h (ss ! k) x B" "reps h (drop (Suc k) ss) vs3 A3"
    by (auto elim: reps_ConsE)
  have "length vs1 = k" using reps_length [OF v(3)] assms(2) by simp
  with v x show ?thesis by (intro that [of A1 B A3]) auto
qed

lemma reps_set_nth:
  assumes "reps h (take k ss) (take k vs) A1" "reps h (drop (Suc k) ss) (drop (Suc k) vs) A2" "k < length ss"
    and "length vs = length ss" and "rep h s v B"
  shows "reps h (ss[k := s]) (vs[k := v]) (A1 @ B @ A2)"
  using reps_append [OF assms(1) rep_reps.cons [OF assms(5,2)]] assms(3,4) by (simp add: upd_conv_take_nth_drop)

lemma reps_set:
  assumes "reps h ss vs A" and "distinct A" and "rep h s x B" and "distinct B" and "set A \<inter> set B = {}"
  shows "\<exists>C. reps h (ss[k := s]) (vs[k := x]) C \<and> distinct C \<and> set C \<subseteq> set A \<union> set B"
proof (cases "k < length ss")
  case True
  from reps_nth [OF assms(1) this] obtain A1 K A2 where
    k: "A = A1 @ K @ A2" "reps h (take k ss) (take k vs) A1" "reps h (drop (Suc k) ss) (drop (Suc k) vs) A2" by metis
  from reps_set_nth [OF k(2,3) True reps_length [OF assms(1), symmetric] assms(3)] show ?thesis
    using assms(2,4,5) k(1) by (intro exI [of _ "A1 @ B @ A2"]) auto
next
  case False
  then show ?thesis using assms reps_length [OF assms(1)] by (auto simp: list_update_beyond)
qed

lemma reps_drop:
  assumes "reps h ss vs A" and "distinct A"
  shows "\<exists>C. reps h (take k ss @ drop (Suc k) ss) (take k vs @ drop (Suc k) vs) C \<and> distinct C \<and> set C \<subseteq> set A"
proof (cases "k < length ss")
  case True
  from reps_nth [OF assms(1) this] obtain A1 K A2 where
    k: "A = A1 @ K @ A2" "reps h (take k ss) (take k vs) A1" "reps h (drop (Suc k) ss) (drop (Suc k) vs) A2" by metis
  from reps_append [OF k(2,3)] show ?thesis
    using assms(2) k(1) by (intro exI [of _ "A1 @ A2"]) auto
next
  case False
  then show ?thesis using assms reps_length [OF assms(1)] by auto
qed

lemma reps_edit:
  assumes "reps h ss vs A" and "distinct A" and "rep h s x B" and "distinct B" and "set A \<inter> set B = {}"
  shows "\<exists>C. reps h (run_edit e (SPrim VNone) s ss) (run_edit e VNone x vs) C \<and> distinct C \<and> set C \<subseteq> set A \<union> set B"
proof (cases e)
  case Keep
  then show ?thesis using assms(1,2) by auto
next
  case (Put k)
  then show ?thesis using reps_set [OF assms] by simp
next
  case (Clear k)
  have "rep h (SPrim VNone) VNone []" by (rule rep_reps.prim) (simp add: is_container_def)
  from reps_set [OF assms(1,2) this, of k] show ?thesis using Clear by auto
next
  case Push
  from reps_append [OF assms(1) rep_reps.cons [OF assms(3) rep_reps.nil]]
  have "reps h (ss @ [s]) (vs @ [x]) (A @ B @ [])" .
  with Push show ?thesis using assms by (intro exI [of _ "A @ B @ []"]) auto
next
  case (Drop k)
  then show ?thesis using reps_drop [OF assms(1,2), of k] by auto
qed

text \<open>An operation on the cell of a value is the operation on the value.\<close>

lemma rep_operation:
  assumes "rep h (SRef a) v A" and "distinct A" and "rep h s x B" and "distinct B" and "set A \<inter> set B = {}"
    and "view v = Some w" and "h a = Some c" and "cell_operation VNone t x w p = Inr w'"
  shows "\<exists>c' A'. cell_operation (SPrim VNone) t s c p = Inr c' \<and> rep (h(a \<mapsto> c')) (SRef a) (unview w') A' \<and> distinct A' \<and>
    set A' \<subseteq> set A \<union> set B"
proof -
  from assms(1,6,7) obtain A0 where A: "A = a # A0" "same_shape c w" "cell_wf c" "reps h (items c) (items w) A0"
    by (auto elim: rep_refE)
  have wfw: "cell_wf w" using same_shape_wf [OF A(2)] A(3) by simp
  have "items c ! k = SPrim VNone \<longleftrightarrow> items w ! k = VNone" if "k < length (items c)" for k
    using reps_nth [OF A(4) that] rep_none by metis
  then have "\<forall>k < length (items w). items w ! k = VNone \<longleftrightarrow> items c ! k = SPrim VNone"
    using same_shape_items [OF A(2)] by simp
  from cell_operation_edit [OF same_shape_sym [OF A(2)] wfw assms(8) this] obtain e c' where
    e: "items w' = run_edit e VNone x (items w)" "cell_wf w'" "cell_operation (SPrim VNone) t s c p = Inr c'"
      "same_shape w' c'" "items c' = run_edit e (SPrim VNone) s (items c)" unfolding follows_def by blast
  have "distinct A0" "set A0 \<inter> set B = {}" using assms(2,5) A(1) by auto
  from reps_edit [OF A(4) this(1) assms(3,4) this(2), of e] obtain C where
    C: "reps h (items c') (items w') C" "distinct C" "set C \<subseteq> set A0 \<union> set B" unfolding e(1,5) by blast
  have a: "a \<notin> set C" using C(3) assms(2,5) A(1) by auto
  have "reps (h(a \<mapsto> c')) (items c') (items w') C" by (rule rep_frame(2) [OF C(1)]) (use a in auto)
  then have "rep (h(a \<mapsto> c')) (SRef a) (unview w') (a # C)"
    using e(2,4) same_shape_wf [OF e(4)] by (intro rep_reps.cell [where w = w' and c = c']) (auto intro: same_shape_sym)
  moreover have "distinct (a # C)" "set (a # C) \<subseteq> set A \<union> set B" using a C A(1) by auto
  ultimately show ?thesis using e(3) by blast
qed

subsection \<open>Paths through memory\<close>

fun resolve :: "heap \<Rightarrow> slot \<Rightarrow> path \<Rightarrow> slot result" where
  "resolve h s [] = Inr s"
| "resolve h s (p # ps) = rbind (heap_child h s p) (\<lambda>s'. resolve h s' ps)"

fun sub_value :: "val \<Rightarrow> path \<Rightarrow> val result" where
  "sub_value v [] = Inr v"
| "sub_value v (p # ps) = rbind (child_ref v p) (\<lambda>w. sub_value w ps)"

fun put_value :: "val \<Rightarrow> path \<Rightarrow> val \<Rightarrow> val" where
  "put_value v [] x = x"
| "put_value v (p # ps) x =
     (case child_ref v p of Inr w \<Rightarrow> set_child v p (put_value w ps x) | Inl _ \<Rightarrow> v)"

lemma apply_op_sub:
  "apply_op (t, q @ [e], x) v =
   rbind (sub_value v q) (\<lambda>w. rbind (apply_operation t x w e) (\<lambda>w'. Inr (put_value v q w')))"
proof (induction q arbitrary: v)
  case (Cons p q)
  show ?case
  proof (cases q)
    case Nil
    then show ?thesis by (cases "child_ref v p") simp_all
  next
    case q: (Cons r rs)
    then show ?thesis using Cons.IH by (cases "child_ref v p") (simp_all add: rbind_assoc)
  qed
qed simp

lemma resolve_append: "resolve h s (p @ q) = rbind (resolve h s p) (\<lambda>s'. resolve h s' q)"
  by (induction p arbitrary: s) (auto simp: rbind_assoc)

lemma rep_child:
  assumes "rep h (SRef a) v A" and "heap_child h (SRef a) p = Inr s"
  obtains c w k A1 B A2 where "h a = Some c" "view v = Some w" "same_shape c w" "cell_wf c"
    "position c p = Some k" "k < length (items c)" "s = items c ! k" "A = a # A1 @ B @ A2" "rep h s (items w ! k) B"
    "reps h (take k (items c)) (take k (items w)) A1" "reps h (drop (Suc k) (items c)) (drop (Suc k) (items w)) A2"
    "child_ref v p = Inr (items w ! k)"
proof -
  from assms(1) obtain c w A0 where c: "h a = Some c" "view v = Some w" "same_shape c w" "cell_wf c"
    "reps h (items c) (items w) A0" "A = a # A0" by (auto elim: rep_refE)
  from assms(2) c(1) obtain k where k: "position c p = Some k" "s = items c ! k"
    by (auto simp: heap_child_def cell_child_position)
  have "child_ref v p = Inr (items w ! k)"
    using k(1) c(2) by (simp add: child_ref_cell cell_child_position same_shape_position [OF c(3), symmetric])
  with reps_nth [OF c(5) position_items [OF k(1)]] that c k position_items [OF k(1)] show ?thesis by metis
qed

lemma rep_child_in:
  assumes "rep h (SRef a) v A" and "heap_child h (SRef a) p = Inr s"
  obtains u B where "rep h s u B" "set B \<subseteq> set A" "a \<in> set A" "distinct A \<Longrightarrow> a \<notin> set B \<and> distinct B"
  by (rule rep_child [OF assms], rule that) auto

lemma rep_heap_child:
  assumes "rep h s v A" and "child_ref v p = Inr x" and "view v \<noteq> None"
  obtains a s' where "s = SRef a" "heap_child h s p = Inr s'"
proof -
  from assms(1,3) obtain a c w where a: "s = SRef a" "h a = Some c" "view v = Some w" "same_shape c w"
    by (cases s) (auto elim!: rep_primE rep_refE simp: view_container)
  from assms(2) a(3) obtain k where "position c p = Some k"
    by (auto simp: child_ref_cell cell_child_position same_shape_position [OF a(4)])
  with a that show ?thesis by (auto simp: heap_child_def cell_child_position)
qed

lemma sub_value_container: "sub_value v q = Inr w \<Longrightarrow> view w \<noteq> None \<Longrightarrow> view v \<noteq> None"
proof (induction q arbitrary: v)
  case (Cons p q)
  then obtain u where u: "child_ref v p = Inr u" "view u \<noteq> None" by (auto simp: rbind_eq_Inr_iff)
  then show ?case by (cases v) (auto simp: child_ref_def)
qed simp

text \<open>Below a slot, the object at a path can be changed on its own: with other contents in its place
  and the rest of the memory as it was, the slot stands for the value with that part exchanged.\<close>

lemma rep_focus:
  "rep h s v A \<Longrightarrow> distinct A \<Longrightarrow> sub_value v q = Inr w \<Longrightarrow> view w \<noteq> None \<Longrightarrow>
   \<exists>a B. resolve h s q = Inr (SRef a) \<and> rep h (SRef a) w B \<and> distinct B \<and> set B \<subseteq> set A \<and>
     (\<forall>h' x B'. rep h' (SRef a) x B' \<and> distinct B' \<and> (\<forall>b \<in> set A - set B. h' b = h b) \<and> set B' \<inter> (set A - set B) = {} \<longrightarrow>
       (\<exists>A'. rep h' s (put_value v q x) A' \<and> distinct A' \<and> set A' \<subseteq> set B' \<union> (set A - set B)))"
proof (induction q arbitrary: s v A)
  case Nil
  then obtain a where "s = SRef a" by (cases s) (auto elim!: rep_primE simp: view_container)
  with Nil show ?case by (intro exI [of _ a] exI [of _ A]) auto
next
  case (Cons p q)
  then obtain u where u: "child_ref v p = Inr u" "sub_value u q = Inr w" by (auto simp: rbind_eq_Inr_iff)
  from rep_heap_child [OF Cons.prems(1) u(1) sub_value_container [OF Cons.prems(3,4)]] obtain a s' where
    a: "s = SRef a" "heap_child h s p = Inr s'" .
  obtain c wc k A1 C A2 where
    c: "h a = Some c" "view v = Some wc" "same_shape c wc" "cell_wf c" "position c p = Some k" "k < length (items c)"
      "s' = items c ! k" "A = a # A1 @ C @ A2" "rep h s' (items wc ! k) C"
      "reps h (take k (items c)) (take k (items wc)) A1" "reps h (drop (Suc k) (items c)) (drop (Suc k) (items wc)) A2"
    and wk: "child_ref v p = Inr (items wc ! k)"
    by (rule rep_child [OF Cons.prems(1) [unfolded a(1)] a(2) [unfolded a(1)]])
  have "items wc ! k = u" using wk u(1) by simp
  then have ru: "rep h s' u C" using c(9) by simp
  have "distinct C" using Cons.prems(2) c(8) by auto
  from Cons.IH [OF ru this u(2) Cons.prems(4)] obtain b B where
    b: "resolve h s' q = Inr (SRef b)" "rep h (SRef b) w B" "distinct B" "set B \<subseteq> set C"
    and put: "\<forall>h' x B'. rep h' (SRef b) x B' \<and> distinct B' \<and> (\<forall>b \<in> set C - set B. h' b = h b) \<and> set B' \<inter> (set C - set B) = {} \<longrightarrow>
       (\<exists>A'. rep h' s' (put_value u q x) A' \<and> distinct A' \<and> set A' \<subseteq> set B' \<union> (set C - set B))" by blast
  have "\<exists>A'. rep h' s (put_value v (p # q) x) A' \<and> distinct A' \<and> set A' \<subseteq> set B' \<union> (set A - set B)"
    if x: "rep h' (SRef b) x B'" "distinct B'" "\<forall>b \<in> set A - set B. h' b = h b" "set B' \<inter> (set A - set B) = {}" for h' x B'
  proof -
    have out: "set (a # A1) \<union> set A2 \<subseteq> set A - set C" "set C \<subseteq> set A" using Cons.prems(2) c(8) by auto
    have "\<forall>b \<in> set C - set B. h' b = h b" "set B' \<inter> (set C - set B) = {}" using x(3,4) out(2) by auto
    with put x(1,2) obtain C' where C': "rep h' s' (put_value u q x) C'" "distinct C'" "set C' \<subseteq> set B' \<union> (set C - set B)"
      by iprover
    have same: "h' d = h d" if "d \<in> set (a # A1) \<union> set A2" for d using that out(1) b(4) x(3) by blast
    have "reps h' (take k (items c)) (take k (items wc)) A1" "reps h' (drop (Suc k) (items c)) (drop (Suc k) (items wc)) A2"
      by (rule rep_frame(2) [OF c(10)], use same in simp, rule rep_frame(2) [OF c(11)], use same in simp)
    from reps_set_nth [OF this c(6) same_shape_items [OF c(3), symmetric] C'(1)]
    have "reps h' (items c) (items (set_item k (put_value u q x) wc)) (A1 @ C' @ A2)" using c(7) by simp
    with same [of a] c have "rep h' (SRef a) (unview (set_item k (put_value u q x) wc)) (a # A1 @ C' @ A2)"
      by (intro rep_reps.cell [where c = c and w = "set_item k (put_value u q x) wc"]) (auto intro: same_shape_set_item)
    moreover have "put_value v (p # q) x = unview (set_item k (put_value u q x) wc)"
      using u(1) set_child_item [OF c(2)] c(5) by (simp add: same_shape_position [OF c(3), symmetric])
    moreover have "set C' \<inter> (set (a # A1) \<union> set A2) = {}" using C'(3) out x(4) b(4) by blast
    then have "distinct (a # A1 @ C' @ A2)" using C'(2) Cons.prems(2) c(8) by auto
    moreover have "set (a # A1 @ C' @ A2) \<subseteq> set B' \<union> (set A - set B)" using C'(3) out b(4) by auto
    ultimately show ?thesis unfolding a(1) by (intro exI [of _ "a # A1 @ C' @ A2"]) simp
  qed
  moreover have "resolve h s (p # q) = Inr (SRef b)" using a(2) b(1) by simp
  moreover have "set B \<subseteq> set A" using b(4) c(8) by auto
  ultimately show ?case using b(2,3) by (intro exI [of _ b] exI [of _ B]) simp
qed

lemma resolve_frame:
  "rep h s v A \<Longrightarrow> (\<And>b. b \<in> set A \<Longrightarrow> h' b = h b) \<Longrightarrow> resolve h s q = Inr x \<Longrightarrow> resolve h' s q = Inr x"
proof (induction q arbitrary: s v A)
  case (Cons p q)
  then obtain s' where s': "heap_child h s p = Inr s'" "resolve h s' q = Inr x" by (auto simp: rbind_eq_Inr_iff)
  show ?case
  proof (cases s)
    case (SPrim y)
    then have "s' = SPrim VNone" using s'(1) by (auto simp: heap_child_def split: if_splits)
    with s'(2) have "q = []" by (cases q) (auto simp: heap_child_def)
    with SPrim s' show ?thesis by (simp add: heap_child_def)
  next
    case (SRef a)
    from Cons.prems(1) s'(1) obtain u B where u: "a \<in> set A" "set B \<subseteq> set A" "rep h s' u B"
      unfolding SRef by (elim rep_child_in)
    from Cons.IH [OF u(3) _ s'(2)] Cons.prems(2) u(2) have "resolve h' s' q = Inr x" by blast
    with s'(1) Cons.prems(2) [OF u(1)] SRef show ?thesis by (simp add: heap_child_def)
  qed
qed simp

text \<open>An operation on the object at \<open>q0\<close> under the path element \<open>e\<close> leaves every other path alone.\<close>

lemma resolve_in: "rep h s v A \<Longrightarrow> resolve h s q = Inr (SRef a) \<Longrightarrow> a \<in> set A"
proof (induction q arbitrary: s v A)
  case Nil
  then show ?case by (auto elim: rep_refE)
next
  case (Cons p q)
  then obtain s' where s': "heap_child h s p = Inr s'" "resolve h s' q = Inr (SRef a)" by (auto simp: rbind_eq_Inr_iff)
  show ?case
  proof (cases s)
    case (SPrim y)
    then have "s' = SPrim VNone" using s'(1) by (auto simp: heap_child_def split: if_splits)
    with s'(2) show ?thesis by (cases q) (auto simp: heap_child_def)
  next
    case (SRef b)
    from Cons.prems(1) s'(1) obtain u B where u: "set B \<subseteq> set A" "rep h s' u B"
      unfolding SRef by (elim rep_child_in)
    from Cons.IH [OF u(2) s'(2)] u(1) show ?thesis by blast
  qed
qed

lemma rep_child_unique:
  assumes r: "rep h (SRef a) v A" "distinct A" and c: "heap_child h (SRef a) p = Inr s" "heap_child h (SRef a) q = Inr s'"
    and b: "resolve h s ps = Inr (SRef b)" "p \<noteq> q"
  obtains u B where "rep h s' u B" "b \<notin> set B"
proof -
  obtain c0 w k A1 B A2 where
    p: "h a = Some c0" "view v = Some w" "position c0 p = Some k" "k < length (items c0)" "A = a # A1 @ B @ A2" "rep h s (items w ! k) B"
      "reps h (take k (items c0)) (take k (items w)) A1"
      "reps h (drop (Suc k) (items c0)) (drop (Suc k) (items w)) A2" by (rule rep_child [OF r(1) c(1)])
  have bB: "b \<in> set B" by (rule resolve_in [OF p(6) b(1)])
  from c(2) p(1) obtain j where j: "position c0 q = Some j" "s' = items c0 ! j"
    by (auto simp: heap_child_def cell_child_position)
  have lt: "j < length (items c0)" by (rule position_items [OF j(1)])
  have "j \<noteq> k" using position_inj [OF p(3)] j(1) b(2) by blast
  then consider "j < k" | "k < j" by linarith
  then have "\<exists>u B'. rep h s' u B' \<and> set B' \<subseteq> set A1 \<union> set A2"
  proof cases
    case 1
    then have "j < length (take k (items c0))" "take k (items c0) ! j = s'" using lt j(2) by simp_all
    with reps_nth [OF p(7), of j] show ?thesis by (metis Un_iff set_append subsetI)
  next
    case 2
    then have "j - Suc k < length (drop (Suc k) (items c0))" "drop (Suc k) (items c0) ! (j - Suc k) = s'" using lt j(2) by simp_all
    with reps_nth [OF p(8), of "j - Suc k"] show ?thesis by (metis Un_iff set_append subsetI)
  qed
  then obtain u B' where "rep h s' u B'" "set B' \<subseteq> set A1 \<union> set A2" by blast
  moreover have "b \<notin> set A1 \<union> set A2" using bB r(2) p(5) by auto
  ultimately show ?thesis using that by blast
qed

lemma resolve_others:
  "rep h s v A \<Longrightarrow> distinct A \<Longrightarrow> resolve h s q0 = Inr (SRef a) \<Longrightarrow> h a = Some c \<Longrightarrow>
   (\<And>p y. p \<noteq> e \<Longrightarrow> cell_child c p = Inr y \<Longrightarrow> cell_child c' p = Inr y) \<Longrightarrow>
   resolve h s q = Inr x \<Longrightarrow> \<not> prefix (q0 @ [e]) q \<Longrightarrow> resolve (h(a \<mapsto> c')) s q = Inr x"
proof (induction q arbitrary: s v A q0)
  case (Cons p q)
  from Cons.prems(6) obtain s' where s': "heap_child h s p = Inr s'" "resolve h s' q = Inr x" by (auto simp: rbind_eq_Inr_iff)
  show ?case
  proof (cases s)
    case (SPrim y)
    then have "s' = SPrim VNone" using s'(1) by (auto simp: heap_child_def split: if_splits)
    with s'(2) have "q = []" by (cases q) (auto simp: heap_child_def)
    with SPrim s' show ?thesis by (simp add: heap_child_def)
  next
    case (SRef b)
    from Cons.prems(1,2) s'(1) obtain u B where u: "rep h s' u B" "b \<notin> set B" "distinct B" unfolding SRef by (elim rep_child_in) auto
    show ?thesis
    proof (cases q0)
      case Nil
      then have "b = a" using Cons.prems(3) SRef by simp
      then have "resolve (h(a \<mapsto> c')) s' q = Inr x" using u(2) by (intro resolve_frame [OF u(1) _ s'(2)]) auto
      moreover have "p \<noteq> e" using Cons.prems(7) Nil by auto
      then have "heap_child (h(a \<mapsto> c')) s p = Inr s'" using s'(1) Cons.prems(4,5) \<open>b = a\<close> SRef by (simp add: heap_child_def)
      ultimately show ?thesis by (simp only: resolve.simps rbind_Inr)
    next
      case q0: (Cons p0 q0')
      then obtain s0 where s0: "heap_child h s p0 = Inr s0" "resolve h s0 q0' = Inr (SRef a)"
        using Cons.prems(3) by (auto simp: rbind_eq_Inr_iff)
      from Cons.prems(1,2) s0(1) obtain u0 B0 where u0: "rep h s0 u0 B0" "b \<notin> set B0" unfolding SRef by (elim rep_child_in) auto
      have "a \<noteq> b" using resolve_in [OF u0(1) s0(2)] u0(2) by blast
      then have child: "heap_child (h(a \<mapsto> c')) s p = Inr s'" using s'(1) SRef by (simp add: heap_child_def)
      have "resolve (h(a \<mapsto> c')) s' q = Inr x"
      proof (cases "p0 = p")
        case True
        then have "resolve h s' q0' = Inr (SRef a)" "\<not> prefix (q0' @ [e]) q"
          using s0 s'(1) Cons.prems(7) q0 by auto
        then show ?thesis using Cons.IH [OF u(1,3)] Cons.prems(4,5) s'(2) by blast
      next
        case False
        from rep_child_unique [OF Cons.prems(1) [unfolded SRef] Cons.prems(2) s0(1) [unfolded SRef] s'(1) [unfolded SRef] s0(2) False]
        obtain u' B' where "rep h s' u' B'" "a \<notin> set B'" .
        then show ?thesis by (intro resolve_frame [OF _ _ s'(2)]) auto
      qed
      with child show ?thesis by (simp only: resolve.simps rbind_Inr)
    qed
  qed
qed simp

end
