(* ===== verification/Playing.thy ===== *)
theory Playing
  imports Objects Steiner Hooks
begin

text \<open>
  Playing a patch on the live game state: \<open>ReplaySegment.apply_patch\<close>
  (\<open>replay/replay_segment.py\<close>) and \<open>PathTree.get_old_values\<close> (\<open>replay/path_tree.py\<close>).

  The operations of a patch are triples of a code, a node of the path tree and a slot.  The nodes
  whose reference is not known are resolved through the Steiner tree, the old values the hooks ask for
  are copied, the operations are performed one after the other, each forgetting the references below
  its node, and the changes are reported to the hooks.  \<open>deepcopy\<close> is \<open>copy_val\<close>, with a bound on the
  depth of the copied object.  The second value reported to a hook is the attribute itself and not a
  copy; here it is its value when the patch has been applied.

  The main theorem says that on a state without shared objects, whose cached references are right,
  this machinery does what applying the operations one after the other along their paths does, and
  leaves the cached references right again.
\<close>

subsection \<open>Unknown references\<close>

type_synonym played_op = "int \<times> nat option \<times> slot"

definition path_node :: "'r path_tree \<Rightarrow> nat option \<Rightarrow> 'r path_tree_node result" where
  "path_node t path_idx = (case path_idx of None \<Rightarrow> Inl KeyError | Some i \<Rightarrow> dict_lookup (idx_to_node t) i)"

definition unknown_paths :: "heap \<Rightarrow> slot path_tree \<Rightarrow> played_op list \<Rightarrow> nat list result" where
  "unknown_paths h t ops =
     rfold (\<lambda>(op_type, path_idx, value) unknown. rbind (path_node t path_idx) (\<lambda>n.
       Inr (if truthy h (reference n) then unknown else unknown @ [the path_idx]))) ops []"

subsection \<open>Old values for the hooks\<close>

text \<open>\<open>getattr(reference, path_element, None)\<close>, and \<open>deepcopy\<close> of what it returns.\<close>

definition get_attr :: "heap \<Rightarrow> slot option \<Rightarrow> pathel \<Rightarrow> slot result" where
  "get_attr h r p =
     (case p of
        PInt _ \<Rightarrow> Inl TypeError
      | PStr n \<Rightarrow>
          Inr (case r of
                 Some (SRef a) \<Rightarrow>
                   (case h a of
                      Some (OCell _ attrs) \<Rightarrow> (case map_of attrs n of Some s \<Rightarrow> s | None \<Rightarrow> SPrim VNone)
                    | _ \<Rightarrow> SPrim VNone)
               | _ \<Rightarrow> SPrim VNone))"

fun copy_all :: "('a \<Rightarrow> 'b option) \<Rightarrow> 'a list \<Rightarrow> 'b list option" where
  "copy_all f [] = Some []"
| "copy_all f (x # xs) = (case f x of None \<Rightarrow> None | Some y \<Rightarrow> map_option ((#) y) (copy_all f xs))"

fun copy_val :: "nat \<Rightarrow> heap \<Rightarrow> slot \<Rightarrow> val option" where
  "copy_val n h (SPrim v) = Some v"
| "copy_val 0 h (SRef a) = None"
| "copy_val (Suc n) h (SRef a) =
     (case h a of
        None \<Rightarrow> None
      | Some (LCell c xs) \<Rightarrow> map_option (VList c) (copy_all (copy_val n h) xs)
      | Some (DCell c kvs) \<Rightarrow> map_option (\<lambda>vs. VDict c (zip (map fst kvs) vs)) (copy_all (copy_val n h) (map snd kvs))
      | Some (OCell c kvs) \<Rightarrow> map_option (\<lambda>vs. VObj c (zip (map fst kvs) vs)) (copy_all (copy_val n h) (map snd kvs)))"

type_synonym old_values = "(nat, (nat, hook_data) dict) dict"

definition put_old :: "nat \<Rightarrow> nat \<Rightarrow> pathel \<Rightarrow> val \<Rightarrow> old_values \<Rightarrow> old_values" where
  "put_old hook_path v p old out =
     (let objs = (case dict_get out hook_path of None \<Rightarrow> [] | Some d \<Rightarrow> d);
          attrs = (case dict_get objs v of None \<Rightarrow> [] | Some d \<Rightarrow> d)
      in dict_set out hook_path (dict_set objs v (dict_set attrs p (old, VNone))))"

text \<open>The body of the inner loop for one child \<open>v\<close> at depth \<open>d\<close>.\<close>

definition listens :: "'c replay_hook \<Rightarrow> pathel \<Rightarrow> bool" where
  "listens k p \<longleftrightarrow> (case h_attributes k of None \<Rightarrow> True | Some as \<Rightarrow> p \<in> PStr ` set as)"

definition old_value_at ::
    "nat \<Rightarrow> heap \<Rightarrow> slot path_tree \<Rightarrow> nat \<Rightarrow> 'c replay_hook \<Rightarrow> nat \<Rightarrow> old_values \<Rightarrow> old_values result option" where
  "old_value_at fuel h t hook_path k v out =
     (case dict_get (idx_to_node t) v of
        None \<Rightarrow> Some (Inl KeyError)
      | Some n \<Rightarrow>
          if listens k (path_element n) then
            obind (Some (get_attr h (reference n) (path_element n))) (\<lambda>s.
              map_option (\<lambda>old. Inr (put_old hook_path v (path_element n) old out)) (copy_val fuel h s))
          else Some (Inr out))"

fun visit_children ::
    "nat \<Rightarrow> heap \<Rightarrow> slot path_tree \<Rightarrow> nat \<Rightarrow> 'c replay_hook \<Rightarrow> int \<Rightarrow> nat list \<Rightarrow> (nat \<times> int) list \<Rightarrow> old_values
     \<Rightarrow> ((nat \<times> int) list \<times> old_values) result option" where
  "visit_children fuel h t hook_path k d [] q out = Some (Inr (q, out))"
| "visit_children fuel h t hook_path k d (v # vs) q out =
     (if d > h_end_depth k \<and> h_end_depth k \<noteq> -1 then visit_children fuel h t hook_path k d vs q out
      else if d < h_start_depth k then visit_children fuel h t hook_path k d vs (q @ [(v, d + 1)]) out
      else
        obind (old_value_at fuel h t hook_path k v out) (\<lambda>out'.
          visit_children fuel h t hook_path k d vs (q @ [(v, d + 1)]) out'))"

partial_function (option) old_values_loop ::
    "nat \<Rightarrow> heap \<Rightarrow> slot path_tree \<Rightarrow> adjacency \<Rightarrow> nat \<Rightarrow> 'c replay_hook \<Rightarrow> (nat \<times> int) list \<Rightarrow> old_values
     \<Rightarrow> old_values result option" where
  [code]: "old_values_loop fuel h t adj hook_path k q out =
     (case q of
        [] \<Rightarrow> Some (Inr out)
      | (u, d) # rest \<Rightarrow>
          (case visit_children fuel h t hook_path k d (case dict_get adj u of None \<Rightarrow> [] | Some vs \<Rightarrow> vs) rest out of
             None \<Rightarrow> None
           | Some (Inl e) \<Rightarrow> Some (Inl e)
           | Some (Inr (q', out')) \<Rightarrow> old_values_loop fuel h t adj hook_path k q' out'))"

fun old_values_of ::
    "nat \<Rightarrow> heap \<Rightarrow> slot path_tree \<Rightarrow> adjacency \<Rightarrow> (nat \<times> 'c replay_hook) list \<Rightarrow> old_values \<Rightarrow> old_values result option" where
  "old_values_of fuel h t adj [] out = Some (Inr out)"
| "old_values_of fuel h t adj ((hook_path, k) # ks) out =
     (if hook_path \<notin> set (dict_keys adj) then old_values_of fuel h t adj ks out
      else
        obind (old_values_loop fuel h t adj hook_path k [(hook_path, 0)] out) (old_values_of fuel h t adj ks))"

definition get_old_values ::
    "nat \<Rightarrow> heap \<Rightarrow> slot path_tree \<Rightarrow> tables \<Rightarrow> nat list \<Rightarrow> (nat, 'c replay_hook list) dict \<Rightarrow> old_values result option" where
  "get_old_values fuel h t tb changed hooks =
     (if hooks = [] then Some (Inr [])
      else
        obind (build_steiner_tree tb changed) (\<lambda>adj.
          old_values_of fuel h t adj (concat (map (\<lambda>(p, ks). map (Pair p) ks) hooks)) []))"

subsection \<open>Applying a patch\<close>

fun play_ops ::
    "played_op list \<Rightarrow> heap \<Rightarrow> slot path_tree \<Rightarrow> nat \<Rightarrow> (heap \<times> slot path_tree \<times> nat) result option" where
  "play_ops [] h t n = Some (Inr (h, t, n))"
| "play_ops ((op_type, path_idx, value) # ops) h t n =
     obind (Some (path_node t path_idx)) (\<lambda>nd.
     obind (Some (heap_operation op_type value (reference nd) (path_element nd) h)) (\<lambda>h'.
     obind (reset_child_references (node_index nd) t) (\<lambda>t'. play_ops ops h' t' (n + 1))))"

text \<open>The new values of one object, and the report of all changed objects.\<close>

fun new_values :: "nat \<Rightarrow> heap \<Rightarrow> slot option \<Rightarrow> hook_data \<Rightarrow> hook_data result option" where
  "new_values fuel h r [] = Some (Inr [])"
| "new_values fuel h r ((p, old, _) # attrs) =
     obind (Some (get_attr h r p)) (\<lambda>s.
     obind (map_option Inr (copy_val fuel h s)) (\<lambda>v.
     obind (new_values fuel h r attrs) (\<lambda>attrs'. Some (Inr ((p, old, v) # attrs')))))"

fun report_changes ::
    "nat \<Rightarrow> heap \<Rightarrow> slot path_tree \<Rightarrow> (nat \<times> nat \<times> hook_data) list \<Rightarrow> ('c, slot) hook_system
     \<Rightarrow> ('c, slot) hook_system result option" where
  "report_changes fuel h t [] hs = Some (Inr hs)"
| "report_changes fuel h t ((hook_path, obj_path, attrs) # cs) hs =
     obind (Some (dict_lookup (idx_to_node t) obj_path)) (\<lambda>n.
     obind (new_values fuel h (reference n) attrs) (\<lambda>attrs'.
     obind (Some (que_hook_path hook_path (reference n) attrs' hs)) (report_changes fuel h t cs)))"

record 'c play_state =
  p_heap :: heap
  p_tree :: "slot path_tree"
  p_hooks :: "('c, slot) hook_system option"
  p_counter :: nat

definition apply_patch ::
    "nat \<Rightarrow> tables \<Rightarrow> slot \<Rightarrow> played_op list \<Rightarrow> 'c play_state \<Rightarrow> 'c play_state result option" where
  "apply_patch fuel tb game_state ops s =
     obind (Some (unknown_paths (p_heap s) (p_tree s) ops)) (\<lambda>unknown.
     obind (build_steiner_tree tb unknown) (\<lambda>adj.
     obind (bfs_set_references (deref (p_heap s)) adj game_state (p_tree s)) (\<lambda>t.
     obind (case p_hooks s of
              None \<Rightarrow> Some (Inr [])
            | Some hs \<Rightarrow> get_old_values fuel (p_heap s) t tb (map (\<lambda>(_, p, _). the p) ops) (hs_hooks hs)) (\<lambda>old.
     obind (play_ops ops (p_heap s) t (p_counter s)) (\<lambda>(h, t', n).
     obind (case p_hooks s of
              None \<Rightarrow> Some (Inr None)
            | Some hs \<Rightarrow>
                obind (report_changes fuel h t' (concat (map (\<lambda>(k, objs). map (\<lambda>(v, attrs). (k, v, attrs)) objs) old)) hs)
                  (\<lambda>hs'. Some (Inr (Some hs')))) (\<lambda>hooks'.
       Some (Inr (s\<lparr>p_heap := h, p_tree := t', p_hooks := hooks', p_counter := n\<rparr>))))))))"

subsection \<open>Trees that differ in their references\<close>

definition with_refs :: "(nat \<Rightarrow> 'r option \<Rightarrow> 'r option) \<Rightarrow> 'r path_tree \<Rightarrow> 'r path_tree" where
  "with_refs f t = t\<lparr>idx_to_node := map (\<lambda>(i, n). (i, set_reference (f i (reference n)) n)) (idx_to_node t)\<rparr>"

lemma set_reference_same [simp]: "set_reference (reference n) n = n"
  by (simp add: set_reference_def)

lemma node_at_with: "node_at (with_refs f t) i = map_option (\<lambda>n. set_reference (f i (reference n)) n) (node_at t i)"
  by (simp add: node_at_def with_refs_def map_of_map_value)

lemma with_refs_with: "with_refs f (with_refs g t) = with_refs (\<lambda>i. f i \<circ> g i) t"
  by (auto simp: with_refs_def intro!: path_tree.equality)

lemma with_refs_id: "(\<And>i r. f i r = r) \<Longrightarrow> with_refs f t = t"
  by (simp add: with_refs_def case_prod_unfold)

lemma clear_refs_with: "clear_refs S t = with_refs (\<lambda>i r. if i \<in> S then None else r) t"
  by (auto simp: with_refs_def clear_refs_def intro!: path_tree.equality)

lemma idx_counter_with [simp]: "idx_counter (with_refs f t) = idx_counter t"
  by (simp add: with_refs_def)

lemma dict_wf_with [simp]: "dict_wf (idx_to_node (with_refs f t)) \<longleftrightarrow> dict_wf (idx_to_node t)"
  by (simp add: with_refs_def case_prod_unfold comp_def)

lemma walk_with [simp]: "walk (with_refs f t) i ps = walk t i ps"
proof (induction ps arbitrary: i)
  case (Cons p ps)
  then show ?case by (cases "node_at t i") (auto simp: walk_Cons node_at_with)
qed simp

lemma kids_with [simp]: "kids (with_refs f t) i = kids t i"
  by (cases "node_at t i") (simp_all add: kids_def node_at_with)

lemma below_with [simp]: "below (with_refs f t) i = below t i"
  by (simp add: below_def)

lemma tree_wf_with [simp]: "tree_wf (with_refs f t) \<longleftrightarrow> tree_wf t"
proof -
  have c: "child_ok (with_refs f t) i p j \<longleftrightarrow> child_ok t i p j" for i p j
    by (cases "node_at t j") (auto simp: child_ok_def node_at_with)
  have p: "parent_ok (with_refs f t) i n \<longleftrightarrow> parent_ok t i n" for i and n :: "'a path_tree_node"
    by (auto simp: parent_ok_def node_at_with)
  have sp: "parent_ok t i (set_reference r n) \<longleftrightarrow> parent_ok t i n" for i r and n :: "'a path_tree_node"
    by (simp add: parent_ok_def)
  have "node_ok (with_refs f t) i (set_reference r n) \<longleftrightarrow> node_ok t i n" for i r and n :: "'a path_tree_node"
    by (simp add: node_ok_def c p sp)
  then have "(\<forall>n. node_at (with_refs f t) i = Some n \<longrightarrow> node_ok (with_refs f t) i n) \<longleftrightarrow>
      (\<forall>n. node_at t i = Some n \<longrightarrow> node_ok t i n)" for i
    by (cases "node_at t i") (auto simp: node_at_with)
  then show ?thesis by (simp add: tree_wf_def node_at_with)
qed

lemma idx_path_with [simp]: "tree_wf t \<Longrightarrow> i < idx_counter t \<Longrightarrow> idx_path (with_refs f t) i = idx_path t i"
  using walk_idx_path [of t i] walk_idx_path_from [of "with_refs f t" 0 _ i] idx_path_root [of "with_refs f t"] by simp

lemma evs_with: "evs (with_refs f t) i d = evs t i d"
proof (induction t i d rule: evs.induct)
  case (1 t i d)
  have "map (\<lambda>c. evs (with_refs f t) c (d + 1)) (filter (\<lambda>c. i < c \<and> c < idx_counter t) (kids t i)) =
      map (\<lambda>c. evs t c (d + 1)) (filter (\<lambda>c. i < c \<and> c < idx_counter t) (kids t i))"
    using 1 by (intro map_cong refl) simp
  then show ?case unfolding evs.simps [of "with_refs f t" i] evs.simps [of t i] by (simp only: kids_with idx_counter_with)
qed

lemma upd_with: "upd (with_refs f t) e s = upd t e s"
  by (cases "(t, e, s)" rule: upd.cases) simp

lemma precompute_with [simp]: "tree_wf t \<Longrightarrow> precompute (with_refs f t) = precompute t"
proof -
  have "upd (with_refs f t) = upd t" by (intro ext) (rule upd_with)
  then show "tree_wf t \<Longrightarrow> ?thesis" by (simp add: precompute_ok euler_tour_of_def evs_with)
qed

lemma map_node_with:
  assumes "dict_wf (idx_to_node t)" "node_at t i \<noteq> None"
  shows "map_node i (set_reference r) t = Inr (with_refs (\<lambda>j s. if j = i then r else s) t)"
proof -
  obtain n where "node_at t i = Some n" using assms(2) by blast
  with map_snd_set [OF assms(1), of i n "set_reference r"] show ?thesis
    by (auto simp: map_node_def dict_lookup_def node_at_def with_refs_def intro!: path_tree.equality)
qed

lemma set_kids_with:
  assumes "dict_wf (idx_to_node t)" "\<forall>c \<in> set cs. node_at t c \<noteq> None"
  shows "rfold (\<lambda>c. map_node c (set_reference r)) cs t = Inr (with_refs (\<lambda>j s. if j \<in> set cs then r else s) t)"
  using assms
proof (induction cs arbitrary: t)
  case (Cons c cs)
  have "rfold (\<lambda>c. map_node c (set_reference r)) cs (with_refs (\<lambda>j s. if j = c then r else s) t) =
      Inr (with_refs (\<lambda>j s. if j \<in> set cs then r else s) (with_refs (\<lambda>j s. if j = c then r else s) t))"
    using Cons.prems by (intro Cons.IH) (auto simp: node_at_with)
  moreover have "(\<lambda>i. (\<lambda>s. if i \<in> set cs then r else s) \<circ> (\<lambda>s. if i = c then r else s)) = (\<lambda>j s. if j \<in> set (c # cs) then r else s)"
    by (auto simp: fun_eq_iff)
  ultimately show ?case using Cons.prems by (simp add: map_node_with with_refs_with)
qed (simp add: with_refs_id)

subsection \<open>Setting references along the Steiner tree\<close>

definition target :: "heap \<Rightarrow> slot \<Rightarrow> slot path_tree \<Rightarrow> nat \<Rightarrow> slot option" where
  "target h r t i = (case resolve h r (butlast (idx_path t i)) of Inl _ \<Rightarrow> None | Inr s \<Rightarrow> as_reference s)"

definition filled_refs :: "heap \<Rightarrow> slot \<Rightarrow> slot path_tree \<Rightarrow> nat set \<Rightarrow> slot path_tree" where
  "filled_refs h r t S = with_refs (\<lambda>i s. if i \<in> S then target h r t i else s) t"

lemma filled_refs_insert:
  assumes "tree_wf t" "v < idx_counter t"
  shows "map_node v (set_reference (target h r t v)) (filled_refs h r t S) = Inr (filled_refs h r t (insert v S))"
proof -
  have "node_at t v \<noteq> None" "dict_wf (idx_to_node t)" using assms by (simp_all add: tree_wf_def)
  moreover have "(\<lambda>i. (\<lambda>s. if i = v then target h r t v else s) \<circ> (\<lambda>s. if i \<in> S then target h r t i else s)) =
      (\<lambda>i s. if i \<in> insert v S then target h r t i else s)" by (auto simp: fun_eq_iff)
  ultimately show ?thesis by (simp add: filled_refs_def map_node_with node_at_with with_refs_with)
qed

lemma resolve_parent:
  assumes "resolve h s (q @ [e]) = Inr (SRef a)"
  obtains b where "resolve h s q = Inr (SRef b)"
proof -
  from assms obtain x where x: "resolve h s q = Inr x" "heap_child h x e = Inr (SRef a)"
    by (auto simp: resolve_append rbind_eq_Inr_iff)
  then show ?thesis using that by (cases x) (auto simp: heap_child_def split: if_splits)
qed

lemma idx_path_kid:
  assumes "tree_wf t" "v \<in> set (kids t u)"
  obtains p where "idx_path t v = idx_path t u @ [p]" "walk t u [p] = Some v"
  using assms kid_path [OF assms] walk_idx_path_from [OF assms(1)] by blast

lemma reference_of_kid:
  assumes t: "tree_wf t" and v: "v \<in> set (kids t u)" and u: "u \<in> S" "u \<noteq> 0"
    and a: "resolve h r (idx_path t u) = Inr (SRef a)"
  shows "get_reference_from_direct_parent (deref h) v (filled_refs h r t S) = Inr (target h r t v)"
proof -
  have lt: "v < idx_counter t" "u < idx_counter t" using kids_wf [OF t v] by auto
  obtain n m where n: "node_at t u = Some n" "node_at t v = Some m" using tree_wf_node [OF t] lt by meson
  from kid_path [OF t v] n(1) obtain p where "get_child p n = Some v" by (auto simp: walk_Cons)
  with tree_wf_child [OF t n(1)] n(2) have par: "node_parent m = Some u" by fastforce
  from tree_wf_parent [OF t n(1) u(2)] obtain k where k: "node_parent n = Some k" "k < u" by blast
  then have path: "idx_path t u = idx_path t k @ [path_element n]" using n(1) by (simp add: idx_path.simps [of t u])
  from a resolve_parent obtain b where b: "resolve h r (idx_path t k) = Inr (SRef b)" unfolding path by blast
  then have "target h r t u = Some (SRef b)" by (simp add: target_def path as_reference_def)
  moreover have "heap_child h (SRef b) (path_element n) = Inr (SRef a)" using a b unfolding path by (simp add: resolve_append)
  moreover obtain q where "idx_path t v = idx_path t u @ [q]" using idx_path_kid [OF t v] .
  then have "target h r t v = Some (SRef a)" using a by (simp add: target_def as_reference_def)
  ultimately show ?thesis using n par u
    by (simp add: get_reference_from_direct_parent_def filled_refs_def dict_lookup_def node_at_def [symmetric] node_at_with
        deref_def as_reference_def)
qed

lemma bfs_children:
  assumes t: "tree_wf t" and u: "u \<noteq> 0" and a: "vs \<noteq> [] \<longrightarrow> resolve h r (idx_path t u) = Inr (SRef a)"
  shows "set vs \<subseteq> set (kids t u) \<Longrightarrow> u \<in> S \<Longrightarrow>
    rfold (\<lambda>v t. rbind (get_reference_from_direct_parent (deref h) v t) (\<lambda>r. map_node v (set_reference r) t)) vs (filled_refs h r t S) =
      Inr (filled_refs h r t (S \<union> set vs))"
  using a
proof (induction vs arbitrary: S)
  case (Cons v vs)
  then have v: "v \<in> set (kids t u)" "v < idx_counter t" using kids_wf [OF t] by auto
  have "rfold (\<lambda>v t. rbind (get_reference_from_direct_parent (deref h) v t) (\<lambda>r. map_node v (set_reference r) t)) vs
      (filled_refs h r t (insert v S)) = Inr (filled_refs h r t (insert v S \<union> set vs))"
    using Cons by simp
  then show ?case
    using reference_of_kid [OF t v(1) Cons.prems(2) u] Cons.prems(3) filled_refs_insert [OF t v(2)] by simp
qed simp

lemma sum_powers: "(\<Sum>v = Suc u..<N. 2 ^ (N - v)) < (2::nat) ^ (N - u)"
proof (induction "N - u" arbitrary: u)
  case (Suc d)
  then have "(\<Sum>v = Suc u..<N. 2 ^ (N - v)) = (if Suc u < N then 2 ^ (N - Suc u) + (\<Sum>v = Suc (Suc u)..<N. 2 ^ (N - v)) else (0::nat))"
    by (simp add: sum.atLeast_Suc_lessThan)
  moreover have "(\<Sum>v = Suc (Suc u)..<N. 2 ^ (N - v)) < (2::nat) ^ (N - Suc u)" using Suc by simp
  moreover have "(2::nat) ^ (N - u) = 2 * 2 ^ (N - Suc u)" using Suc.hyps(2) by (metis Suc_diff_Suc power_Suc zero_less_Suc zero_less_diff)
  ultimately show ?case by (simp split: if_splits)
qed simp

text \<open>A queue of nodes becomes lighter when a node is exchanged for some of its children.\<close>

definition weight :: "nat \<Rightarrow> nat list \<Rightarrow> nat" where
  "weight N q = sum_list (map (\<lambda>u. 2 ^ (N - u)) q)"

lemma weight_children:
  assumes "distinct vs" "\<And>v. v \<in> set vs \<Longrightarrow> u < v \<and> v < N"
  shows "weight N (rest @ vs) < weight N (u # rest)"
proof -
  have "weight N vs = (\<Sum>v \<in> set vs. 2 ^ (N - v))" using assms(1) by (simp add: weight_def sum_list_distinct_conv_sum_set)
  also have "\<dots> \<le> (\<Sum>v = Suc u..<N. 2 ^ (N - v))" using assms(2) by (intro sum_mono2) (auto simp: Suc_le_eq)
  also have "\<dots> < 2 ^ (N - u)" by (rule sum_powers)
  finally show ?thesis by (simp add: weight_def)
qed

lemma bfs_loop_fills:
  assumes t: "tree_wf t" and adj: "\<forall>u vs. dict_get adj u = Some vs \<longrightarrow> distinct vs \<and> set vs \<subseteq> set (kids t u)"
    and res: "\<forall>u vs. dict_get adj u = Some vs \<and> vs \<noteq> [] \<and> u \<noteq> 0 \<longrightarrow> (\<exists>a. resolve h r (idx_path t u) = Inr (SRef a))"
  shows "set q \<subseteq> S \<Longrightarrow> 0 \<notin> S \<Longrightarrow>
    \<forall>u \<in> S. u \<in> set q \<or> (\<forall>vs. dict_get adj u = Some vs \<longrightarrow> set vs \<subseteq> S) \<Longrightarrow>
    \<forall>i \<in> S. i < idx_counter t \<and> (\<exists>s. resolve h r (butlast (idx_path t i)) = Inr s) \<Longrightarrow>
    \<exists>S'. bfs_loop (deref h) adj q (filled_refs h r t S) = Some (Inr (filled_refs h r t S')) \<and> S \<subseteq> S' \<and> 0 \<notin> S' \<and>
      (\<forall>u \<in> S'. \<forall>vs. dict_get adj u = Some vs \<longrightarrow> set vs \<subseteq> S') \<and>
      (\<forall>i \<in> S'. i < idx_counter t \<and> (\<exists>s. resolve h r (butlast (idx_path t i)) = Inr s))"
proof (induction "weight (idx_counter t) q" arbitrary: q S rule: less_induct)
  case less
  show ?case
  proof (cases q)
    case Nil
    then have "bfs_loop (deref h) adj q (filled_refs h r t S) = Some (Inr (filled_refs h r t S))" by (subst bfs_loop.simps) simp
    moreover have "\<forall>u \<in> S. \<forall>vs. dict_get adj u = Some vs \<longrightarrow> set vs \<subseteq> S" using less.prems(3) Nil by simp
    ultimately show ?thesis using less.prems(2,4) by (intro exI [of _ S] conjI order_refl)
  next
    case (Cons u rest)
    define vs where "vs = (case dict_get adj u of None \<Rightarrow> [] | Some l \<Rightarrow> l)"
    have "distinct vs \<and> set vs \<subseteq> set (kids t u)"
    proof (cases "dict_get adj u")
      case (Some l)
      show ?thesis using adj [THEN spec, THEN spec, THEN mp, OF Some] unfolding vs_def Some option.case .
    qed (simp add: vs_def)
    then have vs: "distinct vs" "set vs \<subseteq> set (kids t u)" by blast+
    have u: "u \<in> S" using less.prems(1) Cons by simp
    then have "u \<noteq> 0" using less.prems(2) by metis
    note u = u this
    have "vs \<noteq> [] \<Longrightarrow> \<exists>a. resolve h r (idx_path t u) = Inr (SRef a)"
      using res u(2) by (auto simp: vs_def split: option.splits)
    then obtain a where a: "vs \<noteq> [] \<longrightarrow> resolve h r (idx_path t u) = Inr (SRef a)" by blast
    have step: "bfs_loop (deref h) adj q (filled_refs h r t S) = bfs_loop (deref h) adj (rest @ vs) (filled_refs h r t (S \<union> set vs))"
      unfolding Cons
      by (subst bfs_loop.simps)
        (simp only: vs_def [symmetric] Let_def list.case bfs_children [OF t u(2) a vs(2) u(1)] sum.case)
    have lt: "u < v \<and> v < idx_counter t" if "v \<in> set vs" for v using kids_wf [OF t] vs(2) that by auto
    have "resolve h r (butlast (idx_path t v)) = Inr (SRef a)" if "v \<in> set vs" for v
    proof -
      have "v \<in> set (kids t u)" "vs \<noteq> []" using vs(2) that by auto
      moreover obtain p where "idx_path t v = idx_path t u @ [p]" using idx_path_kid [OF t \<open>v \<in> set (kids t u)\<close>] .
      ultimately show ?thesis using a by simp
    qed
    then have ok: "\<forall>i \<in> S \<union> set vs. i < idx_counter t \<and> (\<exists>s. resolve h r (butlast (idx_path t i)) = Inr s)"
      using less.prems(4) lt by auto
    have light: "weight (idx_counter t) (rest @ vs) < weight (idx_counter t) q" unfolding Cons by (rule weight_children [OF vs(1) lt])
    have q': "set (rest @ vs) \<subseteq> S \<union> set vs" "0 \<notin> S \<union> set vs" using less.prems(1,2) lt Cons by auto
    have closed: "\<forall>w \<in> S \<union> set vs. w \<in> set (rest @ vs) \<or> (\<forall>ws. dict_get adj w = Some ws \<longrightarrow> set ws \<subseteq> S \<union> set vs)"
    proof
      fix w
      assume "w \<in> S \<union> set vs"
      then consider "w \<in> set (rest @ vs)" | "w \<in> S" "w \<notin> set q" | "w = u" using Cons by auto
      then show "w \<in> set (rest @ vs) \<or> (\<forall>ws. dict_get adj w = Some ws \<longrightarrow> set ws \<subseteq> S \<union> set vs)"
      proof cases
        case 2
        then show ?thesis using less.prems(3) by blast
      qed (simp_all add: vs_def)
    qed
    from less.hyps [OF light q' closed ok] obtain S' where S': "bfs_loop (deref h) adj (rest @ vs) (filled_refs h r t (S \<union> set vs)) = Some (Inr (filled_refs h r t S'))"
      "S \<union> set vs \<subseteq> S'" "0 \<notin> S'" "\<forall>u \<in> S'. \<forall>vs. dict_get adj u = Some vs \<longrightarrow> set vs \<subseteq> S'"
      "\<forall>i \<in> S'. i < idx_counter t \<and> (\<exists>s. resolve h r (butlast (idx_path t i)) = Inr s)"
      by (elim exE conjE)
    have "S \<subseteq> S'" using S'(2) by blast
    with S'(1,3,4,5) show ?thesis unfolding step by (intro exI [of _ S'] conjI)
  qed
qed

lemma resolve_prefix: "resolve h s (p @ q) = Inr (SRef a) \<Longrightarrow> \<exists>b. resolve h s p = Inr (SRef b)"
proof (induction q arbitrary: a rule: rev_induct)
  case (snoc e q)
  then show ?case using resolve_parent [of h s "p @ q" e a] by auto
qed simp

lemma desc_path: "tree_wf t \<Longrightarrow> v \<in> desc t u \<Longrightarrow> \<exists>ps. idx_path t v = idx_path t u @ ps"
  using walk_idx_path_from [of t u _ v] by (auto simp: desc_def)

lemma root_kids_filled:
  assumes t: "tree_wf t" and r: "r = SRef a"
  shows "rfold (\<lambda>c. map_node c (set_reference (Some r))) (kids t 0) t = Inr (filled_refs h r t (set (kids t 0)))"
proof -
  have "target h r t c = Some r" if c: "c \<in> set (kids t 0)" for c
  proof -
    obtain p where "idx_path t c = [p]" using idx_path_kid [OF t c] idx_path_root [OF t] by auto
    then show ?thesis by (simp add: target_def as_reference_def r)
  qed
  then have "(\<lambda>j s. if j \<in> set (kids t 0) then Some r else s) = (\<lambda>j s. if j \<in> set (kids t 0) then target h r t j else s)"
    by (auto simp: fun_eq_iff)
  moreover have "\<forall>c \<in> set (kids t 0). node_at t c \<noteq> None" "dict_wf (idx_to_node t)"
    using kids_wf [OF t] t by (simp_all add: tree_wf_def)
  ultimately show ?thesis using set_kids_with [of t "kids t 0" "Some r"] by (simp add: filled_refs_def)
qed

lemma steiner_closed:
  assumes t: "tree_wf t" and kids: "set (kids t 0) \<subseteq> S" "\<forall>u \<in> S. \<forall>vs. dict_get adj u = Some vs \<longrightarrow> set vs \<subseteq> S"
    and v: "v \<in> X" and adj: "\<forall>u. v \<in> desc t u \<longrightarrow> (\<exists>vs. dict_get adj u = Some vs \<and> (\<forall>c \<in> set (kids t u). v \<in> desc t c \<longrightarrow> c \<in> set vs))"
  shows "x < idx_counter t \<Longrightarrow> x \<noteq> 0 \<Longrightarrow> v \<in> desc t x \<Longrightarrow> x \<in> S"
proof (induction x rule: less_induct)
  case (less x)
  from parent_kid [OF t less.prems(1,2)] obtain a where a: "x \<in> set (kids t a)" "a < x" "a < idx_counter t" .
  show ?case
  proof (cases "a = 0")
    case True
    then show ?thesis using a(1) kids(1) by blast
  next
    case False
    have va: "v \<in> desc t a" using desc_trans [OF kid_desc [OF t a(1)] less.prems(3)] .
    from adj [THEN spec, THEN mp, OF this] obtain vs where vs: "dict_get adj a = Some vs" "x \<in> set vs" using a(1) less.prems(3) by blast
    have "a \<in> S" by (rule less.IH [OF a(2,3) False va])
    then show ?thesis using kids(2) vs by blast
  qed
qed

lemma references_found:
  assumes t: "tree_wf t" and tb: "precompute t = Some (Inr tb)" and r: "r = SRef a0"
    and nodes: "\<forall>i \<in> set nodes. i < idx_counter t \<and> i \<noteq> 0 \<and> (\<exists>a. resolve h r (butlast (idx_path t i)) = Inr (SRef a))"
  shows "\<exists>adj S. build_steiner_tree tb nodes = Some (Inr adj) \<and>
    bfs_set_references (deref h) adj r t = Some (Inr (filled_refs h r t S)) \<and> set nodes \<subseteq> S \<and> 0 \<notin> S \<and>
    (\<forall>i \<in> S. i < idx_counter t \<and> (\<exists>s. resolve h r (butlast (idx_path t i)) = Inr s))"
proof -
  have T: "tb = (euler_tour_of t, precompute_rmq (tour_depths (euler_tour_of t)))" using precompute_ok [OF t] tb by simp
  have lt: "set nodes \<subseteq> {..<idx_counter t}" using nodes by auto
  from path_tour.steiner_spans [OF t lt] obtain adj where
    b: "build_steiner_tree tb nodes = Some (Inr adj)" "fst ` set adj = {u. \<exists>v \<in> insert 0 (set nodes). v \<in> desc t u}"
    and lists: "\<forall>u vs. dict_get adj u = Some vs \<longrightarrow> distinct vs \<and> sorted (map ((!) (tin (euler_tour_of t))) vs) \<and>
      set vs = {c \<in> set (kids t u). \<exists>v \<in> set nodes. v \<in> desc t c}" unfolding T by (elim exE conjE)
  have dist: "distinct vs" if "dict_get adj u = Some vs" for u vs
    using lists [THEN spec, THEN spec, THEN mp, OF that] by (elim conjE)
  have members: "c \<in> set vs \<longleftrightarrow> c \<in> set (kids t u) \<and> (\<exists>v \<in> set nodes. v \<in> desc t c)" if "dict_get adj u = Some vs" for u vs c
    using lists [THEN spec, THEN spec, THEN mp, OF that] by (elim conjE) (simp only: mem_Collect_eq)
  have sub: "\<forall>u vs. dict_get adj u = Some vs \<longrightarrow> distinct vs \<and> set vs \<subseteq> set (kids t u)"
    by (intro allI impI conjI subsetI) (rule dist, assumption, drule members [THEN iffD1, THEN conjunct1, rotated], assumption+)
  have res: "\<forall>u vs. dict_get adj u = Some vs \<and> vs \<noteq> [] \<and> u \<noteq> 0 \<longrightarrow> (\<exists>a. resolve h r (idx_path t u) = Inr (SRef a))"
  proof (intro allI impI, elim conjE)
    fix u vs
    assume u: "dict_get adj u = Some vs" "vs \<noteq> []"
    then obtain c v where c: "c \<in> set (kids t u)" "v \<in> set nodes" "v \<in> desc t c" using members by (meson last_in_set)
    obtain p where p: "idx_path t c = idx_path t u @ [p]" using idx_path_kid [OF t c(1)] .
    from desc_path [OF t c(3)] obtain ps where "idx_path t v = idx_path t u @ p # ps" using p by auto
    then obtain qs where "butlast (idx_path t v) = idx_path t u @ qs" by (simp add: butlast_append)
    with nodes c(2) resolve_prefix show "\<exists>a. resolve h r (idx_path t u) = Inr (SRef a)" by metis
  qed
  let ?K = "set (kids t 0)"
  have K0: "0 \<notin> ?K" using kids_wf [OF t] by blast
  have Kok: "\<forall>i \<in> ?K. i < idx_counter t \<and> (\<exists>s. resolve h r (butlast (idx_path t i)) = Inr s)"
  proof
    fix c
    assume c: "c \<in> ?K"
    obtain p where "idx_path t c = [p]" using idx_path_kid [OF t c] idx_path_root [OF t] by auto
    then show "c < idx_counter t \<and> (\<exists>s. resolve h r (butlast (idx_path t c)) = Inr s)" using kids_wf [OF t c] by simp
  qed
  have "\<forall>u \<in> ?K. u \<in> ?K \<or> (\<forall>vs. dict_get adj u = Some vs \<longrightarrow> set vs \<subseteq> ?K)" by simp
  from bfs_loop_fills [OF t sub res order_refl K0 this Kok] obtain S where
    S: "bfs_loop (deref h) adj (kids t 0) (filled_refs h r t ?K) = Some (Inr (filled_refs h r t S))" "?K \<subseteq> S" "0 \<notin> S"
      "\<forall>u \<in> S. \<forall>vs. dict_get adj u = Some vs \<longrightarrow> set vs \<subseteq> S"
      "\<forall>i \<in> S. i < idx_counter t \<and> (\<exists>s. resolve h r (butlast (idx_path t i)) = Inr s)" by (elim exE conjE)
  have "0 < idx_counter t" using t by (simp add: tree_wf_def)
  from tree_wf_node [OF t this] obtain n where n: "node_at t 0 = Some n" by blast
  then have "kids t 0 = map snd (children n)" by (simp add: kids_def)
  with n S(1) have "bfs_set_references (deref h) adj r t = Some (Inr (filled_refs h r t S))"
    using root_kids_filled [OF t r, of h] by (simp add: bfs_set_references_def node_at_def)
  moreover have "set nodes \<subseteq> S"
  proof
    fix v
    assume v: "v \<in> set nodes"
    have "\<exists>vs. dict_get adj u = Some vs \<and> (\<forall>c \<in> set (kids t u). v \<in> desc t c \<longrightarrow> c \<in> set vs)" if "v \<in> desc t u" for u
    proof -
      have "u \<in> fst ` set adj" unfolding b(2) using v that by blast
      then obtain vs where "dict_get adj u = Some vs" using dict_get_not_None_iff [of adj u] by auto
      with members v show ?thesis by blast
    qed
    with steiner_closed [OF t S(2,4) v] nodes v show "v \<in> S" by (meson desc_self)
  qed
  ultimately show ?thesis using b(1) S(3,5) by (intro exI [of _ adj] exI [of _ S] conjI)
qed

subsection \<open>Performing the operations\<close>

text \<open>Every cached reference is the object its path leads to.\<close>

definition refs_right :: "heap \<Rightarrow> slot \<Rightarrow> slot path_tree \<Rightarrow> bool" where
  "refs_right h r t \<longleftrightarrow>
     (\<forall>i n s. node_at t i = Some n \<and> i \<noteq> 0 \<and> reference n = Some s \<longrightarrow> resolve h r (butlast (idx_path t i)) = Inr s)"

definition node_of :: "played_op \<Rightarrow> nat" where
  "node_of o' = the (fst (snd o'))"

definition spec_op :: "slot path_tree \<Rightarrow> played_op \<Rightarrow> val \<Rightarrow> operation" where
  "spec_op t o' x = (fst o', idx_path t (node_of o'), x)"

text \<open>An operation that can be played: it has one of the three codes, its path is known to the tree, is
  not the root, and a replacement is not at a negative position.\<close>

definition op_ok :: "slot path_tree \<Rightarrow> played_op \<Rightarrow> bool" where
  "op_ok t o' \<longleftrightarrow> op_code (fst o') \<and> fst (snd o') \<noteq> None \<and> node_of o' < idx_counter t \<and> node_of o' \<noteq> 0 \<and>
     (\<forall>n. node_at t (node_of o') = Some n \<longrightarrow> (\<forall>i < 0. fst o' = REPLACE_OPERATION \<longrightarrow> path_element n \<noteq> PInt i))"

lemma idx_path_node:
  assumes t: "tree_wf t" and n: "node_at t i = Some n" and "i \<noteq> 0"
  shows "idx_path t i = butlast (idx_path t i) @ [path_element n]"
proof -
  from tree_wf_parent [OF t n assms(3)] obtain k where "node_parent n = Some k" "k < i" by blast
  then show ?thesis using n by (subst (1 2) idx_path.simps) simp
qed

lemma below_path:
  assumes t: "tree_wf t" and "i < idx_counter t" "j < idx_counter t" and p: "idx_path t j = idx_path t i @ ps" "ps \<noteq> []"
  shows "j \<in> below t i"
  using walk_idx_path [OF t assms(3)] walk_idx_path [OF t assms(2)] p by (auto simp: walk_append below_def)

lemma reset_below:
  "tree_wf t \<Longrightarrow> i < idx_counter t \<Longrightarrow> reset_child_references i t = Some (Inr (clear_refs (below t i) t))"
  using reset_loop_step [of t i "[]" "{}"] by (simp add: reset_child_references_def reset_loop_Nil)

lemma op_step:
  assumes r: "rep h r v A" "distinct A" and x: "rep h s x B" "distinct B" "set A \<inter> set B = {}"
    and res: "resolve h r q = Inr (SRef a)" and op: "apply_op (ty, q @ [e], x) v = Inr v'" "op_code ty"
  obtains c c' A' where "h a = Some c" "cell_wf c" "cell_operation (SPrim VNone) ty s c e = Inr c'" "a \<in> set A"
    "rep (h(a \<mapsto> c')) r v' A'" "distinct A'" "set A' \<subseteq> set A \<union> set B"
proof -
  from op(1) obtain w w' where w: "sub_value v q = Inr w" "apply_operation ty x w e = Inr w'" "v' = put_value v q w'"
    unfolding apply_op_sub by (auto simp: rbind_eq_Inr_iff)
  from apply_operation_container [OF w(2) op(2)] obtain ww where ww: "view w = Some ww" by blast
  with w(2) obtain ww' where ww': "cell_operation VNone ty x ww e = Inr ww'" "w' = unview ww'"
    by (auto simp: apply_operation_cell rbind_eq_Inr_iff)
  from rep_focus [OF r w(1)] ww res obtain C where
    C: "rep h (SRef a) w C" "distinct C" "set C \<subseteq> set A"
    and put: "\<forall>h' x B'. rep h' (SRef a) x B' \<and> distinct B' \<and> (\<forall>b \<in> set A - set C. h' b = h b) \<and> set B' \<inter> (set A - set C) = {} \<longrightarrow>
       (\<exists>A'. rep h' r (put_value v q x) A' \<and> distinct A' \<and> set A' \<subseteq> set B' \<union> (set A - set C))" by auto
  from C(1) obtain c where c: "h a = Some c" "cell_wf c" "a \<in> set C" by (auto elim!: rep_refE)
  have "set C \<inter> set B = {}" using C(3) x(3) by auto
  from rep_operation [OF C(1,2) x(1,2) this ww c(1) ww'(1)] obtain c' D where
    D: "cell_operation (SPrim VNone) ty s c e = Inr c'" "rep (h(a \<mapsto> c')) (SRef a) w' D" "distinct D" "set D \<subseteq> set C \<union> set B"
    unfolding ww'(2) by blast
  have "\<forall>b \<in> set A - set C. (h(a \<mapsto> c')) b = h b" "set D \<inter> (set A - set C) = {}" using c(3) D(4) x(3) by auto
  with put D(2,3) obtain A' where A': "rep (h(a \<mapsto> c')) r v' A'" "distinct A'" "set A' \<subseteq> set D \<union> (set A - set C)"
    unfolding w(3) by blast
  then have "set A' \<subseteq> set A \<union> set B" using D(4) C(3) by blast
  with that [OF c(1,2) D(1) _ A'(1,2)] c(3) C(3) show ?thesis by blast
qed

lemma refs_right_step:
  assumes t: "tree_wf t" and i: "i < idx_counter t" "idx_path t i = q @ [e]"
    and r: "rep h r v A" "distinct A" "resolve h r q = Inr (SRef a)" "h a = Some c"
    and c': "\<And>p y. p \<noteq> e \<Longrightarrow> cell_child c p = Inr y \<Longrightarrow> cell_child c' p = Inr y"
    and right: "refs_right h r t"
  shows "refs_right (h(a \<mapsto> c')) r (clear_refs (below t i) t)"
  unfolding refs_right_def
proof (intro allI impI, elim conjE)
  fix j n s
  assume j: "node_at (clear_refs (below t i) t) j = Some n" "j \<noteq> 0" "reference n = Some s"
  then obtain m where m: "node_at t j = Some m" "n = (if j \<in> below t i then set_reference None m else m)"
    by (auto simp: node_at_clear)
  have nb: "j \<notin> below t i" using m(2) j(3) by (auto split: if_splits)
  with m have n: "node_at t j = Some n" by simp
  have lt: "j < idx_counter t" by (rule tree_wf_lt [OF t n])
  have "resolve h r (butlast (idx_path t j)) = Inr s" using right n j(2,3) by (auto simp: refs_right_def)
  moreover have "\<not> prefix (q @ [e]) (butlast (idx_path t j))"
  proof
    assume "prefix (q @ [e]) (butlast (idx_path t j))"
    then obtain ps where "butlast (idx_path t j) = idx_path t i @ ps" unfolding i(2) by (auto elim: prefixE)
    with idx_path_node [OF t n j(2)] have "idx_path t j = idx_path t i @ (ps @ [path_element n])" by simp
    from below_path [OF t i(1) lt this] nb show False by simp
  qed
  ultimately have "resolve (h(a \<mapsto> c')) r (butlast (idx_path t j)) = Inr s"
    by (intro resolve_others [OF r, of e c']) (auto intro: c')
  then show "resolve (h(a \<mapsto> c')) r (butlast (idx_path (clear_refs (below t i) t) j)) = Inr s"
    using t lt by (simp only: clear_refs_with idx_path_with)
qed

lemma play_ops_refines:
  assumes "tree_wf t" and "r = SRef a0" and "rep h r v A" and "reps h (map (\<lambda>o'. snd (snd o')) ops) xs B" and "distinct (A @ B)"
    and "refs_right h r t" and "\<forall>o' \<in> set ops. op_ok t o'"
    and "\<forall>o' \<in> set ops. \<exists>n a. node_at t (node_of o') = Some n \<and> reference n = Some (SRef a)"
    and "sorted_wrt (\<lambda>o1 o2. node_of o2 \<notin> below t (node_of o1)) ops"
    and "apply_ops (map2 (spec_op t) ops xs) v = Inr v'"
  shows "\<exists>h' f A'. play_ops ops h t n = Some (Inr (h', with_refs f t, n + length ops)) \<and> rep h' r v' A' \<and> distinct A' \<and>
    set A' \<subseteq> set A \<union> set B \<and> refs_right h' r (with_refs f t) \<and> (\<forall>b. b \<notin> set A \<union> set B \<longrightarrow> h' b = h b)"
  using assms
proof (induction ops arbitrary: h t v A xs B n)
  case Nil
  then have "xs = []" using reps_length by force
  with Nil have "v' = v" by (simp add: apply_ops_def)
  moreover have "with_refs (\<lambda>i s. s) t = t" by (rule with_refs_id) simp
  ultimately show ?case using Nil by (intro exI [of _ h] exI [of _ "\<lambda>i s. s"] exI [of _ A]) auto
next
  case (Cons o' ops)
  have ok: "op_ok t o'" using Cons.prems(7) by simp
  then obtain ty i s where o': "o' = (ty, Some i, s)" by (cases o') (auto simp: op_ok_def)
  note t = Cons.prems(1) and dist = Cons.prems(5)
  from Cons.prems(4) obtain x xs' B1 B2 where xs: "xs = x # xs'" "B = B1 @ B2" "rep h s x B1" "reps h (map (\<lambda>o'. snd (snd o')) ops) xs' B2"
    by (auto simp: o' elim: reps_ConsE)
  have node_i: "node_of o' = i" by (simp add: node_of_def o')
  have i: "i < idx_counter t" "i \<noteq> 0" "op_code ty" using ok unfolding op_ok_def node_i by (simp_all add: o')
  from Cons.prems(8) obtain nd a where nd: "node_at t i = Some nd" "reference nd = Some (SRef a)" unfolding node_i [symmetric] by auto
  define q where "q = butlast (idx_path t i)"
  have path: "idx_path t i = q @ [path_element nd]" unfolding q_def by (rule idx_path_node [OF t nd(1) i(2)])
  have res: "resolve h r q = Inr (SRef a)" using Cons.prems(6) nd i(2) unfolding refs_right_def q_def by blast
  from Cons.prems(10) obtain v1 where v1: "apply_op (ty, q @ [path_element nd], x) v = Inr v1" "apply_ops (map2 (spec_op t) ops xs') v1 = Inr v'"
    by (auto simp: apply_ops_def xs(1) spec_op_def node_i path rbind_eq_Inr_iff) (auto simp: o')
  have AB: "distinct A" "distinct B1" "set A \<inter> set B1 = {}" using dist xs(2) by auto
  from op_step [OF Cons.prems(3) AB(1) xs(3) AB(2,3) res v1(1) i(3)] obtain c c' A1 where
    c: "h a = Some c" "cell_wf c" "cell_operation (SPrim VNone) ty s c (path_element nd) = Inr c'" "a \<in> set A"
      "rep (h(a \<mapsto> c')) r v1 A1" "distinct A1" "set A1 \<subseteq> set A \<union> set B1" .
  let ?h = "h(a \<mapsto> c')" and ?t = "clear_refs (below t i) t"
  have others: "cell_child c' p = Inr y" if "p \<noteq> path_element nd" "cell_child c p = Inr y" for p y
    using ok nd(1) unfolding op_ok_def node_i by (intro cell_operation_others [OF c(2,3) that]) (simp add: o')
  have right: "refs_right ?h r ?t"
    by (rule refs_right_step [OF t i(1) path Cons.prems(3) AB(1) res c(1) others Cons.prems(6)])
  have step: "play_ops (o' # ops) h t n = play_ops ops ?h ?t (n + 1)"
  proof -
    have "node_index nd = i" using t nd(1) by (auto simp: tree_wf_def node_ok_def)
    then show ?thesis using nd c(1,3) reset_below [OF t i(1)]
      by (simp add: o' path_node_def dict_lookup_def node_at_def heap_operation_def)
  qed
  have node: "node_at ?t j = Some m" if "node_at t j = Some m" "j \<notin> below t i" for j m using that by (simp add: node_at_clear)
  have later: "node_of o2 \<notin> below t i" if "o2 \<in> set ops" for o2 using Cons.prems(9) that node_i by simp
  have tw: "tree_wf ?t" using t by (simp add: clear_refs_with)
  have B2: "reps ?h (map (\<lambda>o'. snd (snd o')) ops) xs' B2" by (rule rep_frame(2) [OF xs(4)]) (use c(4) dist xs(2) in auto)
  have dist': "distinct (A1 @ B2)" using c(6,7) dist xs(2) by auto
  have oks: "\<forall>o2 \<in> set ops. op_ok ?t o2"
    using Cons.prems(7) by (auto simp: op_ok_def clear_refs_with node_at_with)
  have refs: "\<forall>o2 \<in> set ops. \<exists>n a. node_at ?t (node_of o2) = Some n \<and> reference n = Some (SRef a)"
    using Cons.prems(8) node later by (metis list.set_intros(2))
  have indep: "sorted_wrt (\<lambda>o1 o2. node_of o2 \<notin> below ?t (node_of o1)) ops" using Cons.prems(9) by simp
  have "map2 (spec_op ?t) ops xs' = map2 (spec_op t) ops xs'"
  proof (rule map_cong [OF refl], clarify)
    fix a b c y
    assume "((a, b, c), y) \<in> set (zip ops xs')"
    then have "op_ok t (a, b, c)" using Cons.prems(7) by (auto dest: set_zip_leftD)
    then show "spec_op ?t (a, b, c) y = spec_op t (a, b, c) y" using t by (simp add: spec_op_def op_ok_def clear_refs_with)
  qed
  with v1(2) have spec: "apply_ops (map2 (spec_op ?t) ops xs') v1 = Inr v'" by (simp only:)
  from Cons.IH [OF tw Cons.prems(2) c(5) B2 dist' right oks refs indep spec, of "n + 1"] obtain h' f A' where
    fin: "play_ops ops ?h ?t (n + 1) = Some (Inr (h', with_refs f ?t, n + 1 + length ops))" "rep h' r v' A'" "distinct A'"
      "set A' \<subseteq> set A1 \<union> set B2" "refs_right h' r (with_refs f ?t)" "\<forall>b. b \<notin> set A1 \<union> set B2 \<longrightarrow> h' b = ?h b" by blast
  obtain g where g: "with_refs f ?t = with_refs g t" unfolding clear_refs_with with_refs_with by blast
  have "set A' \<subseteq> set A \<union> set B" using fin(4) c(7) xs(2) by auto
  moreover have "\<forall>b. b \<notin> set A \<union> set B \<longrightarrow> h' b = h b" using fin(6) c(4,7) xs(2) by auto
  ultimately show ?case using step fin(1-3,5) unfolding g by (intro exI [of _ h'] exI [of _ g] exI [of _ A']) simp
qed

subsection \<open>Playing a patch\<close>

text \<open>A state that is ready to play: the game state stands for the value \<open>v\<close> without sharing, on the
  addresses \<open>A\<close>, the path tree is well formed, its tables are computed and its references are right.\<close>

definition ready :: "tables \<Rightarrow> slot \<Rightarrow> val \<Rightarrow> addr list \<Rightarrow> 'c play_state \<Rightarrow> bool" where
  "ready tb r v A s \<longleftrightarrow> (\<exists>a. r = SRef a) \<and> rep (p_heap s) r v A \<and> distinct A \<and> tree_wf (p_tree s) \<and>
     precompute (p_tree s) = Some (Inr tb) \<and> refs_right (p_heap s) r (p_tree s)"

definition silent :: "'c play_state \<Rightarrow> bool" where
  "silent s \<longleftrightarrow> (case p_hooks s of None \<Rightarrow> True | Some hs \<Rightarrow> hs_hooks hs = [])"

lemma unknown_paths_ok:
  assumes t: "tree_wf t"
  shows "\<forall>o' \<in> set ops. op_ok t o' \<Longrightarrow>
    unknown_paths h t ops = Inr (map node_of (filter (\<lambda>o'. \<not> truthy h (Option.bind (node_at t (node_of o')) reference)) ops))"
proof -
  let ?f = "\<lambda>(op_type, path_idx, value) unknown. rbind (path_node t path_idx) (\<lambda>n.
       Inr (if truthy h (reference n) then unknown else unknown @ [the path_idx]))"
  have "\<forall>o' \<in> set ops. op_ok t o' \<Longrightarrow> rfold ?f ops acc =
    Inr (acc @ map node_of (filter (\<lambda>o'. \<not> truthy h (Option.bind (node_at t (node_of o')) reference)) ops))" for acc
  proof (induction ops arbitrary: acc)
    case (Cons o' ops)
    then obtain ty i x where o': "o' = (ty, Some i, x)" "i < idx_counter t" by (cases o') (auto simp: op_ok_def node_of_def)
    then obtain n where "node_at t i = Some n" using tree_wf_node [OF t] by blast
    then show ?case using Cons by (simp add: o' path_node_def dict_lookup_def node_at_def node_of_def)
  qed simp
  then show "\<forall>o' \<in> set ops. op_ok t o' \<Longrightarrow> ?thesis" by (simp add: unknown_paths_def)
qed

text \<open>The container an operation works on exists before the patch.\<close>

definition container_there :: "slot path_tree \<Rightarrow> val \<Rightarrow> played_op \<Rightarrow> bool" where
  "container_there t v o' \<longleftrightarrow>
     (case sub_value v (butlast (idx_path t (node_of o'))) of Inl _ \<Rightarrow> False | Inr w \<Rightarrow> is_container w)"

definition patch_ok :: "slot path_tree \<Rightarrow> val \<Rightarrow> played_op list \<Rightarrow> bool" where
  "patch_ok t v ops \<longleftrightarrow> (\<forall>o' \<in> set ops. op_ok t o' \<and> container_there t v o') \<and>
     sorted_wrt (\<lambda>o1 o2. node_of o2 \<notin> below t (node_of o1)) ops"

lemma container_resolves:
  assumes "rep h r v A" "distinct A" "container_there t v o'"
  shows "\<exists>a. resolve h r (butlast (idx_path t (node_of o'))) = Inr (SRef a)"
proof -
  from assms(3) obtain w where "sub_value v (butlast (idx_path t (node_of o'))) = Inr w" "view w \<noteq> None"
    by (auto simp: container_there_def view_container split: sum.splits)
  from rep_focus [OF assms(1,2) this] show ?thesis by blast
qed

lemma refs_right_filled:
  assumes t: "tree_wf t" and right: "refs_right h r t"
    and S: "\<forall>i \<in> S. i < idx_counter t \<and> (\<exists>s. resolve h r (butlast (idx_path t i)) = Inr s)"
  shows "refs_right h r (filled_refs h r t S)"
  unfolding refs_right_def
proof (intro allI impI, elim conjE)
  fix i n s
  assume i: "node_at (filled_refs h r t S) i = Some n" "i \<noteq> 0" "reference n = Some s"
  then obtain m where m: "node_at t i = Some m" "n = set_reference (if i \<in> S then target h r t i else reference m) m"
    by (auto simp: filled_refs_def node_at_with)
  have "resolve h r (butlast (idx_path t i)) = Inr s"
  proof (cases "i \<in> S")
    case True
    with S obtain s' where "resolve h r (butlast (idx_path t i)) = Inr s'" by blast
    with True m(2) i(3) show ?thesis by (simp add: target_def as_reference_def split: if_splits)
  next
    case False
    with right m i(2,3) show ?thesis by (simp add: refs_right_def)
  qed
  then show "resolve h r (butlast (idx_path (filled_refs h r t S) i)) = Inr s"
    using t tree_wf_lt [OF t m(1)] by (simp add: filled_refs_def)
qed

lemma filled_known:
  assumes t: "tree_wf t" and right: "refs_right h r t" and o': "op_ok t o'"
    and a: "resolve h r (butlast (idx_path t (node_of o'))) = Inr (SRef a)"
    and S: "\<not> truthy h (Option.bind (node_at t (node_of o')) reference) \<longrightarrow> node_of o' \<in> S"
  shows "\<exists>n. node_at (filled_refs h r t S) (node_of o') = Some n \<and> reference n = Some (SRef a)"
proof -
  let ?i = "node_of o'"
  have i: "?i < idx_counter t" "?i \<noteq> 0" using o' by (simp_all add: op_ok_def)
  then obtain n where n: "node_at t ?i = Some n" using tree_wf_node [OF t] by blast
  have target: "target h r t ?i = Some (SRef a)" using a by (simp add: target_def as_reference_def)
  show ?thesis
  proof (cases "?i \<in> S")
    case True
    then show ?thesis using n target by (simp add: filled_refs_def node_at_with)
  next
    case False
    with S n have "truthy h (reference n)" by simp
    then obtain s where s: "reference n = Some s" by (auto simp: truthy_def split: option.splits)
    then have "s = SRef a" using right n i(2) a by (auto simp: refs_right_def)
    with False n s show ?thesis by (simp add: filled_refs_def node_at_with)
  qed
qed

lemma patch_plays:
  assumes ready: "ready tb r v A s" and silent: "silent s"
    and vals: "reps (p_heap s) (map (\<lambda>o'. snd (snd o')) ops) xs B" "distinct (A @ B)"
    and ok: "patch_ok (p_tree s) v ops" and spec: "apply_ops (map2 (spec_op (p_tree s)) ops xs) v = Inr v'"
  shows "\<exists>h' f A'. apply_patch fuel tb r ops s =
      Some (Inr (s\<lparr>p_heap := h', p_tree := with_refs f (p_tree s), p_counter := p_counter s + length ops\<rparr>)) \<and>
    ready tb r v' A' (s\<lparr>p_heap := h', p_tree := with_refs f (p_tree s), p_counter := p_counter s + length ops\<rparr>) \<and>
    set A' \<subseteq> set A \<union> set B \<and> (\<forall>b. b \<notin> set A \<union> set B \<longrightarrow> h' b = p_heap s b)"
proof -
  let ?h = "p_heap s" and ?t = "p_tree s"
  from ready obtain a0 where r: "r = SRef a0" "rep ?h r v A" "distinct A" and t: "tree_wf ?t" and tb: "precompute ?t = Some (Inr tb)"
    and right: "refs_right ?h r ?t" by (auto simp: ready_def)
  have oks: "\<forall>o' \<in> set ops. op_ok ?t o'" using ok by (simp add: patch_ok_def)
  have there: "\<exists>a. resolve ?h r (butlast (idx_path ?t (node_of o'))) = Inr (SRef a)" if "o' \<in> set ops" for o'
    using ok that by (intro container_resolves [OF r(2,3)]) (simp add: patch_ok_def)
  let ?unknown = "map node_of (filter (\<lambda>o'. \<not> truthy ?h (Option.bind (node_at ?t (node_of o')) reference)) ops)"
  have unknown: "unknown_paths ?h ?t ops = Inr ?unknown" by (rule unknown_paths_ok [OF t oks])
  have "\<forall>i \<in> set ?unknown. i < idx_counter ?t \<and> i \<noteq> 0 \<and> (\<exists>a. resolve ?h r (butlast (idx_path ?t i)) = Inr (SRef a))"
    using oks there by (auto simp: op_ok_def)
  from references_found [OF t tb r(1) this] obtain adj S where
    adj: "build_steiner_tree tb ?unknown = Some (Inr adj)"
      "bfs_set_references (deref ?h) adj r ?t = Some (Inr (filled_refs ?h r ?t S))" "set ?unknown \<subseteq> S"
      "\<forall>i \<in> S. i < idx_counter ?t \<and> (\<exists>s. resolve ?h r (butlast (idx_path ?t i)) = Inr s)" by (elim exE conjE)
  let ?t1 = "filled_refs ?h r ?t S"
  have t1: "tree_wf ?t1" "refs_right ?h r ?t1" using t refs_right_filled [OF t right adj(4)] by (simp_all add: filled_refs_def)
  have path: "idx_path ?t1 (node_of o') = idx_path ?t (node_of o')" if "op_ok ?t o'" for o'
    using t that by (simp add: filled_refs_def op_ok_def)
  have oks1: "\<forall>o' \<in> set ops. op_ok ?t1 o'" using oks by (auto simp: op_ok_def filled_refs_def node_at_with)
  have known: "\<forall>o' \<in> set ops. \<exists>n a. node_at ?t1 (node_of o') = Some n \<and> reference n = Some (SRef a)"
  proof
    fix o'
    assume o': "o' \<in> set ops"
    with there obtain a where a: "resolve ?h r (butlast (idx_path ?t (node_of o'))) = Inr (SRef a)" by blast
    have "\<not> truthy ?h (Option.bind (node_at ?t (node_of o')) reference) \<longrightarrow> node_of o' \<in> S" using adj(3) o' by auto
    from filled_known [OF t right _ a this] oks o' show "\<exists>n a. node_at ?t1 (node_of o') = Some n \<and> reference n = Some (SRef a)"
      by blast
  qed
  have indep: "sorted_wrt (\<lambda>o1 o2. node_of o2 \<notin> below ?t1 (node_of o1)) ops" using ok by (simp add: patch_ok_def filled_refs_def)
  have "map2 (spec_op ?t1) ops xs = map2 (spec_op ?t) ops xs"
    by (rule map_cong [OF refl], clarify) (use oks path in \<open>auto simp: spec_op_def dest!: set_zip_leftD\<close>)
  with spec have spec1: "apply_ops (map2 (spec_op ?t1) ops xs) v = Inr v'" by (simp only:)
  from play_ops_refines [OF t1(1) r(1,2) vals t1(2) oks1 known indep spec1, of "p_counter s"] obtain h' f A' where
    fin: "play_ops ops ?h ?t1 (p_counter s) = Some (Inr (h', with_refs f ?t1, p_counter s + length ops))" "rep h' r v' A'"
      "distinct A'" "set A' \<subseteq> set A \<union> set B" "refs_right h' r (with_refs f ?t1)"
      "\<forall>b. b \<notin> set A \<union> set B \<longrightarrow> h' b = ?h b" by (elim exE conjE)
  obtain g where g: "with_refs f ?t1 = with_refs g ?t" unfolding filled_refs_def with_refs_with by blast
  have "apply_patch fuel tb r ops s = Some (Inr (s\<lparr>p_heap := h', p_tree := with_refs g ?t, p_counter := p_counter s + length ops\<rparr>))"
  proof (cases "p_hooks s")
    case None
    then show ?thesis by (simp add: apply_patch_def unknown adj(1,2) fin(1) g)
  next
    case (Some hs)
    then have "hs_hooks hs = []" using silent by (simp add: silent_def)
    then show ?thesis using Some by (simp add: apply_patch_def unknown adj(1,2) get_old_values_def fin(1) g)
  qed
  moreover have "ready tb r v' A' (s\<lparr>p_heap := h', p_tree := with_refs g ?t, p_counter := p_counter s + length ops\<rparr>)"
    using r(1) t tb fin(2,3) fin(5) [unfolded g] by (simp add: ready_def)
  ultimately show ?thesis using fin(4,6) by (intro exI [of _ h'] exI [of _ g] exI [of _ A'] conjI)
qed

subsection \<open>Playing several patches\<close>

text \<open>The loop of \<open>_apply_patches_and_update_state\<close> (\<open>interface/replay_interface.py\<close>).\<close>

fun apply_patches ::
    "nat \<Rightarrow> tables \<Rightarrow> slot \<Rightarrow> played_op list list \<Rightarrow> 'c play_state \<Rightarrow> 'c play_state result option" where
  "apply_patches fuel tb game_state [] s = Some (Inr s)"
| "apply_patches fuel tb game_state (p # ps) s =
     obind (apply_patch fuel tb game_state p s) (apply_patches fuel tb game_state ps)"

text \<open>What the patches mean: their operations applied along their paths, one patch after the other,
  every patch being playable when its turn comes.\<close>

fun run_patches :: "slot path_tree \<Rightarrow> (played_op list \<times> val list) list \<Rightarrow> val \<Rightarrow> val option" where
  "run_patches t [] v = Some v"
| "run_patches t ((ops, xs) # ps) v =
     (if patch_ok t v ops
      then (case apply_ops (map2 (spec_op t) ops xs) v of Inl _ \<Rightarrow> None | Inr v' \<Rightarrow> run_patches t ps v')
      else None)"

definition op_values :: "played_op list \<Rightarrow> slot list" where
  "op_values ops = map (\<lambda>o'. snd (snd o')) ops"

lemma patch_ok_with: "tree_wf t \<Longrightarrow> patch_ok (with_refs f t) v ops \<longleftrightarrow> patch_ok t v ops"
proof -
  assume t: "tree_wf t"
  have "op_ok (with_refs f t) o' \<longleftrightarrow> op_ok t o'" for o'
    by (cases "node_at t (node_of o')") (auto simp: op_ok_def node_at_with)
  moreover have "container_there (with_refs f t) v o' \<longleftrightarrow> container_there t v o'" if "op_ok t o'" for o'
    using t that by (simp add: container_there_def op_ok_def)
  ultimately show ?thesis by (auto simp: patch_ok_def)
qed

lemma run_patches_with: "tree_wf t \<Longrightarrow> run_patches (with_refs f t) ps v = run_patches t ps v"
proof (induction ps arbitrary: v)
  case (Cons p ps)
  obtain ops xs where p: "p = (ops, xs)" by fastforce
  show ?case
  proof (cases "patch_ok t v ops")
    case True
    then have "map2 (spec_op (with_refs f t)) ops xs = map2 (spec_op t) ops xs"
      using Cons.prems by (intro map_cong refl) (auto simp: spec_op_def patch_ok_def op_ok_def dest!: set_zip_leftD)
    then show ?thesis unfolding p run_patches.simps patch_ok_with [OF Cons.prems] Cons.IH [OF Cons.prems] by (simp only:)
  qed (simp add: p patch_ok_with [OF Cons.prems])
qed simp

lemma patches_play:
  assumes "ready tb r v A s" and "silent s" and "run_patches (p_tree s) ps v = Some v'"
    and "reps (p_heap s) (concat (map (\<lambda>p. op_values (fst p)) ps)) (concat (map snd ps)) B" and "distinct (A @ B)"
    and "\<forall>(ops, xs) \<in> set ps. length ops = length xs"
  shows "\<exists>s' A'. apply_patches fuel tb r (map fst ps) s = Some (Inr s') \<and> ready tb r v' A' s'"
  using assms
proof (induction ps arbitrary: v A s B)
  case Nil
  then show ?case by auto
next
  case (Cons p ps)
  obtain ops xs where p: "p = (ops, xs)" by fastforce
  from Cons.prems(3) obtain v1 where v1: "patch_ok (p_tree s) v ops" "apply_ops (map2 (spec_op (p_tree s)) ops xs) v = Inr v1"
    "run_patches (p_tree s) ps v1 = Some v'" by (auto simp: p split: if_splits sum.splits)
  have "reps (p_heap s) (op_values ops @ concat (map (\<lambda>p. op_values (fst p)) ps)) (xs @ concat (map snd ps)) B"
    using Cons.prems(4) by (simp add: p)
  from reps_split [OF this] obtain vs1 vs2 B1 B2 where
    B: "xs @ concat (map snd ps) = vs1 @ vs2" "B = B1 @ B2" "reps (p_heap s) (op_values ops) vs1 B1"
      "reps (p_heap s) (concat (map (\<lambda>p. op_values (fst p)) ps)) vs2 B2" by (elim exE conjE)
  have "length vs1 = length xs" using reps_length [OF B(3)] Cons.prems(6) by (simp add: p op_values_def)
  with B(1) have vs: "vs1 = xs" "vs2 = concat (map snd ps)" by auto
  have d: "distinct (A @ B1)" using Cons.prems(5) B(2) by auto
  from patch_plays [OF Cons.prems(1,2) B(3) [unfolded op_values_def vs] d v1(1,2), of fuel] obtain h' f A' s1 where
    s1: "apply_patch fuel tb r ops s = Some (Inr s1)" "ready tb r v1 A' s1"
      "s1 = s\<lparr>p_heap := h', p_tree := with_refs f (p_tree s), p_counter := p_counter s + length ops\<rparr>"
      "set A' \<subseteq> set A \<union> set B1" "\<forall>b. b \<notin> set A \<union> set B1 \<longrightarrow> h' b = p_heap s b" by blast
  have t: "tree_wf (p_tree s)" using Cons.prems(1) by (simp add: ready_def)
  have "silent s1" using Cons.prems(2) by (simp add: s1(3) silent_def)
  moreover have "run_patches (p_tree s1) ps v1 = Some v'" using v1(3) by (simp add: s1(3) run_patches_with [OF t])
  moreover have "reps (p_heap s1) (concat (map (\<lambda>p. op_values (fst p)) ps)) (concat (map snd ps)) B2"
    by (rule rep_frame(2) [OF B(4) [unfolded vs]]) (use s1(3,5) Cons.prems(5) B(2) in auto)
  moreover have "distinct A'" using s1(2) by (simp add: ready_def)
  then have "distinct (A' @ B2)" using s1(4) Cons.prems(5) B(2) by auto
  ultimately show ?case using Cons.IH [OF s1(2)] Cons.prems(6) s1(1) by (simp add: p)
qed

subsection \<open>Properties\<close>

definition live_tree :: "slot path_tree" where
  "live_tree = (case fill_with_paths [[PStr ''states'', PStr ''armies'', PInt 7, PStr ''hp'']] new_path_tree of
     Inr (t, _) \<Rightarrow> t | Inl _ \<Rightarrow> new_path_tree)"

definition live_heap :: heap where
  "live_heap = [0 \<mapsto> OCell ''GameState'' [(''states'', SRef 1)], 1 \<mapsto> OCell ''States'' [(''armies'', SRef 2)],
     2 \<mapsto> DCell ''HashMap'' [], 3 \<mapsto> OCell ''Army'' [(''hp'', SPrim (VInt 5))]]"

definition live_state :: "nat play_state" where
  "live_state = \<lparr>p_heap = live_heap, p_tree = live_tree, p_hooks = None, p_counter = 0\<rparr>"

definition live_value :: "(key \<times> val) list \<Rightarrow> val" where
  "live_value armies = VObj ''GameState'' [(''states'', VObj ''States'' [(''armies'', VDict ''HashMap'' armies)])]"

definition army :: "int \<Rightarrow> (key \<times> val)" where
  "army hp = (KP (PInt 7), VObj ''Army'' [(''hp'', VInt hp)])"

lemma live_tree_wf: "tree_wf live_tree"
  using fill_paths_ok [OF filled_refl [OF tree_wf_new [where 'a = slot]], of "[[PStr ''states'', PStr ''armies'', PInt 7, PStr ''hp'']]"]
  by (auto simp: live_tree_def fill_with_paths_def grows_def)

text \<open>C2: playing patches on the live game state, with its references, its Steiner trees and its objects
  changed in place, does what applying the operations one after the other along their paths does: it
  ends without an error, the game state stands for the resulting value, and everything is ready for the
  next patch.  The objects of the state and of the patches are not shared, the container of every
  operation exists before its patch, no operation is below an earlier one of its patch, and no hook is
  registered.\<close>

theorem apply_patches_play:
  assumes "ready tb r v A s" and "silent s" and "run_patches (p_tree s) ps v = Some v'"
    and "reps (p_heap s) (concat (map (\<lambda>p. op_values (fst p)) ps)) (concat (map snd ps)) B" and "distinct (A @ B)"
    and "\<forall>(ops, xs) \<in> set ps. length ops = length xs"
  shows "\<exists>s' A'. apply_patches fuel tb r (map fst ps) s = Some (Inr s') \<and> ready tb r v' A' s'"
  by (rule patches_play [OF assms])

lemmas live_eval = live_tree_def path_tree_eval

lemma live_ready: "\<exists>tb. ready tb (SRef 0) (live_value []) [0, 1, 2] live_state"
proof -
  have d: "rep live_heap (SRef 2) (VDict ''HashMap'' []) [2]"
    by (rule rep_reps.cell [where c = "DCell ''HashMap'' []"]) (auto simp: live_heap_def intro: rep_reps.nil)
  have "reps live_heap [SRef 2] [VDict ''HashMap'' []] ([2] @ [])" by (rule rep_reps.cons [OF d rep_reps.nil])
  then have o1: "rep live_heap (SRef 1) (VObj ''States'' [(''armies'', VDict ''HashMap'' [])]) [1, 2]"
    by (intro rep_reps.cell [where c = "OCell ''States'' [(''armies'', SRef 2)]"]) (auto simp: live_heap_def)
  have "reps live_heap [SRef 1] [VObj ''States'' [(''armies'', VDict ''HashMap'' [])]] ([1, 2] @ [])"
    by (rule rep_reps.cons [OF o1 rep_reps.nil])
  then have "rep live_heap (SRef 0) (live_value []) [0, 1, 2]"
    by (intro rep_reps.cell [where c = "OCell ''GameState'' [(''states'', SRef 1)]"]) (auto simp: live_heap_def live_value_def)
  moreover have "refs_right live_heap (SRef 0) live_tree"
    by (auto simp: refs_right_def live_eval split: if_splits)
  ultimately show ?thesis
    using live_tree_wf precompute_ok [OF live_tree_wf] by (auto simp: ready_def live_state_def)
qed

theorem apply_patches_play_witness:
  "\<exists>tb s' A'. apply_patches 5 tb (SRef 0) [[(ADD_OPERATION, Some 3, SRef 3)]] live_state = Some (Inr s') \<and>
     ready tb (SRef 0) (live_value [army 5]) A' s'"
proof -
  from live_ready obtain tb where tb: "ready tb (SRef 0) (live_value []) [0, 1, 2] live_state" ..
  let ?ops = "[(ADD_OPERATION, Some 3, SRef 3)]"
  let ?ps = "[(?ops, [snd (army 5)])]"
  have sil: "silent live_state" by (simp add: silent_def live_state_def)
  have run: "run_patches (p_tree live_state) [(?ops, [snd (army 5)])] (live_value []) = Some (live_value [army 5])"
    by (simp add: live_state_def live_eval patch_ok_def op_ok_def node_of_def op_code_def op_codes container_there_def live_value_def
        child_ref_def is_container_def spec_op_def apply_ops_def apply_operation_def apply_add_def set_child_def army_def)
  have "rep live_heap (SPrim (VInt 5)) (VInt 5) []" by (rule rep_reps.prim) (simp add: is_container_def)
  then have "reps live_heap [SPrim (VInt 5)] [VInt 5] ([] @ [])" by (rule rep_reps.cons [OF _ rep_reps.nil])
  then have "rep live_heap (SRef 3) (snd (army 5)) [3]"
    by (intro rep_reps.cell [where c = "OCell ''Army'' [(''hp'', SPrim (VInt 5))]"]) (auto simp: live_heap_def army_def)
  then have "reps live_heap [SRef 3] [snd (army 5)] ([3] @ [])" by (rule rep_reps.cons [OF _ rep_reps.nil])
  then have vals: "reps (p_heap live_state) (concat (map (\<lambda>p. op_values (fst p)) ?ps)) (concat (map snd ?ps)) [3]"
    by (simp add: live_state_def op_values_def)
  have "distinct ([0, 1, 2] @ [3 :: nat])" "\<forall>(ops, xs) \<in> set ?ps. length ops = length xs" by simp_all
  from apply_patches_play [OF tb sil run vals this, of 5] show ?thesis unfolding list.map fst_conv by (rule exI)
qed



end
