(* ===== verification/Navigation.thy ===== *)
theory Navigation
  imports Timeline LongPatch Hooks
begin

text \<open>
  Moving through a replay: \<open>ReplayInterface\<close> (\<open>interface/replay_interface.py\<close>).

  The interface keeps the time that is shown, its position among the recorded times, the current
  segment and a hook system per segment.  A segment is identified by its key in the timeline; the game
  state that is shown is the one of the current segment, since the program keeps the same object in
  both places.  Here a game state is a value and a patch is played on it by applying its operations
  along their paths, which is what theory \<open>Playing\<close> shows of the live objects.  No trigger on changes of
  attributes is registered, so that a patch adds nothing to the queue of the hook system; the entries
  that are in the queue, and the events of a change of segment, are handled.  The callbacks are run
  with their effect \<open>run\<close> on the outside world.

  The loading of the static map data and the choice of the player that is shown are not part of this
  theory.  The theorems say what a jump shows, what the neighbouring recorded times are, and when
  the position and the time that is shown no longer agree.
\<close>

subsection \<open>State\<close>

record ('c, 'r, 'w) replay_interface =
  if_time :: "datetime option"
  if_index :: nat
  if_replay :: "'r timeline option"
  if_current :: "seg_key option"
  if_hooks :: "(seg_key, ('c, 'r) hook_system) dict"
  if_world :: 'w

definition LONG_PATCH_THRESHOLD :: int where "LONG_PATCH_THRESHOLD = 10"

definition current_segment :: "('c, 'r, 'w) replay_interface \<Rightarrow> 'r segment result" where
  "current_segment I =
     rbind (have_attr (if_replay I)) (\<lambda>tln. rbind (have_attr (if_current I)) (\<lambda>k. dict_lookup (segments tln) k))"

definition put_segment :: "'r segment \<Rightarrow> ('c, 'r, 'w) replay_interface \<Rightarrow> ('c, 'r, 'w) replay_interface result" where
  "put_segment g I =
     rbind (have_attr (if_replay I)) (\<lambda>tln. rbind (have_attr (if_current I)) (\<lambda>k.
       Inr (I\<lparr>if_replay := Some (tln\<lparr>segments := dict_set (segments tln) k g\<rparr>)\<rparr>)))"

definition segment_graph :: "'r segment \<Rightarrow> patch_graph result" where
  "segment_graph g = have_attr (graph (storage_of g))"

subsection \<open>Recorded times\<close>

definition get_timestamps :: "('c, 'r, 'w) replay_interface \<Rightarrow> (datetime list \<times> ('c, 'r, 'w) replay_interface) result" where
  "get_timestamps I =
     rbind (have_attr (if_replay I)) (\<lambda>tln. rbind (get_timestamp_cache tln) (\<lambda>(ts, tln'). Inr (ts, I\<lparr>if_replay := Some tln'\<rparr>)))"

definition get_next_timestamp ::
    "datetime option \<Rightarrow> ('c, 'r, 'w) replay_interface \<Rightarrow> (datetime option \<times> ('c, 'r, 'w) replay_interface) result" where
  "get_next_timestamp at_time I =
     rbind (get_timestamps I) (\<lambda>(ts, I).
       let i = (case at_time of None \<Rightarrow> if_index I + 1 | Some t \<Rightarrow> bisect_right ts t)
       in Inr (if i < length ts then Some (ts ! i) else None, I))"

definition get_previous_timestamp ::
    "datetime option \<Rightarrow> ('c, 'r, 'w) replay_interface \<Rightarrow> (datetime option \<times> ('c, 'r, 'w) replay_interface) result" where
  "get_previous_timestamp at_time I =
     rbind (get_timestamps I) (\<lambda>(ts, I).
       case at_time of
         None \<Rightarrow>
           if if_index I = 0 then Inr (None, I)
           else rbind (py_index ts (int (if_index I) - 1)) (\<lambda>t. Inr (Some t, I))
       | Some t \<Rightarrow> let i = bisect_left ts t in Inr (if i > 0 then Some (ts ! (i - 1)) else None, I))"

definition find_closest_prev_timestamp :: "datetime \<Rightarrow> 'r segment \<Rightarrow> datetime option result" where
  "find_closest_prev_timestamp target g =
     rbind (segment_graph g) (\<lambda>pg.
       Inr (map_option (\<lambda>t. fromtimestamp (of_int t)) (find_prev_timestamp (dt_seconds target) pg)))"

subsection \<open>Jumping\<close>

text \<open>The game state of a segment after a patch.\<close>

definition play_op :: "'r path_tree \<Rightarrow> int \<times> nat option \<times> val \<Rightarrow> val \<Rightarrow> val result" where
  "play_op t o' v =
     (case o' of (op_type, path_idx, value) \<Rightarrow>
        (case path_idx of
           None \<Rightarrow> Inl KeyError
         | Some i \<Rightarrow> rbind (dict_lookup (idx_to_node t) i) (\<lambda>_. apply_op (op_type, idx_path t i, value) v)))"

definition node_ops :: "patch_node \<Rightarrow> (int \<times> nat option \<times> val) list" where
  "node_ops p = zip (node_op_types p) (zip (node_paths p) (node_values p))"

definition play_patch :: "patch_node \<Rightarrow> 'r segment \<Rightarrow> 'r segment result" where
  "play_patch p g =
     rbind (have_attr (tree (storage_of g))) (\<lambda>t. rbind (have_attr (seg_game_state g)) (\<lambda>v.
     rbind (rfold (play_op t) (node_ops p) v) (\<lambda>v'.
       Inr (g\<lparr>seg_game_state := Some v', op_counter := op_counter g + length (node_ops p)\<rparr>))))"

definition apply_patches_and_update_state ::
    "('c \<Rightarrow> 'r option \<Rightarrow> hook_data \<Rightarrow> 'w \<Rightarrow> 'w) \<Rightarrow> patch_node list \<Rightarrow> datetime \<Rightarrow> ('c, 'r, 'w) replay_interface
     \<Rightarrow> ('c, 'r, 'w) replay_interface result" where
  "apply_patches_and_update_state run ps target_time I =
     rbind (current_segment I) (\<lambda>g.
     rbind (rfold play_patch ps g) (\<lambda>g.
     rbind (put_segment (g\<lparr>current_time := Some target_time\<rparr>) (I\<lparr>if_time := Some target_time\<rparr>)) (\<lambda>I.
     case Option.bind (if_current I) (dict_get (if_hooks I)) of
       None \<Rightarrow> Inr I
     | Some hs \<Rightarrow>
         rbind (execute_queue run hs (if_world I)) (\<lambda>(hs', w).
           Inr (I\<lparr>if_hooks := dict_set (if_hooks I) (the (if_current I)) hs', if_world := w\<rparr>)))))"

definition create_and_save_long_patch ::
    "dijkstra \<Rightarrow> datetime \<Rightarrow> datetime \<Rightarrow> ('c, 'r, 'w) replay_interface
     \<Rightarrow> (patch_node \<times> ('c, 'r, 'w) replay_interface) result option" where
  "create_and_save_long_patch dijk from_time to_time I =
     obind (Some (current_segment I)) (\<lambda>g.
     obind (Some (have_attr (tree (storage_of g)))) (\<lambda>t.
     obind (Some (segment_graph g)) (\<lambda>pg.
     obind (Some (find_closest_prev_timestamp from_time g)) (\<lambda>from_exact.
     obind (Some (find_closest_prev_timestamp to_time g)) (\<lambda>to_exact.
     obind (Some (need ValueError from_exact)) (\<lambda>a.
     obind (Some (need ValueError to_exact)) (\<lambda>b.
     obind (precompute t) (\<lambda>tb.
     obind (create_long_patch dijk (timestamp a) (timestamp b) pg t tb) (\<lambda>p.
     obind (Some (add_edge p pg)) (\<lambda>pg'.
     obind (Some (put_segment (g\<lparr>storage_of := (storage_of g)\<lparr>graph := Some pg'\<rparr>\<rparr>) I)) (\<lambda>I'.
       Some (Inr (p, I')))))))))))))"

text \<open>The switch to the segment of the target time.\<close>

definition switch_segment :: "seg_key \<Rightarrow> ('c, 'r, 'w) replay_interface \<Rightarrow> ('c, 'r, 'w) replay_interface result" where
  "switch_segment k I =
     rbind (current_segment I) (\<lambda>old.
     rbind (current_segment (I\<lparr>if_current := Some k\<rparr>)) (\<lambda>g.
     rbind (dict_lookup (if_hooks I) k) (\<lambda>hs.
     rbind (seg_metadata old) (\<lambda>mo. rbind (seg_metadata g) (\<lambda>mn.
       Inr (I\<lparr>if_current := Some k, if_time := current_time g,
              if_hooks := dict_set (if_hooks I) k
                (add_segment_switch_event (seg_version old) (seg_version g) (Some (map_id mo)) (Some (map_id mn)) hs)\<rparr>))))))"

definition find_segment_key :: "datetime \<Rightarrow> 'r timeline \<Rightarrow> seg_key option" where
  "find_segment_key time tln = map_option fst (List.find (\<lambda>(k, _). covers time k) (segments tln))"

text \<open>The path through the graph, as one long patch when it is expensive, and what follows it.\<close>

definition choose_patches ::
    "dijkstra \<Rightarrow> datetime \<Rightarrow> bool \<Rightarrow> ('c, 'r, 'w) replay_interface
     \<Rightarrow> (patch_node list \<times> ('c, 'r, 'w) replay_interface) result option" where
  "choose_patches dijk time_stamp create_long_patches I =
     obind (Some (current_segment I)) (\<lambda>g.
     obind (Some (segment_graph g)) (\<lambda>pg.
     obind (Some (have_attr (if_time I))) (\<lambda>now.
     obind (find_patch_path dijk (timestamp now) (timestamp time_stamp) pg) (\<lambda>ps.
       if path_cost ps > LONG_PATCH_THRESHOLD \<and> length ps > 1 \<and> create_long_patches
       then obind (create_and_save_long_patch dijk now time_stamp I) (\<lambda>(p, I'). Some (Inr ([p], I')))
       else Some (Inr (ps, I))))))"

definition finish_jump ::
    "('c \<Rightarrow> 'r option \<Rightarrow> hook_data \<Rightarrow> 'w \<Rightarrow> 'w) \<Rightarrow> datetime \<Rightarrow> patch_node list \<Rightarrow> ('c, 'r, 'w) replay_interface
     \<Rightarrow> (patch_node list option \<times> ('c, 'r, 'w) replay_interface) result" where
  "finish_jump run time_stamp ps I =
     rbind (apply_patches_and_update_state run ps time_stamp I) (\<lambda>I.
     rbind (get_timestamps I) (\<lambda>(ts, I). Inr (Some ps, I\<lparr>if_index := bisect_left ts time_stamp\<rparr>)))"

text \<open>\<open>jump_to\<close> for a time that is not before the start; the first component of the result is what the
  method returns, the patches that were applied or \<open>None\<close>.\<close>

definition jump_inside ::
    "dijkstra \<Rightarrow> ('c \<Rightarrow> 'r option \<Rightarrow> hook_data \<Rightarrow> 'w \<Rightarrow> 'w) \<Rightarrow> datetime \<Rightarrow> bool \<Rightarrow> ('c, 'r, 'w) replay_interface
     \<Rightarrow> (patch_node list option \<times> ('c, 'r, 'w) replay_interface) result option" where
  "jump_inside dijk run time_stamp create_long_patches I =
     (if if_time I = Some time_stamp then Some (Inr (None, I))
      else
        obind (Some (have_attr (if_replay I))) (\<lambda>tln.
        case find_segment_key time_stamp tln of
          None \<Rightarrow> Some (Inr (None, I))
        | Some k \<Rightarrow>
            obind (Some (if if_current I = Some k then Inr I else switch_segment k I)) (\<lambda>I.
            obind (choose_patches dijk time_stamp create_long_patches I) (\<lambda>(ps, I).
              Some (finish_jump run time_stamp ps I)))))"

definition jump_to ::
    "dijkstra \<Rightarrow> ('c \<Rightarrow> 'r option \<Rightarrow> hook_data \<Rightarrow> 'w \<Rightarrow> 'w) \<Rightarrow> datetime \<Rightarrow> bool \<Rightarrow> ('c, 'r, 'w) replay_interface
     \<Rightarrow> (patch_node list option \<times> ('c, 'r, 'w) replay_interface) result option" where
  "jump_to dijk run time_stamp create_long_patches I =
     (if if_time I = Some time_stamp then Some (Inr (None, I))
      else
        obind (Some (rbind (have_attr (if_replay I)) tl_get_start_time)) (\<lambda>start.
          if time_stamp < start
          then obind (jump_inside dijk run start True I) (\<lambda>(_, I'). Some (Inr (None, I')))
          else jump_inside dijk run time_stamp create_long_patches I))"

definition jump_to_last_time where
  "jump_to_last_time dijk run I =
     obind (Some (rbind (have_attr (if_replay I)) tl_get_last_time)) (\<lambda>t. jump_to dijk run t True I)"

text \<open>Stepping to a neighbouring recorded time in the current segment: the patch of the two times.\<close>

definition step_patch ::
    "('c \<Rightarrow> 'r option \<Rightarrow> hook_data \<Rightarrow> 'w \<Rightarrow> 'w) \<Rightarrow> datetime \<Rightarrow> ('c, 'r, 'w) replay_interface
     \<Rightarrow> ('c, 'r, 'w) replay_interface result" where
  "step_patch run t I =
     rbind (current_segment I) (\<lambda>g. rbind (segment_graph g) (\<lambda>pg. rbind (have_attr (if_time I)) (\<lambda>now.
     rbind (dict_lookup (patches pg) (dt_seconds now, dt_seconds t)) (\<lambda>p.
       apply_patches_and_update_state run [p] t I))))"

definition jump_to_next_patch ::
    "dijkstra \<Rightarrow> ('c \<Rightarrow> 'r option \<Rightarrow> hook_data \<Rightarrow> 'w \<Rightarrow> 'w) \<Rightarrow> ('c, 'r, 'w) replay_interface
     \<Rightarrow> (bool \<times> ('c, 'r, 'w) replay_interface) result option" where
  "jump_to_next_patch dijk run I =
     obind (Some (get_next_timestamp None I)) (\<lambda>(nxt, I).
     case nxt of
       None \<Rightarrow> Some (Inr (False, I))
     | Some t \<Rightarrow>
         obind (Some (have_attr (if_replay I))) (\<lambda>tln.
         let k = find_segment_key t tln in
         if k \<noteq> if_current I then
           if k \<noteq> None then obind (jump_to dijk run t False I) (\<lambda>(_, I). Some (Inr (True, I)))
           else Some (Inr (True, I\<lparr>if_index := if_index I + 1\<rparr>))
         else obind (Some (step_patch run t I)) (\<lambda>I. Some (Inr (True, I\<lparr>if_index := if_index I + 1\<rparr>)))))"

definition jump_to_previous_patch ::
    "dijkstra \<Rightarrow> ('c \<Rightarrow> 'r option \<Rightarrow> hook_data \<Rightarrow> 'w \<Rightarrow> 'w) \<Rightarrow> ('c, 'r, 'w) replay_interface
     \<Rightarrow> (bool \<times> ('c, 'r, 'w) replay_interface) result option" where
  "jump_to_previous_patch dijk run I =
     obind (Some (get_previous_timestamp None I)) (\<lambda>(prev, I).
     case prev of
       None \<Rightarrow> Some (Inr (False, I))
     | Some t \<Rightarrow>
         obind (Some (have_attr (if_replay I))) (\<lambda>tln.
         if find_segment_key t tln \<noteq> if_current I
         then obind (jump_to dijk run t False I) (\<lambda>(_, I). Some (Inr (True, I)))
         else obind (Some (step_patch run t I)) (\<lambda>I. Some (Inr (True, I\<lparr>if_index := if_index I - 1\<rparr>)))))"

subsection \<open>What a replay needs\<close>

definition if_segments_metadata :: "('c, 'r, 'w) replay_interface \<Rightarrow> (seg_key, segment_metadata) dict result" where
  "if_segments_metadata I = rbind (need AssertionError (if_replay I)) (\<lambda>tln. Inr (get_segments_metadata tln))"

definition get_required_map_ids :: "('c, 'r, 'w) replay_interface \<Rightarrow> string set result" where
  "get_required_map_ids I =
     rbind (if_segments_metadata I) (\<lambda>metas. Inr (set (filter (\<lambda>s. s \<noteq> []) (map (map_id \<circ> snd) metas))))"

definition get_required_versions :: "('c, 'r, 'w) replay_interface \<Rightarrow> int set result" where
  "get_required_versions I =
     rbind (need AssertionError (if_replay I)) (\<lambda>tln. Inr (set (map (seg_version \<circ> snd) (segments tln))))"

definition get_total_patches :: "('c, 'r, 'w) replay_interface \<Rightarrow> int result" where
  "get_total_patches I = rbind (if_segments_metadata I) (\<lambda>metas. Inr (sum_list (map (current_patches \<circ> snd) metas)))"

text \<open>\<open>static_map_paths\<close> is the argument \<open>static_map_data\<close> of the constructor and \<open>is_file\<close> asks the file
  system.\<close>

definition validate_static_map_data ::
    "('p \<Rightarrow> bool) \<Rightarrow> (string, 'p) dict \<Rightarrow> ('c, 'r, 'w) replay_interface \<Rightarrow> unit result" where
  "validate_static_map_data is_file static_map_paths I =
     (if if_replay I = None then Inr ()
      else
        rbind (get_required_map_ids I) (\<lambda>required.
          if required = {} then Inl ValueError
          else if static_map_paths = [] then Inl ValueError
          else if \<exists>i \<in> required. case dict_get static_map_paths i of None \<Rightarrow> True | Some p \<Rightarrow> \<not> is_file p
          then Inl ValueError else Inr ()))"

definition validate_integrity :: "('c, 'r, 'w) replay_interface \<Rightarrow> unit result option" where
  "validate_integrity I =
     obind (Some (need AssertionError (if_replay I))) (\<lambda>tln. ofold (\<lambda>(_, g) _. validate_structure g) (segments tln) ())"

subsection \<open>Hook systems of the segments\<close>

definition register_hook_systems :: "('c, 'r, 'w) replay_interface \<Rightarrow> ('c, 'r, 'w) replay_interface result" where
  "register_hook_systems I =
     rbind (have_attr (if_replay I)) (\<lambda>tln.
       Inr (I\<lparr>if_hooks := fold (\<lambda>(k, _) d. dict_set d k new_hook_system) (segments tln) (if_hooks I)\<rparr>))"

text \<open>The loops over \<open>_hook_systems.values()\<close>; a hook system reads the path tree of its segment.\<close>

definition each_hook_system ::
    "('r path_tree \<Rightarrow> ('c, 'r) hook_system \<Rightarrow> ('c, 'r) hook_system result) \<Rightarrow> ('c, 'r, 'w) replay_interface
     \<Rightarrow> ('c, 'r, 'w) replay_interface result" where
  "each_hook_system f I =
     rbind (have_attr (if_replay I)) (\<lambda>tln.
     rbind (rmap (\<lambda>(k, hs). rbind (dict_lookup (segments tln) k) (\<lambda>g. rbind (have_attr (tree (storage_of g))) (\<lambda>t.
              rbind (f t hs) (\<lambda>hs'. Inr (k, hs'))))) (if_hooks I)) (\<lambda>d.
       Inr (I\<lparr>if_hooks := d\<rparr>)))"

definition province_path :: path where
  "province_path = [PStr ''states'', PStr ''map_state'', PStr ''map'', PStr ''locations'']"

definition player_path :: path where
  "player_path = [PStr ''states'', PStr ''player_state'', PStr ''players'']"

definition team_path :: path where
  "team_path = [PStr ''states'', PStr ''player_state'', PStr ''teams'']"

definition army_path :: path where
  "army_path = [PStr ''states'', PStr ''army_state'', PStr ''armies'']"

definition game_info_path :: path where
  "game_info_path = [PStr ''states'', PStr ''game_info_state'']"

definition foreign_affairs_path :: path where
  "foreign_affairs_path = [PStr ''states'', PStr ''foreign_affairs_state'', PStr ''relations'']"

definition register_province_trigger where
  "register_province_trigger attributes =
     each_hook_system (\<lambda>t. register_event_trigger t ProvinceChanged province_path (Some attributes) 0 (-1))"

definition unregister_province_trigger where
  "unregister_province_trigger = each_hook_system (\<lambda>t hs. Inr (unregister_event_trigger t province_path hs))"

definition register_player_trigger where
  "register_player_trigger attributes =
     each_hook_system (\<lambda>t. register_event_trigger t PlayerChanged player_path attributes 0 (-1))"

definition unregister_player_trigger where
  "unregister_player_trigger = each_hook_system (\<lambda>t hs. Inr (unregister_event_trigger t player_path hs))"

definition register_team_trigger where
  "register_team_trigger attributes =
     each_hook_system (\<lambda>t. register_event_trigger t TeamChanged team_path attributes 0 (-1))"

definition unregister_team_trigger where
  "unregister_team_trigger = each_hook_system (\<lambda>t hs. Inr (unregister_event_trigger t team_path hs))"

definition register_army_trigger where
  "register_army_trigger attributes =
     each_hook_system (\<lambda>t. register_event_trigger t ArmyChanged army_path attributes 0 (-1))"

definition unregister_army_trigger where
  "unregister_army_trigger = each_hook_system (\<lambda>t hs. Inr (unregister_event_trigger t army_path hs))"

definition register_game_info_trigger where
  "register_game_info_trigger attributes =
     each_hook_system (\<lambda>t. register_event_trigger t GameInfoChanged game_info_path attributes 0 (-1))"

definition unregister_game_info_trigger where
  "unregister_game_info_trigger = each_hook_system (\<lambda>t hs. Inr (unregister_event_trigger t game_info_path hs))"

definition register_foreign_affairs_trigger where
  "register_foreign_affairs_trigger =
     each_hook_system (\<lambda>t. register_event_trigger t ForeignAffairsRelationChanged foreign_affairs_path (Some [''neighbor_relations'']) 0 0)"

definition unregister_foreign_affairs_trigger where
  "unregister_foreign_affairs_trigger = each_hook_system (\<lambda>t hs. Inr (unregister_event_trigger t foreign_affairs_path hs))"

definition if_unregister_all_hooks :: "('c, 'r, 'w) replay_interface \<Rightarrow> ('c, 'r, 'w) replay_interface" where
  "if_unregister_all_hooks I = I\<lparr>if_hooks := map (\<lambda>(k, hs). (k, unregister_all_hooks hs)) (if_hooks I)\<rparr>"

text \<open>The path of the callbacks on provinces is looked up in the tree of the current segment, for the hook
  systems of all segments.\<close>

definition remove_province_attribute_change_callback ::
    "'c \<Rightarrow> ('c, 'r, 'w) replay_interface \<Rightarrow> ('c, 'r, 'w) replay_interface result" where
  "remove_province_attribute_change_callback cb I =
     rbind (current_segment I) (\<lambda>g. rbind (have_attr (tree (storage_of g))) (\<lambda>t.
       let i = path_list_to_idx province_path t
       in Inr (I\<lparr>if_hooks := map (\<lambda>(k, hs). (k, unregister_hook i (Some cb) hs)) (if_hooks I)\<rparr>)))"

definition group_event ::
    "'r hook_event \<Rightarrow> (hook_tag, 'r hook_event list) dict \<Rightarrow> (hook_tag, 'r hook_event list) dict" where
  "group_event ev d = dict_set d (ev_tag ev) ((case dict_get d (ev_tag ev) of None \<Rightarrow> [] | Some l \<Rightarrow> l) @ [ev])"

definition if_poll_events ::
    "('c, 'r, 'w) replay_interface \<Rightarrow> ((hook_tag, 'r hook_event list) dict \<times> ('c, 'r, 'w) replay_interface) result" where
  "if_poll_events I =
     rbind (have_attr (if_current I)) (\<lambda>k. rbind (dict_lookup (if_hooks I) k) (\<lambda>hs.
       case poll_events hs of (es, hs') \<Rightarrow> Inr (fold group_event es [], I\<lparr>if_hooks := dict_set (if_hooks I) k hs'\<rparr>)))"

subsection \<open>Polling\<close>

text \<open>Polling returns every event once, under its tag and in the order in which they were added.\<close>

lemma group_events:
  "dict_get (fold group_event es d) tg =
     (let l = filter (\<lambda>e. ev_tag e = tg) es
      in if l = [] then dict_get d tg else Some ((case dict_get d tg of None \<Rightarrow> [] | Some m \<Rightarrow> m) @ l))"
  by (induction es arbitrary: d) (auto simp: group_event_def Let_def)

lemma poll_groups:
  assumes "if_current I = Some k" "dict_get (if_hooks I) k = Some hs"
  shows "\<exists>d I'. if_poll_events I = Inr (d, I') \<and>
    (\<forall>tg. (case dict_get d tg of None \<Rightarrow> [] | Some l \<Rightarrow> l) = filter (\<lambda>e. ev_tag e = tg) (hs_events hs)) \<and>
    dict_get (if_hooks I') k = Some (hs\<lparr>hs_events := []\<rparr>)"
  using assms by (simp add: if_poll_events_def dict_lookup_def poll_events_def group_events Let_def)

subsection \<open>Neighbouring times\<close>

lemma drop_bisect_right:
  assumes "sorted ts"
  shows "drop (bisect_right ts t) ts = filter ((<) t) ts"
proof -
  let ?i = "bisect_right ts t"
  have "filter ((<) t) ts = filter ((<) t) (take ?i ts) @ filter ((<) t) (drop ?i ts)" by (simp flip: filter_append)
  moreover have "filter ((<) t) (take ?i ts) = []"
    using bisect_right_below [OF assms, of _ t] by (auto simp: filter_empty_conv in_set_conv_nth not_less)
  moreover have "filter ((<) t) (drop ?i ts) = drop ?i ts"
    using bisect_right_above [OF assms, of t] by (auto simp: filter_id_conv in_set_conv_nth)
  ultimately show ?thesis by simp
qed

lemma split_bisect_left:
  assumes "sorted ts"
  shows "drop (bisect_left ts t) ts = filter ((\<le>) t) ts" "take (bisect_left ts t) ts = filter (\<lambda>x. x < t) ts"
proof -
  let ?i = "bisect_left ts t"
  have lo: "\<forall>x \<in> set (take ?i ts). x < t" using bisect_left_below [OF assms, of _ t] by (auto simp: in_set_conv_nth)
  have hi: "\<forall>x \<in> set (drop ?i ts). t \<le> x" using bisect_left_above [OF assms, of t] by (auto simp: in_set_conv_nth)
  have "filter P ts = filter P (take ?i ts) @ filter P (drop ?i ts)" for P by (simp flip: filter_append)
  moreover have "filter ((\<le>) t) (take ?i ts) = []" "filter ((\<le>) t) (drop ?i ts) = drop ?i ts"
    using lo hi by (auto simp: filter_empty_conv filter_id_conv not_le)
  moreover have "filter (\<lambda>x. x < t) (take ?i ts) = take ?i ts" "filter (\<lambda>x. x < t) (drop ?i ts) = []"
    using lo hi by (auto simp: filter_empty_conv filter_id_conv not_less)
  ultimately show "drop ?i ts = filter ((\<le>) t) ts" "take ?i ts = filter (\<lambda>x. x < t) ts" by simp_all
qed

lemma sorted_hd_least: "sorted xs \<Longrightarrow> xs \<noteq> [] \<Longrightarrow> x \<in> set xs \<Longrightarrow> hd xs \<le> x"
  by (cases xs) auto

lemma sorted_last_greatest: "sorted xs \<Longrightarrow> xs \<noteq> [] \<Longrightarrow> x \<in> set xs \<Longrightarrow> x \<le> last xs"
  by (induction xs rule: rev_induct) (auto simp: sorted_append)

definition first_of :: "'a list \<Rightarrow> 'a option" where
  "first_of xs = (if xs = [] then None else Some (hd xs))"

lemma next_item: "(if i < length ts then Some (ts ! i) else None) = first_of (drop i ts)"
  by (simp add: first_of_def hd_drop_conv_nth)

lemma next_of:
  assumes "get_timestamps I = Inr (ts, I')" "sorted ts"
  shows "get_next_timestamp (Some t) I = Inr (first_of (filter ((<) t) ts), I')"
  using assms by (simp add: get_next_timestamp_def Let_def next_item drop_bisect_right)

lemma previous_of:
  assumes "get_timestamps I = Inr (ts, I')" "sorted ts"
  shows "get_previous_timestamp (Some t) I =
    Inr (if filter (\<lambda>x. x < t) ts = [] then None else Some (last (filter (\<lambda>x. x < t) ts)), I')"
proof -
  let ?i = "bisect_left ts t"
  have le: "?i \<le> length ts" by (rule bisect_left_le [OF assms(2)])
  then have "?i > 0 \<Longrightarrow> last (take ?i ts) = ts ! (?i - 1)" by (subst last_conv_nth) auto
  moreover have "take ?i ts = [] \<longleftrightarrow> ?i = 0" using le by auto
  ultimately show ?thesis using assms
    by (simp add: get_previous_timestamp_def Let_def split_bisect_left(2) [OF assms(2), symmetric])
qed

lemma obind_eq: "obind m f = Some (Inr y) \<longleftrightarrow> (\<exists>x. m = Some (Inr x) \<and> f x = Some (Inr y))"
  by (auto simp: obind_def split: option.splits sum.splits)

lemma timestamps_again:
  assumes "get_timestamps I = Inr (ts, I')"
  shows "get_timestamps (I'\<lparr>if_index := n\<rparr>) = Inr (ts, I'\<lparr>if_index := n\<rparr>)"
proof -
  from assms obtain tln tln' where tln: "if_replay I = Some tln" "get_timestamp_cache tln = Inr (ts, tln')" "I' = I\<lparr>if_replay := Some tln'\<rparr>"
    by (auto simp: get_timestamps_def rbind_eq_Inr_iff have_attr_def split: option.splits)
  have "get_timestamp_cache tln' = Inr (ts, tln')"
  proof (cases "time_stamp_cache tln = []")
    case False
    then show ?thesis using tln(2) by (auto simp: get_timestamp_cache_def)
  next
    case True
    then obtain tss where tss: "rmap (\<lambda>(_, g). segment_times g) (segments tln) = Inr tss" "tln' = tln\<lparr>time_stamp_cache := ts\<rparr>"
      "ts = sort (map (\<lambda>x. x * 10 ^ 6) (rev (remdups (rev (concat tss)))))"
      using tln(2) by (auto simp: get_timestamp_cache_def Let_def rbind_eq_Inr_iff)
    show ?thesis
    proof (cases "ts = []")
      case True
      then show ?thesis using tss by (simp add: get_timestamp_cache_def Let_def)
    qed (simp add: get_timestamp_cache_def tss(2))
  qed
  then show ?thesis by (simp add: get_timestamps_def tln(3))
qed

lemma jump_to_Some:
  assumes "jump_to dijk run t long I = Some (Inr (Some ps, I'))"
  shows "jump_inside dijk run t long I = Some (Inr (Some ps, I'))"
  using assms by (auto simp: jump_to_def obind_eq split: if_splits prod.splits)

lemma jump_inside_index:
  fixes I :: "('c, 'r, 'w) replay_interface"
  assumes "jump_inside dijk run t long I = Some (Inr (Some ps, I'))"
  obtains ts where "get_timestamps I' = Inr (ts, I')" "if_index I' = bisect_left ts t"
proof -
  from assms obtain tln :: "'r timeline" where "(case find_segment_key t tln of None \<Rightarrow> Some (Inr (None, I))
      | Some k \<Rightarrow> obind (Some (if if_current I = Some k then Inr I else switch_segment k I)) (\<lambda>I.
          obind (choose_patches dijk t long I) (\<lambda>(ps, I). Some (finish_jump run t ps I)))) = Some (Inr (Some ps, I'))"
    unfolding jump_inside_def by (auto simp: obind_eq split: if_splits)
  then obtain J1 where "obind (choose_patches dijk t long J1) (\<lambda>(ps, I). Some (finish_jump run t ps I)) = Some (Inr (Some ps, I'))"
    by (cases "find_segment_key t tln") (auto simp: obind_eq)
  then obtain qs J0 where "finish_jump run t qs J0 = Inr (Some ps, I')" by (auto simp: obind_eq)
  then obtain J ts J' where "get_timestamps J = Inr (ts, J')" "I' = J'\<lparr>if_index := bisect_left ts t\<rparr>"
    by (auto simp: finish_jump_def rbind_eq_Inr_iff)
  with timestamps_again that show ?thesis by fastforce
qed

lemma later_times:
  assumes "sorted ts" "distinct ts"
  shows "drop (Suc (bisect_left ts t)) ts = drop (if t \<in> set ts then 0 else 1) (filter ((<) t) ts)"
proof -
  have eq: "filter ((\<le>) t) ts = (if t \<in> set ts then [t] else []) @ filter ((<) t) ts"
    using assms
  proof (induction ts)
    case (Cons a ts)
    show ?case
    proof (cases "a = t")
      case True
      then have "\<forall>x \<in> set ts. t < x" using Cons.prems by (auto simp: order_less_le)
      then have "filter ((\<le>) t) ts = ts" "filter ((<) t) ts = ts" by (auto simp: filter_id_conv)
      with True show ?thesis by simp
    qed (use Cons in auto)
  qed simp
  have "drop (Suc (bisect_left ts t)) ts = drop 1 (filter ((\<le>) t) ts)"
    by (simp flip: split_bisect_left(1) [OF assms(1)])
  then show ?thesis unfolding eq by simp
qed

subsection \<open>Properties\<close>

text \<open>C23: asked about a given time, \<open>get_next_timestamp\<close> and \<open>get_previous_timestamp\<close> return the least
  recorded time after it and the greatest before it, and \<open>None\<close> exactly when there is none.\<close>

theorem neighbouring_times:
  assumes "get_timestamps I = Inr (ts, I')" and "sorted ts"
  shows "\<exists>r q. get_next_timestamp (Some t) I = Inr (r, I') \<and> get_previous_timestamp (Some t) I = Inr (q, I') \<and>
    (case r of Some u \<Rightarrow> u \<in> set ts \<and> t < u \<and> (\<forall>w \<in> set ts. t < w \<longrightarrow> u \<le> w) | None \<Rightarrow> \<forall>w \<in> set ts. w \<le> t) \<and>
    (case q of Some u \<Rightarrow> u \<in> set ts \<and> u < t \<and> (\<forall>w \<in> set ts. w < t \<longrightarrow> w \<le> u) | None \<Rightarrow> \<forall>w \<in> set ts. t \<le> w)"
proof -
  let ?hi = "filter ((<) t) ts" and ?lo = "filter (\<lambda>x. x < t) ts"
  let ?q = "if ?lo = [] then None else Some (last ?lo)"
  have sorted: "sorted ?hi" "sorted ?lo" using assms(2) by (simp_all add: sorted_wrt_filter)
  have "case first_of ?hi of Some u \<Rightarrow> u \<in> set ts \<and> t < u \<and> (\<forall>w \<in> set ts. t < w \<longrightarrow> u \<le> w) | None \<Rightarrow> \<forall>w \<in> set ts. w \<le> t"
  proof (cases "?hi = []")
    case True
    then show ?thesis by (simp add: first_of_def) (simp add: filter_empty_conv not_less)
  next
    case False
    then show ?thesis using sorted_hd_least [OF sorted(1) False] hd_in_set [OF False] by (auto simp: first_of_def)
  qed
  moreover have "case ?q of Some u \<Rightarrow> u \<in> set ts \<and> u < t \<and> (\<forall>w \<in> set ts. w < t \<longrightarrow> w \<le> u) | None \<Rightarrow> \<forall>w \<in> set ts. t \<le> w"
  proof (cases "?lo = []")
    case True
    then show ?thesis by simp (simp add: filter_empty_conv not_less)
  next
    case False
    then show ?thesis using sorted_last_greatest [OF sorted(2) False] last_in_set [OF False] by auto
  qed
  ultimately show ?thesis unfolding next_of [OF assms] previous_of [OF assms]
    by (intro exI [of _ "first_of ?hi"] exI [of _ ?q] conjI refl)
qed

text \<open>C39: after a jump, the next recorded time by position is the next one after the time that is shown
  only if that time is itself recorded.  Otherwise the position is already at the next recorded time, and
  it is skipped.\<close>

theorem next_after_jump:
  assumes "jump_to dijk run t long I = Some (Inr (Some ps, I'))" and "get_timestamps I' = Inr (ts, J)"
    and "sorted ts" and "distinct ts"
  shows "get_next_timestamp None I' = Inr (first_of (drop (if t \<in> set ts then 0 else 1) (filter ((<) t) ts)), I')"
proof -
  from jump_inside_index [OF jump_to_Some [OF assms(1)]] assms(2)
  have "get_timestamps I' = Inr (ts, I')" "if_index I' = bisect_left ts t" by auto
  then show ?thesis unfolding later_times [OF assms(3,4), symmetric] next_item [symmetric]
    by (simp add: get_next_timestamp_def Let_def)
qed

text \<open>C40: a time that is not after the start of the replay cannot be jumped to: a segment covers the times
  after its start only, so nothing changes, unless the time is the one that is shown already.\<close>

theorem start_not_reached:
  assumes "if_replay I = Some tln" and "tl_get_start_time tln = Inr start" and "\<forall>k \<in> set (dict_keys (segments tln)). start \<le> fst k"
    and "t \<le> start"
  shows "jump_to dijk run t long I = Some (Inr (None, I))"
proof -
  have "find_segment_key start tln = None"
    using assms(3) by (force simp: find_segment_key_def find_None_iff covers_def)
  then have "jump_inside dijk run start l I = Some (Inr (None, I))" for l by (simp add: jump_inside_def assms(1))
  then show ?thesis using assms by (auto simp: jump_to_def)
qed

subsection \<open>What a jump shows\<close>

text \<open>A segment tracks a record of values by time when every patch of its graph leads from the value at its
  first time to the value at its second, and the segment shows the value at the last recorded time that
  is not after its current time.\<close>

definition tracks :: "(int \<Rightarrow> val) \<Rightarrow> 'r segment \<Rightarrow> bool" where
  "tracks rec g \<longleftrightarrow> (\<exists>pg t now a. graph (storage_of g) = Some pg \<and> tree (storage_of g) = Some t \<and> graph_ok pg \<and>
     (\<forall>p \<in> edges pg. rfold (play_op t) (node_ops p) (rec (from_timestamp p)) = Inr (rec (to_timestamp p))) \<and>
     current_time g = Some now \<and> find_prev_timestamp (dt_seconds now) pg = Some a \<and> seg_game_state g = Some (rec a))"

definition quiet :: "('c, 'r, 'w) replay_interface \<Rightarrow> seg_key \<Rightarrow> bool" where
  "quiet I k \<longleftrightarrow> (\<exists>hs. dict_get (if_hooks I) k = Some hs \<and> hs_queue hs = [])"

definition follows_record :: "(seg_key \<Rightarrow> int \<Rightarrow> val) \<Rightarrow> ('c, 'r, 'w) replay_interface \<Rightarrow> bool" where
  "follows_record rec I \<longleftrightarrow> (\<exists>tln k g. if_replay I = Some tln \<and> dict_wf (segments tln) \<and>
     (\<forall>(k, g) \<in> set (segments tln). tracks (rec k) g \<and> metadata (storage_of g) \<noteq> None \<and> quiet I k) \<and>
     if_current I = Some k \<and> dict_get (segments tln) k = Some g \<and> if_time I = current_time g)"

definition shown_state :: "('c, 'r, 'w) replay_interface \<Rightarrow> val option" where
  "shown_state I = (case current_segment I of Inr g \<Rightarrow> seg_game_state g | Inl _ \<Rightarrow> None)"

lemma play_patch_chain:
  assumes "tree (storage_of g) = Some t"
    and "\<forall>p \<in> E. rfold (play_op t) (node_ops p) (rec (from_timestamp p)) = Inr (rec (to_timestamp p))"
  shows "set ps \<subseteq> E \<Longrightarrow> PatchGraph.chain ps a b \<Longrightarrow>
    \<exists>c'. rfold play_patch ps (g\<lparr>seg_game_state := Some (rec a), op_counter := c\<rparr>) =
      Inr (g\<lparr>seg_game_state := Some (rec b), op_counter := c'\<rparr>)"
proof (induction ps arbitrary: a c)
  case (Cons p ps)
  then have p: "p \<in> E" "from_timestamp p = a" "PatchGraph.chain ps (to_timestamp p) b" by auto
  have "play_patch p (g\<lparr>seg_game_state := Some (rec a), op_counter := c\<rparr>) =
      Inr (g\<lparr>seg_game_state := Some (rec (to_timestamp p)), op_counter := c + length (node_ops p)\<rparr>)"
    using assms p(1,2) by (auto simp: play_patch_def have_attr_def)
  then show ?case using Cons.IH [OF _ p(3)] Cons.prems(1) by simp
qed auto

lemma switch_ok:
  assumes "follows_record rec I" and "if_replay I = Some tln" and "dict_get (segments tln) k = Some g"
  shows "\<exists>I1. (if if_current I = Some k then Inr I else switch_segment k I) = Inr I1 \<and> if_replay I1 = Some tln \<and>
    if_current I1 = Some k \<and> if_time I1 = current_time g \<and> (\<forall>j. quiet I j \<longrightarrow> quiet I1 j)"
proof (cases "if_current I = Some k")
  case True
  then show ?thesis using assms by (auto simp: follows_record_def)
next
  case False
  from assms(1,2) obtain k0 g0 where
    c: "if_current I = Some k0" "dict_get (segments tln) k0 = Some g0" and
    all: "\<forall>(k, g) \<in> set (segments tln). tracks (rec k) g \<and> metadata (storage_of g) \<noteq> None \<and> quiet I k"
    by (auto simp: follows_record_def)
  have "metadata (storage_of g0) \<noteq> None" "metadata (storage_of g) \<noteq> None" "quiet I k"
    using all map_of_SomeD [OF c(2)] map_of_SomeD [OF assms(3)] by auto
  then obtain m0 m hs where m: "metadata (storage_of g0) = Some m0" "metadata (storage_of g) = Some m"
    "dict_get (if_hooks I) k = Some hs" "hs_queue hs = []" by (auto simp: quiet_def)
  then show ?thesis using False assms c
    by (auto simp: switch_segment_def current_segment_def seg_metadata_def dict_lookup_def quiet_def
        add_segment_switch_event_def Let_def)
qed

lemma ts_int_seconds: "ts_int (timestamp x) = dt_seconds x"
  by (simp add: ts_int_def dt_seconds_def trunc_def)

lemma find_path_tracks:
  assumes ok: "graph_ok pg" and a: "find_prev_timestamp (dt_seconds now) pg = Some a" and b: "find_prev_timestamp (dt_seconds t) pg = Some b"
    and ne: "chains pg a b \<noteq> {}"
    and dijk: "\<forall>m src. graph_lil pg = Some m \<longrightarrow> dict_get (time_to_dense_idx pg) a = Some src \<longrightarrow>
      shortest_tree (graph_n pg) m src (dijk (graph_n pg) m src)"
  shows "\<exists>ps. find_patch_path dijk (timestamp now) (timestamp t) pg = Some (Inr ps) \<and> ps \<in> chains pg a b"
proof -
  have sorted: "sorted (time_stamps_cache pg)" using ok by (simp add: graph_ok_def)
  have mem: "a \<in> set (time_stamps_cache pg)" "b \<in> set (time_stamps_cache pg)"
    using find_prev_timestamp_greatest [OF sorted, of "dt_seconds now"] find_prev_timestamp_greatest [OF sorted, of "dt_seconds t"] a b
    by auto
  then have "time_to_dense_idx pg \<noteq> []" using ok by (force simp: graph_ok_def in_set_conv_nth)
  then have "find_patch_path dijk (timestamp now) (timestamp t) pg = find_patch_path_exact dijk a b pg"
    using a b by (simp add: find_patch_path_def ts_int_seconds)
  with shortest_path_found [OF ok mem, of dijk] dijk ne show ?thesis by auto
qed

lemma cache_found:
  assumes "\<forall>(k, g) \<in> set (segments tln). graph (storage_of g) \<noteq> None"
  shows "\<exists>ts tln'. get_timestamp_cache tln = Inr (ts, tln') \<and> segments tln' = segments tln"
proof -
  let ?f = "\<lambda>g. case graph (storage_of g) of None \<Rightarrow> [] | Some pg \<Rightarrow> time_stamps_cache pg"
  have "rmap (\<lambda>(_, g). segment_times g) (segments tln) = Inr (map (\<lambda>x. ?f (snd x)) (segments tln))"
    using assms by (intro rmap_Inr) (auto simp: segment_times_def have_attr_def split: option.splits)
  then show ?thesis by (simp add: get_timestamp_cache_def Let_def)
qed

lemma apply_and_update:
  assumes seg: "if_replay I = Some tln" "if_current I = Some k" "dict_get (segments tln) k = Some g" "quiet I k"
    and play: "rfold play_patch ps g = Inr g'"
  shows "\<exists>hooks. apply_patches_and_update_state run ps t I =
      Inr (I\<lparr>if_time := Some t, if_replay := Some (tln\<lparr>segments := dict_set (segments tln) k (g'\<lparr>current_time := Some t\<rparr>)\<rparr>),
             if_hooks := hooks\<rparr>) \<and> (\<forall>j. quiet I j \<longrightarrow> quiet (I\<lparr>if_hooks := hooks\<rparr>) j)"
proof -
  from seg(4) obtain hs where hs: "dict_get (if_hooks I) k = Some hs" "hs_queue hs = []" by (auto simp: quiet_def)
  let ?hooks = "dict_set (if_hooks I) k (clear_queue hs)"
  have "apply_patches_and_update_state run ps t I =
      Inr (I\<lparr>if_time := Some t, if_replay := Some (tln\<lparr>segments := dict_set (segments tln) k (g'\<lparr>current_time := Some t\<rparr>)\<rparr>),
             if_hooks := ?hooks\<rparr>)"
    using seg hs play by (simp add: apply_patches_and_update_state_def current_segment_def put_segment_def dict_lookup_def execute_queue_def)
  moreover have "\<forall>j. quiet I j \<longrightarrow> quiet (I\<lparr>if_hooks := ?hooks\<rparr>) j" by (simp add: quiet_def clear_queue_def)
  ultimately show ?thesis by blast
qed

lemma dict_set_all: "\<forall>x \<in> set d. P x \<Longrightarrow> P (k, v) \<Longrightarrow> \<forall>x \<in> set (dict_set d k v). P x"
  using set_dict_set [where d = d and k = k and v = v] by blast

lemma follows_record_update:
  assumes rec: "follows_record rec I" "if_replay I = Some tln" and k: "dict_get (segments tln) k = Some g" and g': "tracks (rec k) g'"
      "metadata (storage_of g') \<noteq> None"
    and J: "if_replay J = Some tln'" "segments tln' = dict_set (segments tln) k g'" "if_current J = Some k" "if_time J = current_time g'"
      "\<forall>j. quiet I j \<longrightarrow> quiet J j"
  shows "follows_record rec J \<and> shown_state J = seg_game_state g'"
proof -
  have wf: "dict_wf (segments tln)" and all: "\<forall>(k, g) \<in> set (segments tln). tracks (rec k) g \<and> metadata (storage_of g) \<noteq> None \<and> quiet I k"
    using rec by (auto simp: follows_record_def)
  have "quiet I k" using all map_of_SomeD [OF k] by auto
  have "\<forall>(j, h) \<in> set (dict_set (segments tln) k g'). tracks (rec j) h \<and> metadata (storage_of h) \<noteq> None \<and> quiet J j"
  proof (rule dict_set_all)
    show "\<forall>(j, h) \<in> set (segments tln). tracks (rec j) h \<and> metadata (storage_of h) \<noteq> None \<and> quiet J j" using all J(5) by fast
    show "case (k, g') of (j, h) \<Rightarrow> tracks (rec j) h \<and> metadata (storage_of h) \<noteq> None \<and> quiet J j"
      using g' J(5) [rule_format, OF \<open>quiet I k\<close>] by simp
  qed
  then have "follows_record rec J" using wf J by (auto simp: follows_record_def)
  moreover have "shown_state J = seg_game_state g'" using J by (simp add: shown_state_def current_segment_def dict_lookup_def)
  ultimately show ?thesis ..
qed


subsection \<open>A small replay\<close>

text \<open>One segment with two recorded times, 10 s and 20 s, at which the attribute \<open>a\<close> is 1 and 2.\<close>

definition tour_edge :: "int \<Rightarrow> int \<Rightarrow> int \<Rightarrow> patch_node" where
  "tour_edge a b v = new_patch_node a b [2] [Some 1] [VInt v] None"

definition tour_graph :: patch_graph where
  "tour_graph = (case rbind (rfold add_edge_and_vertices [tour_edge 10 20 2, tour_edge 20 10 1] new_patch_graph) finalize
     of Inr g \<Rightarrow> g | Inl _ \<Rightarrow> new_patch_graph)"

definition tour_tree :: "nat path_tree" where
  "tour_tree = (case add_node 1 0 (PStr ''a'') new_path_tree of Inr t \<Rightarrow> t | Inl _ \<Rightarrow> new_path_tree)"

definition tour_state :: "int \<Rightarrow> val" where
  "tour_state t = VObj ''State'' [(''a'', VInt (if t < 20 then 1 else 2))]"

definition tour_segment :: "nat segment" where
  "tour_segment = (new_segment [] 217 (Some 1) (Some 2) None)
     \<lparr>storage_of := (new_storage [])\<lparr>metadata := Some (sample_meta\<lparr>start_time := 10, last_time := 20\<rparr>), tree := Some tour_tree, graph := Some tour_graph\<rparr>,
      seg_game_state := Some (tour_state 10), current_time := Some 10000000\<rparr>"

definition tour_timeline :: "nat timeline" where
  "tour_timeline = (new_timeline None Read_mode (Some 1) (Some 2))\<lparr>segments := [((10000000, None), tour_segment)]\<rparr>"

definition tour_interface :: "(unit, nat, nat) replay_interface" where
  "tour_interface = \<lparr>if_time = Some 10000000, if_index = 0, if_replay = Some tour_timeline, if_current = Some (10000000, None),
     if_hooks = [((10000000, None), new_hook_system)], if_world = 0\<rparr>"

definition tour_dijkstra :: dijkstra where
  "tour_dijkstra n m src = ([Some 0, Some 1], [-9999, 0])"

lemma tour_graph_ok: "graph_ok tour_graph"
  using build_ok [of "[tour_edge 10 20 2, tour_edge 20 10 1]"]
  by (auto simp: tour_graph_def tour_edge_def new_patch_node_def compute_cost_def)

lemma tour_graph_fields:
  "time_stamps_cache tour_graph = [10, 20]" "graph_lil tour_graph = Some [((0, 1), 1), ((1, 0), 1)]"
  "dict_get (time_to_dense_idx tour_graph) 10 = Some 0" "time_to_dense_idx tour_graph \<noteq> []" "graph_n tour_graph = 2"
  "edges tour_graph = {tour_edge 10 20 2, tour_edge 20 10 1}"
  by (simp_all add: tour_graph_def graph_eval tour_edge_def edges_def insert_commute)

lemma tour_shortest_tree: "shortest_tree 2 [((0, 1), 1), ((1, 0), 1)] 0 (tour_dijkstra 2 m 0)"
proof -
  have "reaches [((0, 1), 1), ((1, 0), 1)] 0 1" unfolding reaches_def by (rule r_into_rtranclp) simp
  moreover have "reaches [((0, 1), 1), ((1, 0), 1)] 0 0" by (simp add: reaches_def)
  ultimately show ?thesis
    by (auto simp: shortest_tree_def tour_dijkstra_def less_2_cases_iff)
qed

lemma tour_tree_fields:
  "dict_get (idx_to_node tour_tree) 1 = Some (new_node (Some 0) (PStr ''a'') 1)" "idx_path tour_tree 1 = [PStr ''a'']"
  by (simp_all add: tour_tree_def add_node_def new_path_tree_def new_node_def add_child_def dict_lookup_def Let_def idx_path.simps node_at_def)

lemma tour_seconds: "dt_seconds 10000000 = 10" "dt_seconds 15000000 = 15" "dt_seconds 25000000 = 25"
  by (simp_all add: dt_seconds_div)

lemma tour_prev: "find_prev_timestamp 10 tour_graph = Some 10" "find_prev_timestamp 15 tour_graph = Some 10" "find_prev_timestamp 25 tour_graph = Some 20"
  by (simp_all add: find_prev_timestamp_def tour_graph_fields bisect_right_def bisect_right_loop.simps)

lemma tour_tracks: "tracks tour_state tour_segment"
proof -
  have "\<forall>p \<in> edges tour_graph. rfold (play_op tour_tree) (node_ops p) (tour_state (from_timestamp p)) = Inr (tour_state (to_timestamp p))"
    by (simp add: tour_graph_fields tour_edge_def new_patch_node_def node_ops_def play_op_def tour_tree_fields dict_lookup_def tour_state_def
        apply_operation_def op_codes apply_replace_def has_attr_def del: One_nat_def)
  then show ?thesis using tour_graph_ok tour_prev(1) by (simp add: tracks_def tour_segment_def tour_seconds)
qed

lemma tour_times:
  "get_timestamps tour_interface =
     Inr ([10000000, 20000000], tour_interface\<lparr>if_replay := Some (tour_timeline\<lparr>time_stamp_cache := [10000000, 20000000]\<rparr>)\<rparr>)"
  by (simp add: get_timestamps_def tour_interface_def get_timestamp_cache_def tour_timeline_def new_timeline_def segment_times_def
      tour_segment_def tour_graph_fields sort_key_def Let_def)

lemma tour_start: "tl_get_start_time tour_timeline = Inr 10000000"
  by (simp add: tl_get_start_time_def find_first_segment_def tour_timeline_def find_last_segment_def find_last_key_segment_def
      get_last_time_def get_start_time_def seg_metadata_def tour_segment_def)

lemma tour_follows: "follows_record (\<lambda>_. tour_state) tour_interface"
  by (simp add: follows_record_def tour_interface_def tour_timeline_def tour_tracks quiet_def new_hook_system_def)
    (simp add: tour_segment_def)

theorem neighbouring_times_witness:
  "\<exists>r q I'. get_next_timestamp (Some 15000000) tour_interface = Inr (r, I') \<and>
     get_previous_timestamp (Some 15000000) tour_interface = Inr (q, I') \<and>
     (case r of Some u \<Rightarrow> u \<in> {10000000, 20000000} \<and> 15000000 < u | None \<Rightarrow> False) \<and>
     (case q of Some u \<Rightarrow> u \<in> {10000000, 20000000} \<and> u < 15000000 | None \<Rightarrow> False)"
proof -
  from neighbouring_times [OF tour_times, of 15000000] obtain r q where
    "get_next_timestamp (Some 15000000) tour_interface =
       Inr (r, tour_interface\<lparr>if_replay := Some (tour_timeline\<lparr>time_stamp_cache := [10000000, 20000000]\<rparr>)\<rparr>)"
    "get_previous_timestamp (Some 15000000) tour_interface =
       Inr (q, tour_interface\<lparr>if_replay := Some (tour_timeline\<lparr>time_stamp_cache := [10000000, 20000000]\<rparr>)\<rparr>)"
    "case r of Some u \<Rightarrow> u \<in> set [10000000, 20000000] \<and> 15000000 < u | None \<Rightarrow> \<forall>w \<in> set [10000000, 20000000]. w \<le> (15000000 :: int)"
    "case q of Some u \<Rightarrow> u \<in> set [10000000, 20000000] \<and> u < 15000000 | None \<Rightarrow> \<forall>w \<in> set [10000000, 20000000]. (15000000 :: int) \<le> w"
    by (auto split: option.splits)
  then show ?thesis by (auto split: option.splits)
qed


theorem start_not_reached_witness:
  "jump_to tour_dijkstra (\<lambda>_ _ _ w. w) 9000000 True tour_interface = Some (Inr (None, tour_interface))"
  by (rule start_not_reached [OF _ tour_start]) (simp_all add: tour_interface_def tour_timeline_def)

theorem next_after_jump_witness:
  "\<exists>ps I'. jump_to tour_dijkstra (\<lambda>_ _ _ w. w) 15000000 False tour_interface = Some (Inr (Some ps, I')) \<and>
     get_next_timestamp None I' = Inr (None, I')"
proof -
  have "find_patch_path tour_dijkstra (timestamp 10000000) (timestamp 15000000) tour_graph = Some (Inr [])"
    using tour_prev by (simp add: find_patch_path_def ts_int_seconds tour_seconds find_patch_path_exact_def tour_graph_fields)
  then have c: "choose_patches tour_dijkstra 15000000 False tour_interface = Some (Inr ([], tour_interface))"
    by (simp add: choose_patches_def tour_interface_def current_segment_def segment_graph_def dict_lookup_def tour_timeline_def tour_segment_def)
  have I: "if_replay tour_interface = Some tour_timeline" "if_current tour_interface = Some (10000000, None)"
      "dict_get (segments tour_timeline) (10000000, None) = Some tour_segment" "quiet tour_interface (10000000, None)"
    by (simp_all add: tour_interface_def tour_timeline_def quiet_def new_hook_system_def)
  have t: "if_time tour_interface = Some 10000000" "find_segment_key 15000000 tour_timeline = Some (10000000, None)"
    by (simp_all add: tour_interface_def find_segment_key_def tour_timeline_def covers_def)
  have "rfold play_patch [] tour_segment = Inr tour_segment" by simp
  from apply_and_update [OF I this, of "\<lambda>_ _ _ w. w" 15000000] obtain hooks where
    up: "apply_patches_and_update_state (\<lambda>_ _ _ w. w) [] 15000000 tour_interface = Inr (tour_interface\<lparr>if_time := Some 15000000,
      if_replay := Some (tour_timeline\<lparr>segments := dict_set (segments tour_timeline) (10000000, None) (tour_segment\<lparr>current_time := Some 15000000\<rparr>)\<rparr>),
      if_hooks := hooks\<rparr>)" (is "_ = Inr ?I") by blast
  have times: "\<exists>J. get_timestamps ?I = Inr ([10000000, 20000000], J)"
    by (simp add: get_timestamps_def get_timestamp_cache_def tour_timeline_def new_timeline_def segment_times_def
        tour_segment_def tour_graph_fields sort_key_def Let_def)
  then obtain J where J: "get_timestamps ?I = Inr ([10000000, 20000000], J)" ..
  have "jump_to tour_dijkstra (\<lambda>_ _ _ w. w) 15000000 False tour_interface =
      Some (Inr (Some [], J\<lparr>if_index := bisect_left [10000000, 20000000] (15000000 :: int)\<rparr>))"
    using c tour_start up J I(1,2) t by (simp add: jump_to_def jump_inside_def finish_jump_def)
  moreover from this have "get_next_timestamp None (J\<lparr>if_index := bisect_left [10000000, 20000000] (15000000 :: int)\<rparr>) =
      Inr (first_of (drop (if (15000000 :: int) \<in> set [10000000, 20000000] then 0 else 1) (filter ((<) 15000000) [10000000, 20000000])),
        J\<lparr>if_index := bisect_left [10000000, 20000000] (15000000 :: int)\<rparr>)"
    by (rule next_after_jump [OF _ timestamps_again [OF J]]) simp_all
  ultimately show ?thesis by (auto simp: first_of_def)
qed

end
