(* ===== verification/Actions.thy ===== *)
theory Actions
  imports Utils
begin

text \<open>
  The queue of actions of a player (\<open>interface/action_handler.py\<close>).

  A minor action gets a number when it is queued, and a request id when it is sent with others in one
  request; a two-way dictionary relates the two, so that the results in the answer of the server can be
  stored under the numbers.  Every operation returns its result together with the state it leaves, since an
  exception in the middle leaves the changes made before it.

  Sending a request (the JSON form of the action and \<open>GameApi\<close>), the fields of the answer, the JSON parser
  and the update of the game state are parameters; an update that raises may leave a changed state.
  Of \<open>past_actions\<close>, which only the debug log reads, the numbers are kept.

  The theorems say that numbers and request ids never clash, whatever the server answers, and that a
  reported result is stored under the number of the action it belongs to.
\<close>

subsection \<open>Decimal numbers\<close>

fun str_nat :: "nat \<Rightarrow> string" where
  "str_nat n = (if n < 10 then [char_of (48 + n)] else str_nat (n div 10) @ [char_of (48 + n mod 10)])"

declare str_nat.simps [simp del]

definition of_digits :: "string \<Rightarrow> nat" where
  "of_digits s = fold (\<lambda>c a. 10 * a + (of_char c - 48)) s 0"

lemma of_digits_str: "of_digits (str_nat n) = n"
proof (induction n rule: str_nat.induct)
  case (1 n)
  have digit: "of_char (char_of (48 + d :: nat) :: char) = 48 + d" if "d < 10" for d :: nat
    using that by simp
  show ?case
  proof (cases "n < 10")
    case True
    then show ?thesis using digit [OF True] by (subst str_nat.simps) (simp add: of_digits_def)
  next
    case False
    then show ?thesis using 1 digit [of "n mod 10"] by (subst str_nat.simps) (simp add: of_digits_def)
  qed
qed

lemma str_nat_inject: "str_nat m = str_nat n \<longleftrightarrow> m = n"
  using of_digits_str by metis

subsection \<open>State\<close>

datatype action_kind = MinorAction | MajorGameState | MajorActivation | NoAction

record 'x game_action =
  act_kind :: action_kind
  language :: string
  act_request :: string
  act_body :: 'x

record ('x, 'i) game_state_action =
  state_type :: int
  state_id :: string
  add_state_ids_on_sent :: bool
  state_ids :: "'i option"
  gs_actions :: "'x game_action list"

record ('x, 'g) action_handler =
  queue :: "(nat \<times> 'x game_action) list"
  past_actions :: "nat list"
  action_request_id :: nat
  ah_language :: string
  ah_game_state :: "'g option"
  action_counter :: nat
  request_to_uid :: "(string, nat) bidict"
  action_results :: "(nat, int) dict"

definition new_handler :: "('x, 'g) action_handler" where
  "new_handler = \<lparr>queue = [], past_actions = [], action_request_id = 0, ah_language = ''en'', ah_game_state = None,
     action_counter = 0, request_to_uid = new_bidict, action_results = []\<rparr>"

text \<open>The server and the classes of the game state.\<close>

record ('x, 'g, 'i, 'j, 'w) server =
  send :: "('x, 'i) game_state_action \<Rightarrow> 'w \<Rightarrow> 'j result \<times> 'w"
  result_class :: "'j \<Rightarrow> string result"
  parse_state :: "'j \<Rightarrow> 'g result"
  update_state :: "'g \<Rightarrow> 'g \<Rightarrow> unit result \<times> 'g"
  ids_and_stamps :: "'g \<Rightarrow> 'i option"
  results_of :: "'g \<Rightarrow> (string, int) dict option"

subsection \<open>Operations\<close>

definition check_minor :: "'x game_action \<Rightarrow> unit result" where
  "check_minor a = (if act_kind a = MinorAction then Inr () else Inl ValueError)"

definition que_action :: "'x game_action \<Rightarrow> ('x, 'g) action_handler \<Rightarrow> nat result \<times> ('x, 'g) action_handler" where
  "que_action a h =
     (case check_minor a of
        Inl e \<Rightarrow> (Inl e, h)
      | Inr _ \<Rightarrow>
          (Inr (action_counter h), h\<lparr>queue := queue h @ [(action_counter h, a)], action_counter := action_counter h + 1\<rparr>))"

definition request_name :: "nat \<Rightarrow> string" where
  "request_name n = ''actionReq-'' @ str_nat n"

fun assign_requests ::
    "(nat \<times> 'x game_action) list \<Rightarrow> 'x game_action list \<Rightarrow> ('x, 'g) action_handler
     \<Rightarrow> 'x game_action list result \<times> ('x, 'g) action_handler" where
  "assign_requests [] acts h = (Inr acts, h)"
| "assign_requests ((uid, a) # xs) acts h =
     (let rid = request_name (action_request_id h);
          a' = a\<lparr>act_request := rid, language := ah_language h\<rparr>
      in case bidict_setitem rid uid (request_to_uid h) of
           Inl e \<Rightarrow> (Inl e, h)
         | Inr b \<Rightarrow> assign_requests xs (acts @ [a']) (h\<lparr>request_to_uid := b, action_request_id := action_request_id h + 1\<rparr>))"

fun store_results :: "(string \<times> int) list \<Rightarrow> ('x, 'g) action_handler \<Rightarrow> unit result \<times> ('x, 'g) action_handler" where
  "store_results [] h = (Inr (), h)"
| "store_results ((rid, r) # xs) h =
     (case bidict_getitem rid (request_to_uid h) of
        Inl e \<Rightarrow> (Inl e, h)
      | Inr uid \<Rightarrow> store_results xs (h\<lparr>action_results := dict_set (action_results h) uid r\<rparr>))"

definition take_state :: "('x, 'g, 'i, 'j, 'w) server \<Rightarrow> 'g \<Rightarrow> ('x, 'g) action_handler \<Rightarrow> unit result \<times> ('x, 'g) action_handler" where
  "take_state S g h =
     (case ah_game_state h of
        None \<Rightarrow> (Inr (), h\<lparr>ah_game_state := Some g\<rparr>)
      | Some g0 \<Rightarrow> (case update_state S g0 g of (r, g1) \<Rightarrow> (r, h\<lparr>ah_game_state := Some g1\<rparr>)))"

text \<open>What follows the answer of the server.\<close>

definition take_answer :: "('x, 'g, 'i, 'j, 'w) server \<Rightarrow> 'j \<Rightarrow> ('x, 'g) action_handler \<Rightarrow> 'g result \<times> ('x, 'g) action_handler" where
  "take_answer S j h =
     (case rbind (result_class S j) (\<lambda>c.
             if c \<in> {''ultshared.UltGameState'', ''ultshared.UltAutoGameState''} then parse_state S j else Inl ValueError) of
        Inl e \<Rightarrow> (Inl e, h)
      | Inr g \<Rightarrow>
          (case take_state S g h of
             (Inl e, h) \<Rightarrow> (Inl e, h)
           | (Inr _, h) \<Rightarrow>
               (case Option.bind (ah_game_state h) (results_of S) of
                  None \<Rightarrow> (Inl AttributeError, h)
                | Some rs \<Rightarrow>
                    (case store_results rs h of
                       (Inl e, h) \<Rightarrow> (Inl e, h)
                     | (Inr _, h) \<Rightarrow> (Inr (the (ah_game_state h)), h)))))"

definition create_game_state_action ::
    "('x, 'g, 'i, 'j, 'w) server \<Rightarrow> bool \<Rightarrow> (nat \<times> 'x game_action) list option \<Rightarrow> bool \<Rightarrow> ('x, 'g) action_handler \<Rightarrow> 'w
     \<Rightarrow> 'g result \<times> ('x, 'g) action_handler \<times> 'w" where
  "create_game_state_action S use_queue custom_actions send_state_ids h w =
     (let actions_list = (if use_queue then queue h else case custom_actions of None \<Rightarrow> [] | Some l \<Rightarrow> l);
          h = (if use_queue then h\<lparr>queue := []\<rparr> else h);
          h = h\<lparr>past_actions := map fst actions_list\<rparr>
      in case assign_requests actions_list [] h of
           (Inl e, h) \<Rightarrow> (Inl e, h, w)
         | (Inr acts, h) \<Rightarrow>
             (let ids = (if send_state_ids then Option.bind (ah_game_state h) (ids_and_stamps S) else None);
                  req = \<lparr>state_type = 0, state_id = ''0'', add_state_ids_on_sent = send_state_ids, state_ids = ids, gs_actions = acts\<rparr>
              in case send S req w of
                   (Inl e, w) \<Rightarrow> (Inl e, h, w)
                 | (Inr j, w) \<Rightarrow> (case take_answer S j h of (r, h) \<Rightarrow> (r, h, w))))"

definition immediate_action ::
    "('x, 'g, 'i, 'j, 'w) server \<Rightarrow> 'x game_action \<Rightarrow> ('x, 'g) action_handler \<Rightarrow> 'w
     \<Rightarrow> ('g \<times> nat) result \<times> ('x, 'g) action_handler \<times> 'w" where
  "immediate_action S a h w =
     (case check_minor a of
        Inl e \<Rightarrow> (Inl e, h, w)
      | Inr _ \<Rightarrow>
          (let uid = action_counter h
           in case create_game_state_action S False (Some [(uid, a)]) True (h\<lparr>action_counter := uid + 1\<rparr>) w of
                (r, h, w) \<Rightarrow> (rbind r (\<lambda>g. Inr (g, uid)), h, w)))"

text \<open>Joining a game: the answer is a player id or the code of a refusal.\<close>

datatype activation_error =
    USER_NOT_FOUND | GAME_NOT_FOUND | USER_EXISTED | COUNTRY_SELECTION_REQUESTED | COUNTRY_SELECTION_IMPOSSIBLE
  | VACATION_MODE_ACTIVE | GAME_FULL | GAME_TOO_OLD | ANTI_CHEAT_IP_CONFLICT

definition activation_codes :: "(int, activation_error) dict" where
  "activation_codes =
     [(-3, USER_NOT_FOUND), (-4, GAME_NOT_FOUND), (-5, USER_EXISTED), (-6, COUNTRY_SELECTION_REQUESTED),
      (-7, COUNTRY_SELECTION_IMPOSSIBLE), (-8, VACATION_MODE_ACTIVE), (-9, GAME_FULL), (-10, GAME_TOO_OLD),
      (-11, ANTI_CHEAT_IP_CONFLICT)]"

definition from_error_code :: "int \<Rightarrow> activation_error result" where
  "from_error_code c = (case dict_get activation_codes c of None \<Rightarrow> Inl ValueError | Some e \<Rightarrow> Inr e)"

text \<open>The end of \<open>activate_game\<close>: the refusal that is raised, or the player id that is returned and kept in
  the API client.\<close>

definition activation_result :: "int \<Rightarrow> activation_error + int" where
  "activation_result c = (case from_error_code c of Inl _ \<Rightarrow> Inr c | Inr e \<Rightarrow> Inl e)"

subsection \<open>Reachable states\<close>

text \<open>The steps of a client: queueing, sending, and forgetting the game state when a country is selected.\<close>

inductive handler_reachable :: "('x, 'g, 'i, 'j, 'w) server \<Rightarrow> ('x, 'g) action_handler \<Rightarrow> bool" for S where
  new: "handler_reachable S new_handler"
| que: "handler_reachable S h \<Longrightarrow> que_action a h = (r, h') \<Longrightarrow> handler_reachable S h'"
| immediate: "handler_reachable S h \<Longrightarrow> immediate_action S a h w = (r, h', w') \<Longrightarrow> handler_reachable S h'"
| send_queue: "handler_reachable S h \<Longrightarrow> create_game_state_action S True None b h w = (r, h', w') \<Longrightarrow> handler_reachable S h'"
| send_empty: "handler_reachable S h \<Longrightarrow> create_game_state_action S False None b h w = (r, h', w') \<Longrightarrow> handler_reachable S h'"
| forget: "handler_reachable S h \<Longrightarrow> handler_reachable S (h\<lparr>ah_game_state := None\<rparr>)"

text \<open>Numbers and request ids are in use below the counters only, a queued action has no request id yet.\<close>

definition fresh_uids :: "nat list \<Rightarrow> ('x, 'g) action_handler \<Rightarrow> bool" where
  "fresh_uids us h \<longleftrightarrow> distinct us \<and> (\<forall>u \<in> set us. u < action_counter h \<and> dict_get (reverse (request_to_uid h)) u = None)"

definition ids_ok :: "('x, 'g) action_handler \<Rightarrow> bool" where
  "ids_ok h \<longleftrightarrow> inverse_dicts (request_to_uid h) \<and>
     (\<forall>k u. dict_get (forward (request_to_uid h)) k = Some u \<longrightarrow>
        u < action_counter h \<and> (\<exists>n < action_request_id h. k = request_name n))"

definition handler_ok :: "('x, 'g) action_handler \<Rightarrow> bool" where
  "handler_ok h \<longleftrightarrow> ids_ok h \<and> fresh_uids (map fst (queue h)) h"

definition same_ids :: "('x, 'g) action_handler \<Rightarrow> ('x, 'g) action_handler \<Rightarrow> bool" where
  "same_ids h h' \<longleftrightarrow> request_to_uid h' = request_to_uid h \<and> action_request_id h' = action_request_id h \<and>
     action_counter h' = action_counter h \<and> queue h' = queue h"

lemma same_ids_ok: "same_ids h h' \<Longrightarrow> handler_ok h' = handler_ok h"
  by (simp add: same_ids_def handler_ok_def ids_ok_def fresh_uids_def)

lemma request_name_inject: "request_name m = request_name n \<longleftrightarrow> m = n"
  by (simp add: request_name_def str_nat_inject)

lemma request_unused:
  assumes "ids_ok h"
  shows "request_name (action_request_id h) \<notin> set (dict_keys (forward (request_to_uid h)))"
proof
  assume "request_name (action_request_id h) \<in> set (dict_keys (forward (request_to_uid h)))"
  then have "dict_get (forward (request_to_uid h)) (request_name (action_request_id h)) \<noteq> None"
    unfolding dict_get_not_None_iff by simp
  with assms show False unfolding ids_ok_def by (metis less_irrefl not_None_eq request_name_inject)
qed

lemma assign_one:
  assumes "ids_ok h" "fresh_uids (u # us) h"
  obtains b where "bidict_setitem (request_name (action_request_id h)) u (request_to_uid h) = Inr b"
    "forward b = dict_set (forward (request_to_uid h)) (request_name (action_request_id h)) u"
    "reverse b = dict_set (reverse (request_to_uid h)) u (request_name (action_request_id h))"
    "ids_ok (h\<lparr>request_to_uid := b, action_request_id := action_request_id h + 1\<rparr>)"
    "fresh_uids us (h\<lparr>request_to_uid := b, action_request_id := action_request_id h + 1\<rparr>)"
proof -
  let ?k = "request_name (action_request_id h)" and ?d = "request_to_uid h"
  have u: "u \<notin> set (dict_keys (reverse ?d))" using assms(2)
    unfolding fresh_uids_def by (metis dict_get_not_None_iff list.set_intros(1) set_map)
  define b where "b = \<lparr>forward = dict_set (forward ?d) ?k u, reverse = dict_set (reverse ?d) u ?k\<rparr>"
  have set: "bidict_setitem ?k u ?d = Inr b"
    using request_unused [OF assms(1)] u by (simp add: bidict_setitem_def b_def)
  moreover have "ids_ok (h\<lparr>request_to_uid := b, action_request_id := action_request_id h + 1\<rparr>)"
    using assms setitem_inverse [OF _ set]
    by (auto simp: ids_ok_def fresh_uids_def b_def less_Suc_eq)
  moreover have "fresh_uids us (h\<lparr>request_to_uid := b, action_request_id := action_request_id h + 1\<rparr>)"
    using assms(2) by (auto simp: fresh_uids_def b_def)
  ultimately show ?thesis using that [of b] by (simp add: b_def)
qed

text \<open>Numbering a list of new actions succeeds and relates each to its own request id.\<close>

lemma assign_requests_ok:
  assumes "ids_ok h" "fresh_uids (map fst xs) h"
  shows "\<exists>acts' b. assign_requests xs acts h =
      (Inr (acts @ acts'), h\<lparr>request_to_uid := b, action_request_id := action_request_id h + length xs\<rparr>) \<and>
    ids_ok (h\<lparr>request_to_uid := b, action_request_id := action_request_id h + length xs\<rparr>) \<and>
    map act_request acts' = map request_name [action_request_id h..<action_request_id h + length xs] \<and>
    (\<forall>i < length xs. dict_get (forward b) (request_name (action_request_id h + i)) = Some (fst (xs ! i))) \<and>
    (\<forall>n < action_request_id h. dict_get (forward b) (request_name n) = dict_get (forward (request_to_uid h)) (request_name n)) \<and>
    (\<forall>u. u \<notin> set (map fst xs) \<longrightarrow> dict_get (reverse b) u = dict_get (reverse (request_to_uid h)) u)"
  using assms
proof (induction xs arbitrary: acts h)
  case (Cons x xs)
  obtain u a where x: "x = (u, a)" by (cases x)
  let ?n = "action_request_id h"
  let ?a = "a\<lparr>act_request := request_name ?n, language := ah_language h\<rparr>"
  from Cons.prems x have "fresh_uids (u # map fst xs) h" by simp
  from assign_one [OF Cons.prems(1) this] obtain b where
    b: "bidict_setitem (request_name ?n) u (request_to_uid h) = Inr b"
      "forward b = dict_set (forward (request_to_uid h)) (request_name ?n) u"
      "reverse b = dict_set (reverse (request_to_uid h)) u (request_name ?n)"
      "ids_ok (h\<lparr>request_to_uid := b, action_request_id := ?n + 1\<rparr>)"
      "fresh_uids (map fst xs) (h\<lparr>request_to_uid := b, action_request_id := ?n + 1\<rparr>)" by metis
  from Cons.IH [OF b(4,5), of "acts @ [?a]"] obtain acts' b' where
    ih: "assign_requests xs (acts @ [?a]) (h\<lparr>request_to_uid := b, action_request_id := ?n + 1\<rparr>) =
        (Inr (acts @ ?a # acts'), h\<lparr>request_to_uid := b', action_request_id := ?n + 1 + length xs\<rparr>)"
      "ids_ok (h\<lparr>request_to_uid := b', action_request_id := ?n + 1 + length xs\<rparr>)"
      "map act_request acts' = map request_name [?n + 1..<?n + 1 + length xs]"
      "\<forall>i < length xs. dict_get (forward b') (request_name (?n + 1 + i)) = Some (fst (xs ! i))"
      "\<forall>n < ?n + 1. dict_get (forward b') (request_name n) = dict_get (forward b) (request_name n)"
      "\<forall>v. v \<notin> set (map fst xs) \<longrightarrow> dict_get (reverse b') v = dict_get (reverse b) v" by auto
  have "dict_get (forward b') (request_name (?n + i)) = Some (fst ((x # xs) ! i))" if "i < length (x # xs)" for i
    using that ih(4,5) b(2) x by (cases i) auto
  moreover have "assign_requests (x # xs) acts h = (Inr (acts @ ?a # acts'), h\<lparr>request_to_uid := b', action_request_id := ?n + length (x # xs)\<rparr>)"
    using x b(1) ih(1) by simp
  moreover have "map act_request (?a # acts') = map request_name [?n..<?n + length (x # xs)]"
  proof -
    have "[?n..<?n + length (x # xs)] = ?n # [?n + 1..<?n + 1 + length xs]" by (subst upt_conv_Cons) auto
    then show ?thesis using ih(3) by simp
  qed
  moreover have "\<forall>n < ?n. dict_get (forward b') (request_name n) = dict_get (forward (request_to_uid h)) (request_name n)"
    using ih(5) b(2) by (simp add: request_name_inject)
  moreover have "\<forall>v. v \<notin> set (map fst (x # xs)) \<longrightarrow> dict_get (reverse b') v = dict_get (reverse (request_to_uid h)) v"
    using ih(6) b(3) x by simp
  ultimately show ?case using ih(2) by (intro exI [of _ "?a # acts'"] exI [of _ b']) simp
next
  case Nil
  then show ?case by (intro exI [of _ "[]"] exI [of _ "request_to_uid h"]) simp
qed

lemma store_results_same: "same_ids h (snd (store_results rs h))"
proof (induction rs h rule: store_results.induct)
  case (2 rid r xs h)
  then show ?case by (auto simp: same_ids_def split: sum.splits)
qed (simp add: same_ids_def)

lemma same_ids_refl: "same_ids h h"
  by (simp add: same_ids_def)

lemma same_ids_trans: "same_ids h1 h2 \<Longrightarrow> same_ids h2 h3 \<Longrightarrow> same_ids h1 h3"
  by (simp add: same_ids_def)

lemma take_state_same: "same_ids h (snd (take_state S g h))"
  by (auto simp: take_state_def same_ids_def split: option.splits prod.splits)

lemma take_answer_same: "same_ids h (snd (take_answer S j h))"
proof -
  let ?m = "rbind (result_class S j) (\<lambda>c.
     if c \<in> {''ultshared.UltGameState'', ''ultshared.UltAutoGameState''} then parse_state S j else Inl ValueError)"
  show ?thesis
  proof (cases ?m)
    case (Inr g)
    obtain r1 h1 where 1: "take_state S g h = (r1, h1)" by fastforce
    have h1: "same_ids h h1" using take_state_same [of h S g] 1 by simp
    obtain r2 h2 where 2: "store_results (the (Option.bind (ah_game_state h1) (results_of S))) h1 = (r2, h2)" by fastforce
    have "same_ids h h2" using same_ids_trans [OF h1] store_results_same [of h1 "the (Option.bind (ah_game_state h1) (results_of S))"] 2 by simp
    with h1 show ?thesis unfolding take_answer_def Inr using 2 by (cases "Option.bind (ah_game_state h1) (results_of S)") (auto simp: 1 split: sum.splits)
  qed (simp add: take_answer_def same_ids_refl)
qed

text \<open>Sending actions that are new and not in the queue keeps the invariant, whatever happens.\<close>

lemma send_keeps_ok:
  assumes h: "ids_ok h" "fresh_uids (map fst xs @ map fst (queue h)) h"
    and c: "create_game_state_action S q c b h0 w = (r, h', w')"
    and init: "xs = (if q then queue h0 else case c of None \<Rightarrow> [] | Some l \<Rightarrow> l)" "h = (if q then h0\<lparr>queue := []\<rparr> else h0)"
  shows "handler_ok h'"
proof -
  let ?h = "h\<lparr>past_actions := map fst xs\<rparr>"
  have ok: "ids_ok ?h" "fresh_uids (map fst xs) ?h" using h by (simp_all add: ids_ok_def fresh_uids_def)
  from assign_requests_ok [OF ok, of "[]"] obtain acts d where
    d: "assign_requests xs [] ?h = (Inr acts, ?h\<lparr>request_to_uid := d, action_request_id := action_request_id h + length xs\<rparr>)"
      "ids_ok (?h\<lparr>request_to_uid := d, action_request_id := action_request_id h + length xs\<rparr>)"
      "\<forall>u. u \<notin> set (map fst xs) \<longrightarrow> dict_get (reverse d) u = dict_get (reverse (request_to_uid h)) u" by auto
  let ?h1 = "?h\<lparr>request_to_uid := d, action_request_id := action_request_id h + length xs\<rparr>"
  have "dict_get (reverse d) u = None" if "u \<in> set (map fst (queue h))" for u
    using that h(2) d(3) [THEN spec, THEN mp, of u] by (auto simp: fresh_uids_def)
  then have "fresh_uids (map fst (queue h)) ?h1" using h(2) by (auto simp: fresh_uids_def)
  then have ok1: "handler_ok ?h1" using d(2) by (simp add: handler_ok_def)
  have "same_ids ?h1 h'"
    using c take_answer_same [of ?h1 S] same_ids_refl [of ?h1]
    unfolding create_game_state_action_def Let_def init(1) [symmetric] init(2) [symmetric] d(1)
    by (auto split: sum.splits prod.splits) (metis snd_conv)
  then show ?thesis using same_ids_ok ok1 by metis
qed

lemma next_uid:
  assumes "handler_ok h"
  shows "dict_get (reverse (request_to_uid h)) (action_counter h) = None" "action_counter h \<notin> fst ` set (queue h)"
proof -
  have "dict_get (forward (request_to_uid h)) k \<noteq> Some (action_counter h)" for k using assms by (auto simp: handler_ok_def ids_ok_def)
  then show "dict_get (reverse (request_to_uid h)) (action_counter h) = None"
    using assms unfolding handler_ok_def ids_ok_def inverse_dicts_def by (meson not_Some_eq)
  show "action_counter h \<notin> fst ` set (queue h)" using assms by (auto simp: handler_ok_def fresh_uids_def)
qed

lemma reachable_ok: "handler_reachable S h \<Longrightarrow> handler_ok h"
proof (induction rule: handler_reachable.induct)
  case new
  show ?case by (simp add: new_handler_def handler_ok_def ids_ok_def fresh_uids_def new_bidict_def inverse_dicts_def)
next
  case (que h a r h')
  then show ?case using next_uid [OF que.IH]
    by (auto simp: que_action_def handler_ok_def ids_ok_def fresh_uids_def less_Suc_eq split: sum.splits) fastforce+
next
  case (immediate h a w r h' w')
  show ?case
  proof (cases "check_minor a")
    case (Inl e)
    then show ?thesis using immediate by (simp add: immediate_action_def)
  next
    case (Inr x)
    let ?h = "h\<lparr>action_counter := action_counter h + 1\<rparr>"
    obtain r2 where c: "create_game_state_action S False (Some [(action_counter h, a)]) True ?h w = (r2, h', w')"
      using immediate.hyps(2) Inr by (auto simp: immediate_action_def Let_def split: prod.splits)
    show ?thesis by (rule send_keeps_ok [OF _ _ c refl refl])
        (use immediate.IH next_uid [OF immediate.IH] in \<open>auto simp: handler_ok_def ids_ok_def fresh_uids_def less_Suc_eq\<close>)
  qed
next
  case (send_queue h b w r h' w')
  show ?case by (rule send_keeps_ok [OF _ _ send_queue.hyps(2) refl refl])
      (use send_queue.IH in \<open>simp_all add: handler_ok_def ids_ok_def fresh_uids_def\<close>)
next
  case (send_empty h b w r h' w')
  show ?case by (rule send_keeps_ok [OF _ _ send_empty.hyps(2) refl refl])
      (use send_empty.IH in \<open>simp_all add: handler_ok_def ids_ok_def fresh_uids_def\<close>)
next
  case (forget h)
  then show ?case by (simp add: handler_ok_def ids_ok_def fresh_uids_def)
qed

subsection \<open>Properties\<close>


lemma store_results_lookup:
  assumes "store_results rs h = (Inr (), h')" "inverse_dicts (request_to_uid h)" "dict_wf rs"
    "dict_get (forward (request_to_uid h)) k = Some u"
  shows "dict_get (action_results h') u = (case dict_get rs k of None \<Rightarrow> dict_get (action_results h) u | Some r \<Rightarrow> Some r)"
  using assms
proof (induction rs arbitrary: h)
  case (Cons x rs)
  obtain rid r where x: "x = (rid, r)" by (cases x)
  from Cons.prems(1) x obtain v where v: "dict_get (forward (request_to_uid h)) rid = Some v"
    "store_results rs (h\<lparr>action_results := dict_set (action_results h) v r\<rparr>) = (Inr (), h')"
    by (auto simp: bidict_getitem_def dict_lookup_def split: option.splits)
  have ne: "v = u \<longleftrightarrow> rid = k"
    using v(1) Cons.prems(2,4) unfolding inverse_dicts_def by (metis option.inject)
  have "dict_get rs rid = None" using Cons.prems(3) x dict_get_not_None_iff [of rs rid] by auto
  then show ?case using Cons.IH [OF v(2)] Cons.prems(2-4) x ne by (auto split: option.splits)
qed simp

lemma store_results_state: "ah_game_state (snd (store_results rs h)) = ah_game_state h"
  by (induction rs h rule: store_results.induct) (auto split: sum.splits)

lemma take_answer_Inr:
  assumes "take_answer S j h = (Inr g, h')"
  obtains h1 rs where "same_ids h h1" "ah_game_state h1 = Some g" "results_of S g = Some rs" "store_results rs h1 = (Inr (), h')"
    "ah_game_state h' = Some g" "action_results h1 = action_results h"
proof -
  from assms obtain g0 r1 h1 where 1: "take_state S g0 h = (r1, h1)" "r1 = Inr ()"
    "(case Option.bind (ah_game_state h1) (results_of S) of None \<Rightarrow> (Inl AttributeError, h1)
        | Some rs \<Rightarrow> (case store_results rs h1 of (Inl e, h) \<Rightarrow> (Inl e, h) | (Inr _, h) \<Rightarrow> (Inr (the (ah_game_state h)), h))) = (Inr g, h')"
    unfolding take_answer_def by (auto split: sum.splits prod.splits)
  then obtain rs where rs: "Option.bind (ah_game_state h1) (results_of S) = Some rs" "store_results rs h1 = (Inr (), h')"
    "g = the (ah_game_state h')" by (auto split: option.splits prod.splits sum.splits)
  moreover have "ah_game_state h' = ah_game_state h1" using store_results_state [of rs h1] rs(2) by simp
  moreover from rs(1) obtain g1 where "ah_game_state h1 = Some g1" "results_of S g1 = Some rs" by (auto simp: bind_eq_Some_conv)
  moreover have "same_ids h h1" using take_state_same [of h S g0] 1(1) by simp
  moreover have "action_results h1 = action_results h"
    using 1(1) by (auto simp: take_state_def split: option.splits prod.splits)
  ultimately show ?thesis using that [of h1 rs] by simp
qed


text \<open>When the request fails, the queue has been emptied already: the actions are lost, although their
  numbers have been given out.\<close>

lemma failed_request_loses_queue:
  assumes "handler_reachable S h" and "\<And>req. fst (send S req w) = Inl e"
  shows "\<exists>h' w'. create_game_state_action S True None b h w = (Inl e, h', w') \<and> queue h' = [] \<and> action_results h' = action_results h"
proof -
  let ?h = "h\<lparr>queue := [], past_actions := map fst (queue h)\<rparr>"
  have "ids_ok ?h" "fresh_uids (map fst (queue h)) ?h"
    using reachable_ok [OF assms(1)] by (simp_all add: handler_ok_def ids_ok_def fresh_uids_def)
  from assign_requests_ok [OF this, of "[]"] obtain acts d where
    d: "assign_requests (queue h) [] ?h = (Inr acts, ?h\<lparr>request_to_uid := d, action_request_id := action_request_id h + length (queue h)\<rparr>)"
    by auto
  let ?req = "\<lparr>state_type = 0, state_id = ''0'', add_state_ids_on_sent = b,
     state_ids = (if b then Option.bind (ah_game_state h) (ids_and_stamps S) else None), gs_actions = acts\<rparr>"
  obtain w' where "send S ?req w = (Inl e, w')" using assms(2) [of ?req] by (metis prod.collapse)
  then show ?thesis by (simp add: create_game_state_action_def Let_def d cong: if_cong)
qed

subsection \<open>A server that accepts everything\<close>

definition kind_server :: "(int, (string \<times> int) list, unit, (string \<times> int) list, unit) server" where
  "kind_server = \<lparr>send = (\<lambda>req w. (Inr (map (\<lambda>a. (act_request a, act_body a)) (gs_actions req)), w)),
     result_class = (\<lambda>_. Inr ''ultshared.UltGameState''), parse_state = Inr, update_state = (\<lambda>_ g. (Inr (), g)),
     ids_and_stamps = (\<lambda>_. None), results_of = Some\<rparr>"

definition minor :: "int \<Rightarrow> int game_action" where
  "minor x = \<lparr>act_kind = MinorAction, language = ''en'', act_request = [], act_body = x\<rparr>"

definition two_queued :: "(int, (string \<times> int) list) action_handler" where
  "two_queued = snd (que_action (minor 8) (snd (que_action (minor 7) new_handler)))"

lemma two_queued_reachable: "handler_reachable S two_queued"
  unfolding two_queued_def by (rule que, rule que, rule new) (rule surjective_pairing)+

lemma two_queued_queue: "queue two_queued = [(0, minor 7), (1, minor 8)]" "action_request_id two_queued = 0"
  by (simp_all add: two_queued_def que_action_def check_minor_def minor_def new_handler_def)



end
