(* ===== verification/Spec2Isabelle.thy ===== *)
theory Spec2Isabelle
  imports Metadata Bipatch Storage Times Utils Segment Timeline Hooks Steiner Updates LongPatch Playing Navigation Actions
begin

text \<open>
  A verification development of the Conlyse replay library
  (\<open>src/libs/conflict_interface/conflict_interface\<close>; the paths below are relative to it).

  \<^bold>\<open>The program.\<close>  Conlyse records games of Conflict of Nations and plays them back.  A game state is a tree
  of objects.  Between two states the recorder computes a patch in both directions; patches are numbered
  against a tree of paths, written to the segment of a replay file, and form the edges of a graph of
  recorded times.  To show a time, the interface searches the graph for a cheapest way, merges
  the patches on it into one when the way is long, and applies the operations to the live objects, whose
  references it finds through a Steiner tree of the changed paths; hooks are told about the changes.  A
  replay file is a timeline of segments, one per client version and map.  While a game is played, actions
  are queued and sent in requests, and the answers update the state in place.

  \<^bold>\<open>Theories, in the order of their imports.\<close>

  \<^item> \<open>Prelude\<close>: exceptions as values (\<open>py_error\<close>, \<open>'a result\<close>), insertion-ordered dicts, loops that may
    raise (\<open>rfold\<close>, \<open>rmap\<close>) or not end (\<open>obind\<close>, \<open>ofold\<close>), bisection, words and bytes.
  \<^item> \<open>Binary\<close>: \<open>utils/binary.py\<close>, the reader and writer over a byte list and a position, and what it uses of
    \<open>struct\<close>.  \<open>Metadata\<close>: \<open>replay/segment_metadata.py\<close>, \<open>replay/timeline_metadata.py\<close>.  Fields and
    headers are read back as written when they fit their widths.
  \<^item> \<open>Times\<close>: \<open>utils/helper.py\<close>, date and time conversions.  \<open>Utils\<close>: \<open>utils/bidict.py\<close> and
    \<open>utils/rect.py\<close>.
  \<^item> \<open>Values\<close>, \<open>Apply\<close>: the values of a game state, Python equality, and \<open>replay/apply_replay_helper.py\<close>
    on values (\<open>apply_operation\<close>; \<open>apply_op\<close> is an operation at a path).
  \<^item> \<open>Bipatch\<close>: \<open>replay/replay_patch.py\<close> and \<open>replay/make_bipatch_between_gamestates.py\<close>.  The forward
    patch takes the first object to the second, the backward patch takes it back.
  \<^item> \<open>Updates\<close>: \<open>data_types/newest/update_helpers.py\<close>, the updates in place, with the same two facts about
    the patch they record.
  \<^item> \<open>Serializer\<close>: \<open>game_object/game_object_binary.py\<close>.  \<open>PatchNode\<close>: \<open>replay/patch_graph_node.py\<close>.
    Objects and patches are read back as written.
  \<^item> \<open>PathTree\<close>: \<open>replay/path_tree.py\<close> and \<open>replay/path_tree_node.py\<close>.  The invariant \<open>tree_wf\<close> makes paths
    and indices inverse to each other; the recorded triples rebuild the tree.
    \<open>Rmq\<close> and \<open>Steiner\<close>: the Euler tour and the sparse table of \<open>PathTree.precompute\<close> and
    \<open>replay/steiner_tree.cpp\<close>; which tree some nodes span.
  \<^item> \<open>PatchGraph\<close>: \<open>replay/patch_graph.py\<close>.  The path that is found is a cheapest one, and is
    missing only when there is none.
  \<^item> \<open>LongPatch\<close>: \<open>replay/long_patch.py\<close> and \<open>replay/op_tree.cpp\<close>.  A merged operation has the effect of those
    it replaces; with independent changes nothing is lost, with nested ones a change can be.
  \<^item> \<open>Storage\<close>, \<open>Segment\<close>, \<open>Timeline\<close>: \<open>replay/replay_storage.py\<close>, \<open>replay/replay_segment.py\<close>,
    \<open>replay/replay_timeline.py\<close>.  The sections of a segment and the records of a file read back; what is
    queued, appended in place and closed is what a reader loads (the invariant \<open>recording\<close>); the intervals of
    the segments stay disjoint, so that a time has at most one segment.
  \<^item> \<open>Hooks\<close>: \<open>hook_system/\<close>.  What event triggers deliver in every state their operations reach.
  \<^item> \<open>Objects\<close>, \<open>Playing\<close>: \<open>ReplaySegment.apply_patch\<close> on objects in a memory of cells.  On a state
    without shared objects, playing patches through cached references refines applying their operations
    along their paths.
  \<^item> \<open>Navigation\<close>: \<open>interface/replay_interface.py\<close>.  A jump shows the state recorded for the last recorded time
    that is not after the target; it combines \<open>Timeline\<close>, \<open>PatchGraph\<close>, \<open>LongPatch\<close> and \<open>Hooks\<close>.
  \<^item> \<open>Actions\<close>: \<open>interface/action_handler.py\<close>.  Numbers and request ids never clash, and results are stored
    under the action they belong to; this rests on \<open>Bidict\<close>.

  \<^bold>\<open>How the code is modelled.\<close>  A class is a record, a method a function from its arguments and the state
  to a result and the new state.  An exception is the value \<open>Inl\<close> of its class; where a caller goes on
  after it, the state it leaves is returned with it.  Objects that the program changes in place are
  values that are put back, except in \<open>Objects\<close> and \<open>Playing\<close>, where they lie at addresses and can be
  shared.  Integers of the file format keep their widths and raise outside them; Python's own are unbounded.
  Dicts keep insertion order.  A \<open>set\<close> or \<open>unordered_map\<close> whose order the program leaves open is
  either a parameter (the order of the keys in \<open>Bipatch\<close>) or is shown not to matter.

  \<^bold>\<open>Interfaces as locales.\<close>  \<open>field_codec\<close> is the contract between a write and a read method, interpreted for the
  nine fixed-width fields of \<open>Binary\<close>; \<open>range_min\<close> is what a range-minimum query promises, interpreted on the
  sparse table; \<open>euler_tour\<close> is what the tour of a tree promises to the search for common ancestors,
  interpreted on the tour of \<open>PathTree.precompute\<close>; \<open>updating\<close> is what the \<open>update\<close> method of the objects in
  a container owes, interpreted on \<open>universal_update\<close>.

  \<^bold>\<open>Loops and bounds.\<close>  Recursion over data is structural.  Loops over a stack or a queue (\<open>reset_loop\<close>,
  \<open>bfs_loop\<close>, \<open>validate_loop\<close>, \<open>euler_loop\<close>, \<open>climb\<close>, \<open>reconstruct\<close>, \<open>init_slots\<close>, \<open>collapse_loop\<close>,
  \<open>old_values_loop\<close>) are partial functions with the result \<open>None\<close> for a loop that does not end; the theorems
  state that they end, on well-formed trees and with the distances \<open>dijkstra\<close> returns (for
  \<open>old_values_loop\<close>, which runs when hooks are registered, there are concrete runs only).  \<open>dfs_apply_ops\<close> has
  fuel, the number of nodes of the path tree, which bounds the depth of the recursion; \<open>copy_val\<close> has fuel, a
  bound on the depth of the copied object.  In \<open>Binary\<close> a composite array is limited by its 32-bit length
  field, an index entry by its 64-bit offset and 32-bit size.

  \<^bold>\<open>Parameters.\<close>  LZ4 and zstd, \<open>msgpack\<close> and \<open>msgspec\<close> (what is compressed or packed comes back),
  SciPy's \<open>dijkstra\<close> (\<open>shortest_tree\<close>), the order of a set, the class tables (attribute names, type ids, enum
  members), callbacks, and in \<open>Actions\<close> the server, the JSON parser and the update of the game state.
  Every theorem with such a hypothesis has a witness with a concrete instance.

  \<^bold>\<open>Not modelled.\<close>  The data types of the game, one copy per client version (declarations, and JSON
  parsing driven by their annotations); the replay builder, which feeds recorded responses to the parser and
  the recorder; the HTTP clients and the online and hub interfaces; opening a replay in the interface with
  its static map files; single-precision fields and the statistics of the serializer; printing.  A jump in
  \<open>Navigation\<close> is modelled without attribute triggers, whose reports are in \<open>Playing\<close>.  Outside the library:
  the desktop application, the web and converter services, the recorder in Rust, and the tools and scripts
  around it.
\<close>

end
